(* ===== verification/Prelude.thy ===== *)
theory Prelude
  imports Main "HOL-Library.Word"
begin

text \<open>
  What the component theories share: the outcome of a C++ operation as a value of a sum type
  (a fault, or the result), the machine types, memory blocks whose cells may still be
  indeterminate, \<open>memcpy\<close> on them, the little-endian layout of an integer, and the decimal
  formatting that the program takes from \<open>snprintf\<close>.
\<close>

named_theorems unat_simps \<open>reading the results of unsigned machine arithmetic as natural numbers\<close>
named_theorems res_simps \<open>running a fallible operation step by step\<close>

section \<open>Outcomes\<close>

text \<open>
  \<open>AssertFail\<close> is a failed \<open>assert\<close> (the build files never define \<open>NDEBUG\<close>, so they are
  live), \<open>OutOfBounds\<close> an access outside an object, \<open>NullDeref\<close> an access through a null or
  invalid pointer, \<open>Uninit\<close> a use of an indeterminate value, \<open>Diverges\<close> a loop that does not end, \<open>Terminated\<close> a
  call of \<open>std::terminate\<close> or \<open>exit\<close>.
\<close>

datatype fault = AssertFail | OutOfBounds | NullDeref | Uninit | Diverges | Terminated

type_synonym 'a res = "fault + 'a"

definition res_bind :: "'a res \<Rightarrow> ('a \<Rightarrow> 'b res) \<Rightarrow> 'b res" where
  "res_bind m f = (case m of Inl e \<Rightarrow> Inl e | Inr x \<Rightarrow> f x)"

definition check :: "bool \<Rightarrow> fault \<Rightarrow> 'a res \<Rightarrow> 'a res" where
  "check P e k = (if P then k else Inl e)"

lemma res_bind_simps [simp]:
  "res_bind (Inl e) f = Inl e"
  "res_bind (Inr x) f = f x"
  by (simp_all add: res_bind_def)

lemma res_bind_Inr: "res_bind m f = Inr y \<longleftrightarrow> (\<exists>x. m = Inr x \<and> f x = Inr y)"
  by (cases m) auto

lemma res_bind_assoc: "res_bind (res_bind m f) g = res_bind m (\<lambda>x. res_bind (f x) g)"
  by (cases m) auto

lemma check_True [simp]: "P \<Longrightarrow> check P e k = k"
  by (simp add: check_def)

lemma check_False [simp]: "\<not> P \<Longrightarrow> check P e k = Inl e"
  by (simp add: check_def)

lemma check_Inr: "check P e k = Inr y \<longleftrightarrow> P \<and> k = Inr y"
  by (simp add: check_def)

lemmas res_inr [res_simps] = res_bind_Inr check_Inr

text \<open>Folding a fallible operation over a list of inputs, stopping at the first fault.\<close>

primrec res_fold :: "('a \<Rightarrow> 's \<Rightarrow> 's res) \<Rightarrow> 'a list \<Rightarrow> 's \<Rightarrow> 's res" where
  "res_fold f [] s = Inr s"
| "res_fold f (x # xs) s = res_bind (f x s) (res_fold f xs)"

lemma res_fold_append:
  "res_fold f (xs @ ys) s = res_bind (res_fold f xs s) (res_fold f ys)"
proof (induction xs arbitrary: s)
  case Nil
  then show ?case by simp
next
  case (Cons x xs)
  then show ?case by (cases "f x s") simp_all
qed

section \<open>Machine types\<close>

type_synonym size_t = "64 word"
type_synonym uint = "32 word"
type_synonym byte = char

text \<open>A memory cell: \<open>None\<close> is the indeterminate value that \<open>new char[n]\<close> leaves behind.\<close>

type_synonym cell = "byte option"

abbreviation size_max :: nat where
  "size_max \<equiv> 2 ^ 64 - 1"

lemma unat_bound64: "unat (x :: size_t) < 18446744073709551616"
  using unsigned_less [of x] by simp

lemma unat_add64 [unat_simps]:
  "unat a + unat b < 18446744073709551616 \<Longrightarrow> unat (a + b) = unat a + unat (b :: size_t)"
  by (simp add: unat_word_ariths)

lemma unat_add64_mod: "unat (a + b) = (unat a + unat (b :: size_t)) mod 18446744073709551616"
  by (simp add: unat_word_ariths)

lemma unat_sub64 [unat_simps]: "unat b \<le> unat a \<Longrightarrow> unat (a - b) = unat a - unat (b :: size_t)"
  by (simp add: unat_sub word_le_nat_alt)

lemma unat_mult64 [unat_simps]:
  "unat a * unat b < 18446744073709551616 \<Longrightarrow> unat (a * b) = unat a * unat (b :: size_t)"
  by (simp add: unat_word_ariths)

lemma unat_of_nat64 [unat_simps]:
  "n < 18446744073709551616 \<Longrightarrow> unat (of_nat n :: size_t) = n"
  by (simp add: unat_of_nat)

lemma pow2_word: "(2 :: size_t) ^ i = of_nat (2 ^ i)"
  by simp

lemma unat_pow2 [unat_simps]: "i < 64 \<Longrightarrow> unat ((2 :: size_t) ^ i) = 2 ^ i"
proof -
  assume "i < 64"
  then have "(2::nat) ^ i < 2 ^ 64" by (rule power_strict_increasing) simp
  then have "(2::nat) ^ i < 18446744073709551616" by simp
  then show ?thesis unfolding pow2_word by (rule unat_of_nat64)
qed

lemma le64_iff: "(a :: size_t) \<le> b \<longleftrightarrow> unat a \<le> unat b"
  by (simp add: word_le_nat_alt)

lemma less64_iff: "(a :: size_t) < b \<longleftrightarrow> unat a < unat b"
  by (simp add: word_less_nat_alt)

lemma eq64_iff: "(a :: size_t) = b \<longleftrightarrow> unat a = unat b"
  by (rule word_unat_eq_iff)

lemmas size_ord = le64_iff less64_iff eq64_iff

section \<open>Memory blocks\<close>

definition fresh_block :: "nat \<Rightarrow> cell list" where
  "fresh_block n = replicate n None"

text \<open>
  \<open>memcpy_at dst d src s n\<close> is \<open>memcpy(dst + d, src + s, n)\<close>: both ranges have to lie inside
  their objects. \<open>memmove\<close> inside one object is the same function with \<open>src = dst\<close>.
\<close>

definition memcpy_at :: "'a list \<Rightarrow> nat \<Rightarrow> 'a list \<Rightarrow> nat \<Rightarrow> nat \<Rightarrow> 'a list res" where
  "memcpy_at dst d src s n =
     check (d + n \<le> length dst \<and> s + n \<le> length src) OutOfBounds
       (Inr (take d dst @ take n (drop s src) @ drop (d + n) dst))"

lemma length_fresh_block [simp]: "length (fresh_block n) = n"
  by (simp add: fresh_block_def)

lemma memcpy_at_ok [simp]:
  "d + n \<le> length dst \<Longrightarrow> s + n \<le> length src \<Longrightarrow>
   memcpy_at dst d src s n = Inr (take d dst @ take n (drop s src) @ drop (d + n) dst)"
  by (simp add: memcpy_at_def)

lemma memcpy_at_out: "length dst < d + n \<or> length src < s + n \<Longrightarrow> memcpy_at dst d src s n = Inl OutOfBounds"
  by (auto simp: memcpy_at_def check_def)

lemma memcpy_at_Inr:
  "memcpy_at dst d src s n = Inr m \<longleftrightarrow>
     d + n \<le> length dst \<and> s + n \<le> length src \<and>
     m = take d dst @ take n (drop s src) @ drop (d + n) dst"
  by (auto simp: memcpy_at_def check_def)

lemma length_memcpy_at: "memcpy_at dst d src s n = Inr m \<Longrightarrow> length m = length dst"
  by (auto simp: memcpy_at_Inr)

section \<open>Little-endian integers\<close>

primrec enc_le :: "nat \<Rightarrow> nat \<Rightarrow> byte list" where
  "enc_le 0 n = []"
| "enc_le (Suc k) n = char_of n # enc_le k (n div 256)"

primrec dec_le :: "byte list \<Rightarrow> nat" where
  "dec_le [] = 0"
| "dec_le (c # cs) = of_char c + 256 * dec_le cs"

lemma length_enc_le [simp]: "length (enc_le k n) = k"
  by (induction k arbitrary: n) auto

lemma dec_enc_le: "n < 256 ^ k \<Longrightarrow> dec_le (enc_le k n) = n"
proof (induction k arbitrary: n)
  case 0
  then show ?case by simp
next
  case (Suc k)
  then have "n div 256 < 256 ^ k" by (simp add: less_mult_imp_div_less mult.commute)
  with Suc.IH have "dec_le (enc_le k (n div 256)) = n div 256" by blast
  then show ?case by simp
qed

section \<open>Decimal and hexadecimal formatting\<close>

definition digit_char :: "nat \<Rightarrow> byte" where
  "digit_char d = ''0123456789abcdef'' ! d"

fun digits_of :: "nat \<Rightarrow> nat \<Rightarrow> byte list" where
  "digits_of b n =
     (if b < 2 \<or> n < b then [digit_char n] else digits_of b (n div b) @ [digit_char (n mod b)])"

declare digits_of.simps [simp del]

definition dec_nat :: "nat \<Rightarrow> byte list" where
  "dec_nat n = digits_of 10 n"

text \<open>\<open>%d\<close> and \<open>%0wd\<close>: the sign comes first and counts for the width.\<close>

definition fmt_int :: "int \<Rightarrow> byte list" where
  "fmt_int z = (if z < 0 then CHR ''-'' # dec_nat (nat (- z)) else dec_nat (nat z))"

definition pad_zero :: "nat \<Rightarrow> byte list \<Rightarrow> byte list" where
  "pad_zero w s = replicate (w - length s) CHR ''0'' @ s"

definition fmt_int0 :: "nat \<Rightarrow> int \<Rightarrow> byte list" where
  "fmt_int0 w z =
     (if z < 0 then CHR ''-'' # pad_zero (w - 1) (dec_nat (nat (- z)))
      else pad_zero w (dec_nat (nat z)))"

definition undigit :: "byte \<Rightarrow> nat" where
  "undigit c = of_char c - 48"

definition read_dec :: "byte list \<Rightarrow> nat" where
  "read_dec s = foldl (\<lambda>a c. 10 * a + undigit c) 0 s"

lemma length_digits_of_le:
  assumes "2 \<le> b" "n < b ^ k" "0 < k"
  shows "length (digits_of b n) \<le> k"
  using assms
proof (induction b n arbitrary: k rule: digits_of.induct)
  case (1 b n)
  show ?case
  proof (cases "n < b")
    case True
    with "1.prems" show ?thesis by (subst digits_of.simps) simp
  next
    case False
    with "1.prems" obtain j where k: "k = Suc j" and "0 < j"
      by (cases k; cases "k - 1") auto
    have "n div b < b ^ j"
      using "1.prems" k by (simp add: less_mult_imp_div_less mult.commute)
    with False "1.prems"(1) \<open>0 < j\<close> have "length (digits_of b (n div b)) \<le> j"
      by (intro "1.IH") auto
    with False "1.prems"(1) k show ?thesis by (subst digits_of.simps) simp
  qed
qed

lemma length_dec_nat_le: "n < 10 ^ k \<Longrightarrow> 0 < k \<Longrightarrow> length (dec_nat n) \<le> k"
  unfolding dec_nat_def by (rule length_digits_of_le) auto

lemma digits_of_nonempty [simp]: "digits_of b n \<noteq> []"
  by (subst digits_of.simps) auto

lemma undigit_digit_char [simp]: "d < 10 \<Longrightarrow> undigit (digit_char d) = d"
proof -
  assume "d < 10"
  then have "d \<in> {0, 1, 2, 3, 4, 5, 6, 7, 8, 9}" by auto
  then show ?thesis by (auto simp: undigit_def digit_char_def)
qed

lemma read_dec_snoc [simp]: "read_dec (s @ [c]) = 10 * read_dec s + undigit c"
  by (simp add: read_dec_def)

lemma read_dec_nat: "read_dec (dec_nat n) = n"
proof (induction n rule: less_induct)
  case (less n)
  show ?case
  proof (cases "n < 10")
    case True
    then show ?thesis by (simp add: dec_nat_def digits_of.simps read_dec_def)
  next
    case False
    then have "read_dec (dec_nat (n div 10)) = n div 10" by (intro less.IH) simp
    moreover have "dec_nat n = dec_nat (n div 10) @ [digit_char (n mod 10)]"
      using False unfolding dec_nat_def by (subst digits_of.simps) simp
    ultimately show ?thesis by simp
  qed
qed

lemma read_dec_pad_zero [simp]: "read_dec (replicate k CHR ''0'' @ s) = read_dec s"
proof (induction k)
  case 0
  then show ?case by simp
next
  case (Suc k)
  then show ?case by (simp add: read_dec_def undigit_def)
qed

lemma read_fmt_int0: "read_dec (fmt_int0 w (int n)) = n"
  by (simp add: fmt_int0_def pad_zero_def read_dec_nat)

lemma length_fmt_int0: "n < 10 ^ w \<Longrightarrow> 0 < w \<Longrightarrow> length (fmt_int0 w (int n)) = w"
  using length_dec_nat_le [of n w] by (simp add: fmt_int0_def pad_zero_def)

text \<open>Evaluating the formatting of a literal.\<close>

lemmas fmt_eval =
  fmt_int0_def fmt_int_def pad_zero_def dec_nat_def digit_char_def
  digits_of.simps [where n = "numeral k" for k] digits_of.simps [where n = 0]
  digits_of.simps [where n = 1] digits_of.simps [where n = "Suc 0"]

section \<open>Writing text into memory\<close>

text \<open>
  \<open>put_at\<close> is \<open>memcpy\<close> from a string constant (or one character assignment),
  \<open>snprintf_at buf i n s\<close> is \<open>snprintf(buf + i, n, ...)\<close> whose formatted text is \<open>s\<close>: at
  most \<open>n - 1\<close> characters and a terminator are stored, and the length of \<open>s\<close> is returned.
\<close>

definition put_at :: "cell list \<Rightarrow> nat \<Rightarrow> byte list \<Rightarrow> cell list res" where
  "put_at buf i bs = memcpy_at buf i (map Some bs) 0 (length bs)"

definition snprintf_at :: "cell list \<Rightarrow> nat \<Rightarrow> nat \<Rightarrow> byte list \<Rightarrow> (cell list \<times> int) res" where
  "snprintf_at buf i n s =
     (if n = 0 then Inr (buf, int (length s))
      else res_bind (put_at buf i (take (n - 1) s @ [CHR 0x00])) (\<lambda>buf. Inr (buf, int (length s))))"

definition put_piece :: "nat \<times> byte list res \<Rightarrow> cell list \<Rightarrow> cell list res" where
  "put_piece p buf = res_bind (snd p) (put_at buf (fst p))"

lemma put_at_ok [simp]:
  "i + length bs \<le> length buf \<Longrightarrow>
   put_at buf i bs = Inr (take i buf @ map Some bs @ drop (i + length bs) buf)"
  by (simp add: put_at_def)

lemma put_at_out: "length buf < i + length bs \<Longrightarrow> put_at buf i bs = Inl OutOfBounds"
  by (simp add: put_at_def memcpy_at_out)

lemma put_at_append:
  "length bs \<le> length rest \<Longrightarrow>
   put_at (P @ rest) (length P) bs = Inr ((P @ map Some bs) @ drop (length bs) rest)"
  by simp

fun contiguous :: "nat \<Rightarrow> (nat \<times> byte list) list \<Rightarrow> bool" where
  "contiguous i [] = True"
| "contiguous i ((j, bs) # ps) = (j = i \<and> contiguous (i + length bs) ps)"

lemma put_contiguous:
  assumes "contiguous (length P) ps" "length (concat (map snd ps)) \<le> length rest"
  shows "res_fold put_piece (map (\<lambda>(i, bs). (i, Inr bs)) ps) (P @ rest) =
    Inr (P @ map Some (concat (map snd ps)) @ drop (length (concat (map snd ps))) rest)"
  using assms
proof (induction ps arbitrary: P rest)
  case Nil
  then show ?case by simp
next
  case (Cons p ps)
  obtain i bs where p: "p = (i, bs)" by fastforce
  have "put_piece (i, Inr bs) (P @ rest) = Inr ((P @ map Some bs) @ drop (length bs) rest)"
    using Cons.prems p put_at_append [of bs rest P] by (simp add: put_piece_def)
  moreover have "contiguous (length (P @ map Some bs)) ps" using Cons.prems p by simp
  ultimately show ?case
    using Cons.IH [of "P @ map Some bs" "drop (length bs) rest"] Cons.prems p
    by (simp add: add.commute)
qed

end
