(* ===== verification/Buffer.thy ===== *)
theory Buffer
  imports Prelude
begin

text \<open>
  The byte buffer of netbridge/Buffer.h and Buffer.cc: a block of \<open>capacity\<close> cells of which
  \<open>readPos..writePos\<close> holds the readable data. \<open>contents\<close> is the abstract value, the list
  of readable cells; the operations are shown to be those of a byte queue on it, to stay inside
  the block, and to fail nowhere except where stated. The locale \<open>byte_queue\<close> is the part of
  this contract that the clients (BufferVector, the logger) rely on.
\<close>

section \<open>The class\<close>

record Buffer =
  readPos :: size_t
  writePos :: size_t
  capacity :: size_t
  buffer :: "cell list option"

definition kMaxBufferSize :: size_t where
  "kMaxBufferSize = 18446744073709551615 div 2"

definition kHighWaterMark :: size_t where
  "kHighWaterMark = 1 * 1024"

definition kDefaultSize :: size_t where
  "kDefaultSize = 256"

partial_function (option) RoundUp_loop :: "size_t \<Rightarrow> size_t \<Rightarrow> size_t option" where
  "RoundUp_loop roundUp n =
     (if roundUp < n then RoundUp_loop (roundUp * 2) n else Some roundUp)"

definition RoundUp2Power :: "size_t \<Rightarrow> size_t option" where
  "RoundUp2Power n = (if n = 0 then Some 0 else RoundUp_loop 1 n)"

definition Buffer_default :: Buffer where
  "Buffer_default = \<lparr>readPos = 0, writePos = 0, capacity = 0, buffer = None\<rparr>"

definition Produce :: "size_t \<Rightarrow> Buffer \<Rightarrow> Buffer" where
  "Produce bytes b = b\<lparr>writePos := writePos b + bytes\<rparr>"

definition ReadAddr :: "Buffer \<Rightarrow> cell list option" where
  "ReadAddr b = map_option (drop (unat (readPos b))) (buffer b)"

definition WriteAddr :: "Buffer \<Rightarrow> cell list option" where
  "WriteAddr b = map_option (drop (unat (writePos b))) (buffer b)"

definition ReadableSize :: "Buffer \<Rightarrow> size_t" where
  "ReadableSize b = writePos b - readPos b"

definition WritableSize :: "Buffer \<Rightarrow> size_t" where
  "WritableSize b = capacity b - writePos b"

definition IsEmpty :: "Buffer \<Rightarrow> bool" where
  "IsEmpty b = (ReadableSize b = 0)"

definition Clear :: "Buffer \<Rightarrow> Buffer" where
  "Clear b = b\<lparr>readPos := 0, writePos := 0\<rparr>"

section \<open>\<open>RoundUp2Power\<close>\<close>

lemma RoundUp_loop_returns:
  assumes "i \<le> 63" "unat n \<le> 2 ^ 63"
  shows "\<exists>k. i \<le> k \<and> k \<le> 63 \<and> RoundUp_loop (2 ^ i) n = Some (2 ^ k) \<and>
             unat n \<le> 2 ^ k \<and> (k = i \<or> 2 ^ k < 2 * unat n)"
  using assms
proof (induction "63 - i" arbitrary: i)
  case 0
  then have "i = 63" by simp
  with 0 have "\<not> (2 :: size_t) ^ i < n" by (simp add: less64_iff unat_simps)
  with \<open>i = 63\<close> 0 show ?case by (intro exI [of _ 63]) (simp add: RoundUp_loop.simps)
next
  case (Suc d)
  show ?case
  proof (cases "(2 :: size_t) ^ i < n")
    case False
    with Suc.prems Suc.hyps show ?thesis
      by (intro exI [of _ i]) (simp add: RoundUp_loop.simps less64_iff unat_simps)
  next
    case True
    from Suc.hyps have "d = 63 - Suc i" "Suc i \<le> 63" by auto
    with Suc.hyps(1) [of "Suc i"] Suc.prems obtain k where
      k: "Suc i \<le> k" "k \<le> 63" "RoundUp_loop (2 ^ Suc i) n = Some (2 ^ k)"
         "unat n \<le> 2 ^ k" "k = Suc i \<or> 2 ^ k < 2 * unat n" by blast
    from True have "RoundUp_loop (2 ^ i) n = RoundUp_loop (2 ^ Suc i) n"
      by (subst RoundUp_loop.simps) (simp add: mult.commute)
    moreover have "2 ^ k < 2 * unat n"
      using k(5) True Suc.prems Suc.hyps(2) by (auto simp: less64_iff unat_simps)
    ultimately show ?thesis using k by (intro exI [of _ k]) auto
  qed
qed

lemma RoundUp_loop_result:
  assumes "RoundUp_loop r n = Some y" "\<exists>i. r = 2 ^ i"
  shows "n \<le> y \<and> (\<exists>j. y = 2 ^ j)"
proof -
  have "(\<exists>i. r = 2 ^ i) \<longrightarrow> n \<le> y \<and> (\<exists>j. y = 2 ^ j)"
  proof (rule RoundUp_loop.raw_induct
      [where P = "\<lambda>r n y. (\<exists>i. r = 2 ^ i) \<longrightarrow> n \<le> y \<and> (\<exists>j. y = 2 ^ j)", OF _ assms(1)])
    fix f r n y
    assume IH: "\<And>r n y. f r n = Some y \<Longrightarrow> (\<exists>i. r = 2 ^ i) \<longrightarrow> n \<le> y \<and> (\<exists>j. y = 2 ^ j)"
      and eq: "(if r < n then f (r * 2) n else Some r) = Some (y :: size_t)"
    show "(\<exists>i. r = 2 ^ i) \<longrightarrow> n \<le> y \<and> (\<exists>j. y = 2 ^ j)"
    proof
      assume "\<exists>i. r = 2 ^ i"
      then obtain i where i: "r = 2 ^ i" by blast
      show "n \<le> y \<and> (\<exists>j. y = 2 ^ j)"
      proof (cases "r < n")
        case True
        with eq have "f (r * 2) n = Some y" by simp
        moreover have "\<exists>i. r * 2 = 2 ^ i" using i by (intro exI [of _ "Suc i"]) simp
        ultimately show ?thesis using IH by blast
      next
        case False
        with eq i show ?thesis by auto
      qed
    qed
  qed
  with assms(2) show ?thesis by blast
qed

lemma pow2_word_wraps: "64 \<le> i \<Longrightarrow> (2 :: size_t) ^ i = 0"
  by (simp add: exp_eq_zero_iff)

lemma unat_pow2_word_le: "unat ((2 :: size_t) ^ i) \<le> 2 ^ 63"
proof (cases "i < 64")
  case True
  then have "(2::nat) ^ i \<le> 2 ^ 63" by (intro power_increasing) auto
  with True show ?thesis by (simp add: unat_simps)
next
  case False
  then show ?thesis by (subst pow2_word_wraps) simp_all
qed

lemma RoundUp2Power_Some:
  assumes "RoundUp2Power n = Some y" "n \<noteq> 0"
  shows "n \<le> y" "\<exists>j < 64. y = 2 ^ j \<and> unat y = 2 ^ j"
proof -
  have "RoundUp_loop 1 n = Some y" using assms by (simp add: RoundUp2Power_def)
  moreover have "\<exists>i. (1 :: size_t) = 2 ^ i" by (rule exI [of _ 0]) simp
  ultimately have y: "n \<le> y" "\<exists>j. y = 2 ^ j" using RoundUp_loop_result by blast+
  then show "n \<le> y" by simp
  from y obtain j where j: "y = 2 ^ j" by blast
  have "y \<noteq> 0" using y(1) assms(2) by auto
  with j have "j < 64" using pow2_word_wraps [of j] by (cases "j < 64") auto
  with j show "\<exists>j < 64. y = 2 ^ j \<and> unat y = 2 ^ j" by (auto simp: unat_simps)
qed

lemma RoundUp2Power_least:
  assumes "n \<noteq> 0" "unat n \<le> 2 ^ 63"
  shows "\<exists>k \<le> 63. RoundUp2Power n = Some (2 ^ k) \<and> unat n \<le> 2 ^ k \<and> 2 ^ k < 2 * unat n"
proof -
  from RoundUp_loop_returns [of 0 n] assms(2) obtain k where
    k: "k \<le> 63" "RoundUp_loop 1 n = Some (2 ^ k)" "unat n \<le> 2 ^ k" "k = 0 \<or> 2 ^ k < 2 * unat n"
    by auto
  moreover have "0 < unat n" using assms(1) by (simp add: eq64_iff)
  ultimately show ?thesis using assms(1) by (intro exI [of _ k]) (auto simp: RoundUp2Power_def)
qed

lemma RoundUp2Power_diverges: "2 ^ 63 < unat n \<Longrightarrow> RoundUp2Power n = None"
proof (rule ccontr)
  assume big: "2 ^ 63 < unat n" and "RoundUp2Power n \<noteq> None"
  then obtain y where y: "RoundUp2Power n = Some y" by auto
  have "n \<noteq> 0" using big by auto
  from RoundUp2Power_Some [OF y this] obtain j where "n \<le> y" "y = 2 ^ j" by blast
  with unat_pow2_word_le [of j] big show False by (simp add: le64_iff)
qed

section \<open>Growing the block\<close>

text \<open>
  One round of the loop of \<open>AssureSpace\<close> on \<open>capacity_\<close>: the next capacity, or the failed
  assertion. The loop itself runs until \<open>WritableSize() + readPos_\<close> is enough.
\<close>

definition grow_step :: "size_t \<Rightarrow> size_t res" where
  "grow_step c =
     (if c < kDefaultSize then Inr kDefaultSize
      else if c \<le> kMaxBufferSize then
        (case RoundUp2Power c of
           None \<Rightarrow> Inl Diverges
         | Some newCapacity \<Rightarrow>
             if c < newCapacity then Inr newCapacity else Inr (3 * newCapacity div 2))
      else Inl AssertFail)"

lemma kMax_unat [simp]: "unat kMaxBufferSize = 2 ^ 63 - 1"
  by (simp add: kMaxBufferSize_def)

lemma kDefault_unat [simp]: "unat kDefaultSize = 256"
  by (simp add: kDefaultSize_def)

lemma unat_div64 [unat_simps]: "unat (a div b) = unat a div unat (b :: size_t)"
  by (rule unat_div_distrib)

lemma pow2_bound_exp: "(2::nat) ^ j < 2 ^ 63 \<Longrightarrow> j \<le> 62"
  by (rule ccontr) (use power_increasing [of 63 j "2::nat"] in auto)

lemma grow_step_cases:
  assumes "grow_step c = Inr c'"
  obtains "unat c < 256" "c' = 256"
  | j where "256 \<le> unat c" "unat c < 2 ^ j" "j \<le> 63" "2 ^ j < 2 * unat c" "unat c' = 2 ^ j"
  | j where "unat c = 2 ^ j" "8 \<le> j" "j \<le> 62" "unat c' = 3 * 2 ^ j div 2"
proof (cases "c < kDefaultSize")
  case True
  then show ?thesis using assms that(1)
    by (simp add: grow_step_def less64_iff kDefaultSize_def)
next
  case False
  then have big: "256 \<le> unat c" by (simp add: less64_iff)
  from False assms have le: "c \<le> kMaxBufferSize" by (auto simp: grow_step_def split: if_splits)
  have "c \<noteq> 0" using big by auto
  moreover have c63: "unat c < 2 ^ 63" using le by (simp add: le64_iff)
  ultimately obtain k where k: "k \<le> 63" "RoundUp2Power c = Some (2 ^ k)"
    "unat c \<le> 2 ^ k" "2 ^ k < 2 * unat c" using RoundUp2Power_least [of c] by auto
  show ?thesis
  proof (cases "c < 2 ^ k")
    case True
    with k False le assms have "c' = 2 ^ k" by (simp add: grow_step_def)
    with True k big show ?thesis by (intro that(2) [of k]) (auto simp: less64_iff unat_simps)
  next
    case False': False
    with k have eq: "unat c = 2 ^ k" by (simp add: less64_iff unat_simps)
    from c63 eq have "k \<le> 62" by (intro pow2_bound_exp) simp
    moreover have "8 \<le> k"
    proof (rule ccontr)
      assume "\<not> 8 \<le> k"
      then have "(2::nat) ^ k \<le> 2 ^ 7" by (intro power_increasing) auto
      with eq big show False by simp
    qed
    moreover have "(2::nat) ^ k \<le> 2 ^ 62" using \<open>k \<le> 62\<close> by (intro power_increasing) auto
    then have "unat (3 * c div 2) = 3 * 2 ^ k div 2" using eq by (simp add: unat_simps)
    moreover have "c = 2 ^ k" using eq k by (simp add: eq64_iff unat_simps)
    ultimately show ?thesis using k False False' le assms eq
      by (intro that(3) [of k]) (simp_all add: grow_step_def)
  qed
qed

lemma grow_step_bounds:
  assumes "grow_step c = Inr c'"
  shows "unat c < unat c'" "unat c' \<le> 256 \<or> unat c' < 2 * unat c" "unat c' \<le> 2 ^ 63"
proof -
  have "unat c < unat c' \<and> (unat c' \<le> 256 \<or> unat c' < 2 * unat c) \<and> unat c' \<le> 2 ^ 63"
    using assms
  proof (cases rule: grow_step_cases)
    case 1
    then show ?thesis by simp
  next
    case (2 j)
    moreover have "(2::nat) ^ j \<le> 2 ^ 63" using 2 by (intro power_increasing) auto
    ultimately show ?thesis by simp
  next
    case (3 j)
    then obtain i where "j = Suc i" by (cases j) auto
    moreover have "(2::nat) ^ j \<le> 2 ^ 62" using 3 by (intro power_increasing) auto
    ultimately show ?thesis using 3 by simp
  qed
  then show "unat c < unat c'" "unat c' \<le> 256 \<or> unat c' < 2 * unat c" "unat c' \<le> 2 ^ 63" by auto
qed

lemma grow_step_small: "grow_step c = Inr c' \<Longrightarrow> unat c < 256 \<Longrightarrow> unat c' = 256"
  by (simp add: grow_step_def less64_iff kDefaultSize_def)

text \<open>The policy: the block stays if it is large enough, gets the default size if that is enough, and
  otherwise less than twice what is needed.\<close>

definition grows_to :: "nat \<Rightarrow> nat \<Rightarrow> nat \<Rightarrow> bool" where
  "grows_to need old cap \<longleftrightarrow> (if need \<le> old then cap = old else if need \<le> 256 then cap = 256 else cap < 2 * need)"

function grow_loop :: "size_t \<Rightarrow> size_t \<Rightarrow> size_t \<Rightarrow> size_t \<Rightarrow> size_t res" where
  "grow_loop r w needsize c =
     (if c - w + r < needsize then
        (case grow_step c of Inl e \<Rightarrow> Inl e | Inr c' \<Rightarrow> grow_loop r w needsize c')
      else Inr c)"
  by pat_completeness auto
termination
proof (relation "measure (\<lambda>(r, w, needsize, c). 2 ^ 64 - unat c)")
  fix r w needsize c c' :: size_t
  assume "grow_step c = Inr c'"
  then have "unat c < unat c'" by (rule grow_step_bounds)
  then show "((r, w, needsize, c'), (r, w, needsize, c)) \<in> measure (\<lambda>(r, w, needsize, c). 2 ^ 64 - unat c)"
    using unat_bound64 [of c'] by (simp add: diff_less_mono2)
qed simp

declare grow_loop.simps [simp del]

definition AssureSpace :: "size_t \<Rightarrow> Buffer \<Rightarrow> Buffer res" where
  "AssureSpace needsize b =
     (if needsize \<le> WritableSize b then Inr b
      else
        let dataSize = ReadableSize b; oldCap = capacity b in
        res_bind (grow_loop (readPos b) (writePos b) needsize oldCap) (\<lambda>cap.
          res_bind
            (if oldCap < cap then
               (if dataSize \<noteq> 0 then
                  (case buffer b of
                     None \<Rightarrow> Inl NullDeref
                   | Some m \<Rightarrow> memcpy_at (fresh_block (unat cap)) 0 m (unat (readPos b)) (unat dataSize))
                else Inr (fresh_block (unat cap)))
             else
               check (0 < readPos b) AssertFail
                 (case buffer b of
                    None \<Rightarrow> Inl NullDeref
                  | Some m \<Rightarrow> memcpy_at m 0 m (unat (readPos b)) (unat dataSize)))
            (\<lambda>m. Inr \<lparr>readPos = 0, writePos = dataSize, capacity = cap, buffer = Some m\<rparr>)))"

section \<open>The remaining operations\<close>

text \<open>
  A source \<open>data\<close> is the memory it points at (\<open>None\<close>: a null pointer); a destination is the
  memory of the caller, returned updated.
\<close>

definition PushDataAt :: "cell list option \<Rightarrow> size_t \<Rightarrow> size_t \<Rightarrow> Buffer \<Rightarrow> (Buffer \<times> size_t) res" where
  "PushDataAt data n offset b =
     (case data of
        None \<Rightarrow> Inr (b, 0)
      | Some src \<Rightarrow>
          if n = 0 then Inr (b, 0)
          else if kMaxBufferSize \<le> ReadableSize b + n + offset then Inr (b, 0)
          else
            res_bind (AssureSpace (n + offset) b) (\<lambda>b.
              check (n + offset \<le> WritableSize b) AssertFail
                (case buffer b of
                   None \<Rightarrow> Inl NullDeref
                 | Some m \<Rightarrow>
                     res_bind (memcpy_at m (unat (writePos b + offset)) src 0 (unat n)) (\<lambda>m.
                       Inr (b\<lparr>buffer := Some m\<rparr>, n)))))"

definition PushData :: "cell list option \<Rightarrow> size_t \<Rightarrow> Buffer \<Rightarrow> (Buffer \<times> size_t) res" where
  "PushData data n b =
     res_bind (PushDataAt data n 0 b) (\<lambda>(b, bytes).
       check (bytes = n) AssertFail (Inr (Produce bytes b, bytes)))"

definition Consume :: "size_t \<Rightarrow> Buffer \<Rightarrow> Buffer res" where
  "Consume bytes b =
     check (readPos b + bytes \<le> writePos b) AssertFail
       (let b = b\<lparr>readPos := readPos b + bytes\<rparr> in
        Inr (if IsEmpty b then Clear b else b))"

definition PeekDataAt ::
  "cell list option \<Rightarrow> size_t \<Rightarrow> size_t \<Rightarrow> Buffer \<Rightarrow> (cell list option \<times> size_t) res" where
  "PeekDataAt buf n offset b =
     (let dataSize = ReadableSize b in
      case buf of
        None \<Rightarrow> Inr (None, 0)
      | Some dst \<Rightarrow>
          if n = 0 \<or> dataSize \<le> offset then Inr (Some dst, 0)
          else
            let n = (if dataSize < n + offset then dataSize - offset else n) in
            (case buffer b of
               None \<Rightarrow> Inl NullDeref
             | Some m \<Rightarrow>
                 res_bind (memcpy_at dst 0 m (unat (readPos b + offset)) (unat n)) (\<lambda>dst.
                   Inr (Some dst, n))))"

definition PopData ::
  "cell list option \<Rightarrow> size_t \<Rightarrow> Buffer \<Rightarrow> (Buffer \<times> cell list option \<times> size_t) res" where
  "PopData buf n b =
     res_bind (PeekDataAt buf n 0 b) (\<lambda>(buf, bytes).
       res_bind (Consume bytes b) (\<lambda>b. Inr (b, buf, bytes)))"

definition Shrink :: "Buffer \<Rightarrow> Buffer res" where
  "Shrink b =
     (if IsEmpty b then
        (if 8 * 1024 < capacity b then Inr ((Clear b)\<lparr>capacity := 0, buffer := None\<rparr>) else Inr b)
      else
        let oldCap = capacity b; dataSize = ReadableSize b in
        if oldCap div 4 < dataSize then Inr b
        else
          (case RoundUp2Power dataSize of
             None \<Rightarrow> Inl Diverges
           | Some newCap \<Rightarrow>
               (case buffer b of
                  None \<Rightarrow> Inl NullDeref
                | Some m \<Rightarrow>
                    res_bind (memcpy_at (fresh_block (unat newCap)) 0 m (unat (readPos b)) (unat dataSize))
                      (\<lambda>tmp. Inr \<lparr>readPos = 0, writePos = dataSize, capacity = newCap, buffer = Some tmp\<rparr>))))"

definition Swap :: "Buffer \<Rightarrow> Buffer \<Rightarrow> Buffer \<times> Buffer" where
  "Swap a b =
     (a\<lparr>readPos := readPos b, writePos := writePos b, capacity := capacity b, buffer := buffer b\<rparr>,
      b\<lparr>readPos := readPos a, writePos := writePos a, capacity := capacity a, buffer := buffer a\<rparr>)"

text \<open>
  \<open>_MoveFrom\<close> takes the object it is called on and the source object by address: \<open>st\<close> holds
  the buffers of the program, and the guard \<open>this != &other\<close> compares the addresses. The
  moved-from \<open>unique_ptr\<close> is null.
\<close>

definition MoveFrom :: "nat \<Rightarrow> nat \<Rightarrow> (nat \<Rightarrow> Buffer) \<Rightarrow> (nat \<Rightarrow> Buffer) res" where
  "MoveFrom this other st =
     (if this \<noteq> other then
        let src = st other;
            st1 = st(this := (st this)\<lparr>readPos := readPos src, writePos := writePos src,
                                        capacity := capacity src, buffer := buffer src\<rparr>,
                     other := src\<lparr>buffer := None\<rparr>) in
        res_bind (Shrink (Clear (st1 other))) (\<lambda>o'. Inr (st1(other := o')))
      else Inr st)"

definition Buffer_of :: "cell list option \<Rightarrow> size_t \<Rightarrow> Buffer res" where
  "Buffer_of data n = res_bind (PushData data n Buffer_default) (\<lambda>(b, _). Inr b)"

section \<open>Invariant and abstract value\<close>

definition contents :: "Buffer \<Rightarrow> cell list" where
  "contents b =
     (case buffer b of
        None \<Rightarrow> []
      | Some m \<Rightarrow> take (unat (writePos b) - unat (readPos b)) (drop (unat (readPos b)) m))"

definition buffer_inv :: "Buffer \<Rightarrow> bool" where
  "buffer_inv b \<longleftrightarrow>
     unat (readPos b) \<le> unat (writePos b) \<and> unat (writePos b) \<le> unat (capacity b) \<and>
     unat (capacity b) \<le> 2 ^ 63 \<and>
     (case buffer b of None \<Rightarrow> capacity b = 0 | Some m \<Rightarrow> length m = unat (capacity b))"

lemma buffer_invD:
  assumes "buffer_inv b"
  shows "unat (readPos b) \<le> unat (writePos b)" "unat (writePos b) \<le> unat (capacity b)"
    "unat (capacity b) \<le> 9223372036854775808"
  using assms by (auto simp: buffer_inv_def)

lemma unat_ReadableSize: "buffer_inv b \<Longrightarrow> unat (ReadableSize b) = length (contents b)"
  by (auto simp: buffer_inv_def contents_def ReadableSize_def unat_simps split: option.splits)

lemma unat_WritableSize:
  "buffer_inv b \<Longrightarrow> unat (WritableSize b) = unat (capacity b) - unat (writePos b)"
  by (simp add: WritableSize_def unat_simps buffer_invD)

lemma IsEmpty_iff: "buffer_inv b \<Longrightarrow> IsEmpty b \<longleftrightarrow> contents b = []"
  using unat_ReadableSize [of b] by (simp add: IsEmpty_def eq64_iff)

lemma contents_length_le: "buffer_inv b \<Longrightarrow> length (contents b) \<le> unat (writePos b)"
  by (auto simp: contents_def buffer_inv_def split: option.splits)

lemma buffer_inv_default: "buffer_inv Buffer_default" "contents Buffer_default = []"
  by (simp_all add: buffer_inv_def contents_def Buffer_default_def)

lemma buffer_inv_Clear: "buffer_inv b \<Longrightarrow> buffer_inv (Clear b) \<and> contents (Clear b) = []"
  by (auto simp: buffer_inv_def contents_def Clear_def split: option.splits)

section \<open>\<open>AssureSpace\<close>\<close>

lemma writable_after:
  assumes "unat r \<le> unat w" "unat w \<le> unat c"
  shows "unat (c - w + r) = unat c - unat w + unat (r :: size_t)"
proof -
  have "unat c < 18446744073709551616" by (rule unat_bound64)
  moreover have "unat (c - w) = unat c - unat w" using assms by (simp add: unat_simps)
  ultimately show ?thesis using assms by (simp add: unat_simps)
qed

lemma grow_step_ok:
  assumes "unat c < 2 ^ 63"
  obtains c' where "grow_step c = Inr c'"
proof (cases "c < kDefaultSize")
  case True
  then show ?thesis using that by (simp add: grow_step_def)
next
  case False
  then have "c \<noteq> 0" by (auto simp: less64_iff)
  with assms obtain k where "RoundUp2Power c = Some (2 ^ k)" using RoundUp2Power_least [of c] by auto
  moreover have "c \<le> kMaxBufferSize" using assms by (simp add: le64_iff)
  ultimately show ?thesis using False that by (cases "c < 2 ^ k") (auto simp: grow_step_def)
qed

text \<open>The loop returns, stops as soon as there is room, and at most doubles what is needed.\<close>

lemma grow_loop_returns:
  assumes "unat r \<le> unat w" "unat w \<le> unat c" "unat c \<le> 2 ^ 63"
    "unat w - unat r + unat needsize < 2 ^ 63"
  shows "\<exists>c'. grow_loop r w needsize c = Inr c' \<and> unat c \<le> unat c' \<and> unat c' \<le> 2 ^ 63 \<and>
    unat w - unat r + unat needsize \<le> unat c' \<and>
    grows_to (unat w - unat r + unat needsize) (unat c) (unat c')"
  using assms
proof (induction r w needsize c rule: grow_loop.induct)
  case (1 r w needsize c)
  have room: "unat (c - w + r) = unat c - unat w + unat r" using "1.prems" by (intro writable_after)
  show ?case
  proof (cases "c - w + r < needsize")
    case False
    with room "1.prems" show ?thesis by (subst grow_loop.simps) (auto simp: less64_iff grows_to_def)
  next
    case True
    then have short: "unat c < unat w - unat r + unat needsize"
      using room "1.prems" by (simp add: less64_iff)
    with "1.prems" have "unat c < 2 ^ 63" by simp
    then obtain c1 where c1: "grow_step c = Inr c1" by (rule grow_step_ok)
    note grow = grow_step_bounds [OF c1]
    have "unat w \<le> unat c1" using grow(1) "1.prems" by simp
    from "1.IH" [OF True c1 "1.prems"(1) this grow(3) "1.prems"(4)] obtain c' where
      c': "grow_loop r w needsize c1 = Inr c'" "unat c1 \<le> unat c'" "unat c' \<le> 2 ^ 63"
        "unat w - unat r + unat needsize \<le> unat c'"
        "grows_to (unat w - unat r + unat needsize) (unat c1) (unat c')" by blast
    moreover have "grow_loop r w needsize c = Inr c'"
      using True c1 c'(1) by (subst grow_loop.simps) simp
    moreover have "unat c < 256 \<longrightarrow> unat c1 = 256" using grow_step_small [OF c1] by blast
    then have "grows_to (unat w - unat r + unat needsize) (unat c) (unat c')"
      using c'(5) grow(2) short by (auto simp: grows_to_def split: if_splits)
    ultimately show ?thesis using grow(1) by auto
  qed
qed

lemma AssureSpace_correct:
  assumes inv: "buffer_inv b" and room: "length (contents b) + unat needsize < 2 ^ 63"
  shows "\<exists>b'. AssureSpace needsize b = Inr b' \<and> buffer_inv b' \<and> contents b' = contents b \<and>
    unat needsize \<le> unat (WritableSize b') \<and>
    grows_to (length (contents b) + unat needsize) (unat (capacity b)) (unat (capacity b'))"
proof (cases "needsize \<le> WritableSize b")
  case True
  then have "length (contents b) + unat needsize \<le> unat (capacity b)"
    using unat_WritableSize [OF inv] buffer_invD [OF inv] unat_ReadableSize [OF inv]
    by (simp add: le64_iff ReadableSize_def unat_simps)
  with True inv show ?thesis by (auto simp: AssureSpace_def le64_iff grows_to_def)
next
  case False
  note bd = buffer_invD [OF inv]
  have data: "unat (ReadableSize b) = unat (writePos b) - unat (readPos b)"
    using bd by (simp add: ReadableSize_def unat_simps)
  then have len: "length (contents b) = unat (writePos b) - unat (readPos b)"
    using unat_ReadableSize [OF inv] by simp
  from grow_loop_returns [of "readPos b" "writePos b" "capacity b" needsize] bd room len
  obtain c where c: "grow_loop (readPos b) (writePos b) needsize (capacity b) = Inr c"
    "unat (capacity b) \<le> unat c" "unat c \<le> 2 ^ 63"
    "length (contents b) + unat needsize \<le> unat c"
    "grows_to (length (contents b) + unat needsize) (unat (capacity b)) (unat c)"
    by auto
  let ?b' = "\<lambda>m. \<lparr>readPos = 0, writePos = ReadableSize b, capacity = c, buffer = Some m\<rparr>"
  have inv': "buffer_inv (?b' m) \<and> contents (?b' m) = contents b \<and>
      unat needsize \<le> unat (WritableSize (?b' m))"
    if "length m = unat c" "take (length (contents b)) m = contents b" for m
  proof -
    have "buffer_inv (?b' m)" using that c len data by (simp add: buffer_inv_def)
    moreover have "contents (?b' m) = contents b" using that data len by (simp add: contents_def)
    ultimately show ?thesis using c(4) len data by (simp add: unat_WritableSize)
  qed
  show ?thesis
  proof (cases "capacity b < c")
    case True
    show ?thesis
    proof (cases "ReadableSize b = 0")
      case empty: True
      then have "contents b = []" using inv IsEmpty_iff by (auto simp: IsEmpty_def)
      with inv' [of "fresh_block (unat c)"] c False True empty show ?thesis
        by (auto simp: AssureSpace_def)
    next
      case nonempty: False
      then obtain m where m: "buffer b = Some m" "length m = unat (capacity b)"
        using inv data by (auto simp: buffer_inv_def eq64_iff split: option.splits)
      then have "contents b = take (unat (ReadableSize b)) (drop (unat (readPos b)) m)"
        by (simp add: contents_def data)
      with inv' [of "contents b @ drop (unat (ReadableSize b)) (fresh_block (unat c))"]
        m c False True nonempty bd len data
      show ?thesis by (auto simp: AssureSpace_def)
    qed
  next
    case same: False
    with c have [simp]: "c = capacity b" by (simp add: size_ord)
    have "0 < readPos b"
      using False c(4) len bd unat_WritableSize [OF inv] by (auto simp: size_ord)
    then have "capacity b \<noteq> 0" using bd by (auto simp: size_ord)
    then obtain m where m: "buffer b = Some m" "length m = unat (capacity b)"
      using inv by (auto simp: buffer_inv_def split: option.splits)
    then have "contents b = take (unat (ReadableSize b)) (drop (unat (readPos b)) m)"
      by (simp add: contents_def data)
    with inv' [of "contents b @ drop (unat (ReadableSize b)) m"] m c False \<open>0 < readPos b\<close> bd len data
    show ?thesis by (auto simp: AssureSpace_def)
  qed
qed

section \<open>Pushing\<close>

lemma contents_Some:
  "buffer b = Some m \<Longrightarrow>
   contents b = take (unat (writePos b) - unat (readPos b)) (drop (unat (readPos b)) m)"
  by (simp add: contents_def)

lemma buffer_inv_block:
  assumes "buffer_inv b" "0 < unat (capacity b)"
  obtains m where "buffer b = Some m" "length m = unat (capacity b)"
  using assms by (auto simp: buffer_inv_def split: option.splits)

text \<open>Writing \<open>n\<close> cells at the write position and then advancing it appends to the contents.\<close>

lemma produce_contents:
  assumes inv: "buffer_inv b" and m: "buffer b = Some m"
    and room: "unat (writePos b) + length xs \<le> unat (capacity b)"
  defines "w \<equiv> unat (writePos b)"
  defines "b1 \<equiv> b\<lparr>buffer := Some (take w m @ xs @ drop (w + length xs) m)\<rparr>"
  shows "buffer_inv (Produce (of_nat (length xs)) b1)"
    and "contents (Produce (of_nat (length xs)) b1) = contents b @ xs"
    and "buffer_inv b1" "contents b1 = contents b"
proof -
  note bd = buffer_invD [OF inv]
  have len: "length m = unat (capacity b)" using inv m by (simp add: buffer_inv_def)
  have n: "unat (of_nat (length xs) :: size_t) = length xs"
    using room bd by (intro unat_of_nat64) simp
  have w': "unat (writePos b + of_nat (length xs)) = w + length xs"
    using room bd n by (simp add: unat_simps w_def)
  show "buffer_inv (Produce (of_nat (length xs)) b1)"
    using bd room len w' by (simp add: buffer_inv_def Produce_def b1_def w_def)
  show "contents (Produce (of_nat (length xs)) b1) = contents b @ xs"
    using bd room len w' m by (simp add: contents_def Produce_def b1_def w_def drop_take)
  show "buffer_inv b1" using bd len room by (simp add: buffer_inv_def b1_def w_def)
  show "contents b1 = contents b" using bd len m by (simp add: contents_def b1_def w_def drop_take)
qed

text \<open>
  \<open>PushDataAt\<close> with room: the block is made large enough, the readable data is untouched and
  the new data stands \<open>offset\<close> cells behind the write position.
\<close>

lemma PushDataAt_writes:
  assumes inv: "buffer_inv b" and src: "unat n \<le> length src" and "n \<noteq> 0"
    and room: "length (contents b) + unat n + unat offset < 2 ^ 63 - 1"
  shows "\<exists>b' m. PushDataAt (Some src) n offset b = Inr (b', n) \<and> buffer_inv b' \<and>
    contents b' = contents b \<and> buffer b' = Some m \<and>
    unat (writePos b') + unat offset + unat n \<le> length m \<and>
    take (unat n) (drop (unat (writePos b') + unat offset) m) = take (unat n) src"
proof -
  have need: "unat (n + offset) = unat n + unat offset" using room by (simp add: unat_simps)
  with AssureSpace_correct [OF inv, of "n + offset"] room obtain b1 where
    b1: "AssureSpace (n + offset) b = Inr b1" "buffer_inv b1" "contents b1 = contents b"
    "unat n + unat offset \<le> unat (WritableSize b1)" by auto
  note bd = buffer_invD [OF b1(2)]
  have cap: "unat (writePos b1) + unat n + unat offset \<le> unat (capacity b1)"
    using b1(4) unat_WritableSize [OF b1(2)] bd by simp
  have "0 < unat n" using \<open>n \<noteq> 0\<close> by (simp add: eq64_iff)
  with cap have "0 < unat (capacity b1)" by simp
  with b1(2) obtain m where m: "buffer b1 = Some m" "length m = unat (capacity b1)"
    by (rule buffer_inv_block)
  have at: "unat (writePos b1 + offset) = unat (writePos b1) + unat offset"
    using cap bd by (simp add: unat_simps)
  have small: "\<not> kMaxBufferSize \<le> ReadableSize b + n + offset"
    using room unat_ReadableSize [OF inv] by (simp add: le64_iff unat_simps)
  let ?m = "take (unat (writePos b1) + unat offset) m @ take (unat n) src @
            drop (unat (writePos b1) + unat offset + unat n) m"
  have "PushDataAt (Some src) n offset b = Inr (b1\<lparr>buffer := Some ?m\<rparr>, n)"
    using small b1(1,4) need m at cap src \<open>n \<noteq> 0\<close> by (simp add: PushDataAt_def le64_iff)
  moreover have "buffer_inv (b1\<lparr>buffer := Some ?m\<rparr>)"
    using b1(2) m cap src by (auto simp: buffer_inv_def)
  moreover have "contents (b1\<lparr>buffer := Some ?m\<rparr>) = contents b"
    using m cap bd unfolding b1(3) [symmetric] by (simp add: contents_def drop_take min_def)
  ultimately show ?thesis using m cap src by (intro exI [of _ "b1\<lparr>buffer := Some ?m\<rparr>"] exI [of _ ?m]) simp
qed

text \<open>\<open>PushData\<close>, branch by branch.\<close>

lemma PushData_appends:
  assumes inv: "buffer_inv b" and src: "unat n \<le> length src"
    and room: "length (contents b) + unat n < 2 ^ 63 - 1"
  shows "\<exists>b'. PushData (Some src) n b = Inr (b', n) \<and> buffer_inv b' \<and>
              contents b' = contents b @ take (unat n) src"
proof (cases "n = 0")
  case True
  then show ?thesis using inv by (simp add: PushData_def PushDataAt_def Produce_def)
next
  case False
  from PushDataAt_writes [OF inv src False, of 0] room obtain b1 m where
    b1: "PushDataAt (Some src) n 0 b = Inr (b1, n)" "buffer_inv b1" "contents b1 = contents b"
    "buffer b1 = Some m" "unat (writePos b1) + unat n \<le> length m"
    "take (unat n) (drop (unat (writePos b1)) m) = take (unat n) src" by auto
  have "length m = unat (capacity b1)" using b1(2,4) by (simp add: buffer_inv_def)
  moreover have "length (take (unat n) src) = unat n" using src by simp
  moreover have "of_nat (unat n) = n" by simp
  moreover have "take (unat (writePos b1)) m @ take (unat n) src @ drop (unat (writePos b1) + unat n) m = m"
    using b1(5,6) by (metis append_take_drop_id drop_drop add.commute)
  then have "b1\<lparr>buffer := Some (take (unat (writePos b1)) m @ take (unat n) src @
                              drop (unat (writePos b1) + unat n) m)\<rparr> = b1"
    using b1(4) by simp
  ultimately show ?thesis
    using produce_contents(1,2) [OF b1(2,4), of "take (unat n) src"] b1
    by (simp add: PushData_def)
qed

lemma PushData_null: "PushData None n b = (if n = 0 then Inr (b, 0) else Inl AssertFail)"
  by (auto simp: PushData_def PushDataAt_def Produce_def check_def)

lemma PushData_full:
  assumes "buffer_inv b" "n \<noteq> 0" "2 ^ 63 - 1 \<le> length (contents b) + unat n"
    "unat n < 2 ^ 63"
  shows "PushData (Some src) n b = Inl AssertFail"
proof -
  have "unat (ReadableSize b) \<le> 9223372036854775808"
    using unat_ReadableSize [OF assms(1)] contents_length_le [OF assms(1)] buffer_invD [OF assms(1)]
    by simp
  then have "unat (ReadableSize b + n) = length (contents b) + unat n"
    using assms by (simp add: unat_simps unat_ReadableSize)
  then have "kMaxBufferSize \<le> ReadableSize b + n" using assms(3) by (simp add: le64_iff)
  then show ?thesis using assms(2) by (simp add: PushData_def PushDataAt_def)
qed

section \<open>Consuming and peeking\<close>

lemma Consume_drops:
  assumes inv: "buffer_inv b" and le: "unat n \<le> length (contents b)"
  shows "\<exists>b'. Consume n b = Inr b' \<and> buffer_inv b' \<and> contents b' = drop (unat n) (contents b)"
proof -
  note bd = buffer_invD [OF inv]
  have data: "length (contents b) = unat (writePos b) - unat (readPos b)"
    using unat_ReadableSize [OF inv] bd by (simp add: ReadableSize_def unat_simps)
  have r: "unat (readPos b + n) = unat (readPos b) + unat n"
    using bd data le by (simp add: unat_simps)
  have ok: "readPos b + n \<le> writePos b" using r data le bd by (simp add: le64_iff)
  let ?b = "b\<lparr>readPos := readPos b + n\<rparr>"
  have inv': "buffer_inv ?b" using inv r data le bd by (cases "buffer b") (simp_all add: buffer_inv_def)
  have c: "contents ?b = drop (unat n) (contents b)"
    using r by (auto simp: contents_def drop_take add.commute split: option.splits)
  show ?thesis
  proof (cases "IsEmpty ?b")
    case True
    then have "contents ?b = []" using IsEmpty_iff [OF inv'] by simp
    with True c buffer_inv_Clear [OF inv'] ok show ?thesis by (simp add: Consume_def)
  next
    case False
    with ok inv' c show ?thesis by (simp add: Consume_def)
  qed
qed

lemma Consume_too_much:
  assumes "buffer_inv b" "length (contents b) < unat n" "unat n < 2 ^ 63"
  shows "Consume n b = Inl AssertFail"
proof -
  note bd = buffer_invD [OF assms(1)]
  have "length (contents b) = unat (writePos b) - unat (readPos b)"
    using unat_ReadableSize [OF assms(1)] bd by (simp add: ReadableSize_def unat_simps)
  moreover have "unat (readPos b + n) = unat (readPos b) + unat n"
    using bd assms by (simp add: unat_simps)
  ultimately show ?thesis using assms bd by (simp add: Consume_def le64_iff)
qed

definition peek_count :: "Buffer \<Rightarrow> nat \<Rightarrow> nat \<Rightarrow> nat" where
  "peek_count b n offset = min n (length (contents b) - offset)"

lemma PeekDataAt_reads:
  assumes inv: "buffer_inv b" and dst: "unat n \<le> length dst"
    and nowrap: "unat n + unat offset < 2 ^ 64"
  defines "k \<equiv> peek_count b (unat n) (unat offset)"
  shows "PeekDataAt (Some dst) n offset b =
    Inr (Some (take k (drop (unat offset) (contents b)) @ drop k dst), of_nat k)"
proof (cases "n = 0 \<or> ReadableSize b \<le> offset")
  case True
  with unat_ReadableSize [OF inv] have "k = 0" by (auto simp: k_def peek_count_def le64_iff)
  with True show ?thesis by (auto simp: PeekDataAt_def)
next
  case False
  note bd = buffer_invD [OF inv]
  have rs: "unat (ReadableSize b) = length (contents b)" by (rule unat_ReadableSize [OF inv])
  have data: "length (contents b) = unat (writePos b) - unat (readPos b)"
    using rs bd by (simp add: ReadableSize_def unat_simps)
  have sum: "unat (n + offset) = unat n + unat offset" using nowrap by (simp add: unat_simps)
  let ?n = "if ReadableSize b < n + offset then ReadableSize b - offset else n"
  have k: "unat ?n = k"
    using False rs sum by (auto simp: k_def peek_count_def size_ord unat_simps)
  have "of_nat (unat ?n) = ?n" by simp
  then have kw: "?n = of_nat k" unfolding k by simp
  have kb: "k + unat offset \<le> length (contents b)"
    using False rs by (auto simp: k_def peek_count_def le64_iff)
  have "0 < unat (capacity b)" using False rs data bd by (auto simp: le64_iff)
  with inv obtain m where m: "buffer b = Some m" "length m = unat (capacity b)"
    by (rule buffer_inv_block)
  have at: "unat (readPos b + offset) = unat (readPos b) + unat offset"
    using kb data bd by (simp add: unat_simps)
  have "take k (drop (unat offset) (contents b)) = take k (drop (unat (readPos b + offset)) m)"
    using kb data unfolding contents_Some [OF m(1)] at by (simp add: drop_take min_def add.commute)
  moreover have "k \<le> unat n" by (simp add: k_def peek_count_def)
  ultimately show ?thesis
    using False m at kb data bd dst k kw by (simp add: PeekDataAt_def Let_def)
qed

lemma PeekDataAt_null: "PeekDataAt None n offset b = Inr (None, 0)"
  by (simp add: PeekDataAt_def Let_def)

lemma PopData_prefix:
  assumes inv: "buffer_inv b" and dst: "unat n \<le> length dst"
  defines "k \<equiv> min (unat n) (length (contents b))"
  shows "\<exists>b'. PopData (Some dst) n b = Inr (b', Some (take k (contents b) @ drop k dst), of_nat k) \<and>
    buffer_inv b' \<and> contents b' = drop k (contents b)"
proof -
  have "unat n < 2 ^ 64" using unat_bound64 by simp
  with PeekDataAt_reads [OF inv dst, of 0]
  have peek: "PeekDataAt (Some dst) n 0 b = Inr (Some (take k (contents b) @ drop k dst), of_nat k)"
    by (simp add: k_def peek_count_def)
  have "unat (of_nat k :: size_t) = k"
    using unat_bound64 [of n] by (intro unat_of_nat64) (simp add: k_def)
  with Consume_drops [OF inv, of "of_nat k"] peek show ?thesis
    by (auto simp: PopData_def k_def)
qed

section \<open>Shrinking, swapping and moving\<close>

text \<open>\<open>Shrink\<close> keeps the readable bytes, never grows the block, and leaves a block of which
  at most a quarter was used smaller than twice its data.\<close>

theorem Shrink_correct:
  assumes inv: "buffer_inv b"
  shows "\<exists>b'. Shrink b = Inr b' \<and> buffer_inv b' \<and> contents b' = contents b \<and>
    unat (capacity b') \<le> unat (capacity b) \<and>
    (contents b \<noteq> [] \<and> 4 * length (contents b) \<le> unat (capacity b) \<longrightarrow>
       unat (capacity b') < 2 * length (contents b))"
proof (cases "IsEmpty b")
  case True
  then have "contents b = []" using IsEmpty_iff [OF inv] by simp
  with True inv show ?thesis
    by (auto simp: Shrink_def Clear_def buffer_inv_def contents_def)
next
  case False
  note bd = buffer_invD [OF inv]
  have rs: "unat (ReadableSize b) = length (contents b)" by (rule unat_ReadableSize [OF inv])
  have data: "length (contents b) = unat (writePos b) - unat (readPos b)"
    using rs bd by (simp add: ReadableSize_def unat_simps)
  have pos: "0 < length (contents b)" using False IsEmpty_iff [OF inv] by simp
  show ?thesis
  proof (cases "capacity b div 4 < ReadableSize b")
    case True
    with False inv rs pos show ?thesis by (auto simp: Shrink_def less64_iff unat_simps)
  next
    case small: False
    then have four: "4 * length (contents b) \<le> unat (capacity b)"
      using rs by (simp add: less64_iff unat_simps)
    have "ReadableSize b \<noteq> 0" using pos rs by (auto simp: eq64_iff)
    moreover have "unat (ReadableSize b) \<le> 2 ^ 63" using rs four bd by simp
    ultimately obtain k where k: "k \<le> 63" "RoundUp2Power (ReadableSize b) = Some (2 ^ k)"
      "length (contents b) \<le> 2 ^ k" "2 ^ k < 2 * length (contents b)"
      using RoundUp2Power_least [of "ReadableSize b"] rs by auto
    have c: "unat ((2::size_t) ^ k) = 2 ^ k" using k(1) by (simp add: unat_simps)
    have k63: "(2::nat) ^ k \<le> 2 ^ 63" using k(1) by (intro power_increasing) auto
    have "0 < unat (capacity b)" using four pos by linarith
    with inv obtain m where m: "buffer b = Some m" "length m = unat (capacity b)"
      by (rule buffer_inv_block)
    let ?tmp = "contents b @ drop (length (contents b)) (fresh_block (2 ^ k))"
    let ?b = "\<lparr>readPos = 0, writePos = ReadableSize b, capacity = 2 ^ k, buffer = Some ?tmp\<rparr>"
    have "Shrink b = Inr ?b"
      using False small k m bd data c rs by (simp add: Shrink_def Let_def contents_Some)
    moreover have "buffer_inv ?b" using rs k c k63 by (simp add: buffer_inv_def)
    moreover have "contents ?b = contents b" using rs k by (simp add: contents_def)
    ultimately show ?thesis using four k c pos by (intro exI [of _ ?b]) auto
  qed
qed

lemma Swap_swaps: "Swap a b = (b, a)"
  by (simp add: Swap_def)

lemma MoveFrom_fields:
  fixes st :: "nat \<Rightarrow> Buffer"
  assumes "this \<noteq> other"
  defines "src \<equiv> st other"
  shows "MoveFrom this other st =
    Inr (st(this := src,
            other := \<lparr>readPos = 0, writePos = 0,
                      capacity = (if 8 * 1024 < capacity src then 0 else capacity src),
                      buffer = None\<rparr>))"
  using assms
  by (cases "st this"; cases "st other")
     (simp add: MoveFrom_def Shrink_def Clear_def IsEmpty_def ReadableSize_def Let_def)

lemma MoveFrom_self: "MoveFrom this this st = Inr st"
  by (simp add: MoveFrom_def)

lemma MoveFrom_moves:
  assumes "this \<noteq> other" "buffer_inv (st other)" "MoveFrom this other st = Inr st'"
  shows "buffer_inv (st' this)" "contents (st' this) = contents (st other)"
    "contents (st' other) = []" "IsEmpty (st' other)"
proof -
  from assms(1,3) have st': "st' this = st other" "readPos (st' other) = 0"
    "writePos (st' other) = 0" "buffer (st' other) = None"
    by (auto simp: MoveFrom_fields)
  then show "buffer_inv (st' this)" "contents (st' this) = contents (st other)"
    using assms(2) by simp_all
  show "contents (st' other) = []" "IsEmpty (st' other)"
    using st' by (simp_all add: contents_def IsEmpty_def ReadableSize_def)
qed

text \<open>
  A moved-from buffer of at most 8192 cells keeps its \<open>capacity_\<close> although its block is gone,
  so the next push that fits the stale capacity writes through the null pointer.
\<close>

lemma moved_from_push:
  assumes "this \<noteq> other" "unat (capacity (st other)) \<le> 8192" "MoveFrom this other st = Inr st'"
    and "0 < unat n" "unat n \<le> unat (capacity (st other))"
  shows "PushData (Some src) n (st' other) = Inl NullDeref"
proof -
  let ?o = "st' other"
  have o: "?o = \<lparr>readPos = 0, writePos = 0, capacity = capacity (st other), buffer = None\<rparr>"
    using assms(1-3) by (auto simp: MoveFrom_fields less64_iff)
  then have "AssureSpace n ?o = Inr ?o"
    using assms(5) by (simp add: AssureSpace_def WritableSize_def le64_iff)
  moreover have "n \<noteq> 0" using assms(4) by auto
  ultimately show ?thesis
    using o assms(2,5) by (simp add: PushData_def PushDataAt_def ReadableSize_def WritableSize_def le64_iff)
qed

section \<open>Wrap-around of the size arithmetic\<close>

text \<open>C29:
  \<open>PeekDataAt\<close> adds \<open>size + offset\<close> before comparing: with the largest \<open>size\<close> the sum wraps
  to less than the data size, nothing is truncated and the copy leaves both objects.
\<close>

theorem PeekDataAt_wraps:
  assumes inv: "buffer_inv b" and "2 \<le> length (contents b)" and "length dst < 2 ^ 64 - 1"
  shows "PeekDataAt (Some dst) (- 1) 1 b = Inl OutOfBounds"
proof -
  have "\<not> ReadableSize b \<le> 1" using assms unat_ReadableSize [OF inv] by (simp add: le64_iff)
  moreover have "unat (- 1 :: size_t) = 2 ^ 64 - 1" by (simp add: unsigned_minus_1_eq_mask mask_eq_exp_minus_1)
  moreover obtain m where "buffer b = Some m"
    using assms(2) by (cases "buffer b") (auto simp: contents_def)
  ultimately show ?thesis using assms(3) by (simp add: PeekDataAt_def Let_def memcpy_at_out)
qed

section \<open>The contract for clients\<close>

locale byte_queue =
  fixes empty :: "'b"
    and push :: "cell list \<Rightarrow> 'b \<Rightarrow> 'b res"
    and val :: "'b \<Rightarrow> cell list"
    and inv :: "'b \<Rightarrow> bool"
    and limit :: nat
  assumes inv_empty: "inv empty"
    and val_empty: "val empty = []"
    and push_appends: "inv b \<Longrightarrow> length (val b) + length xs < limit \<Longrightarrow>
      \<exists>b'. push xs b = Inr b' \<and> inv b' \<and> val b' = val b @ xs"
begin

lemma push_all:
  assumes "inv b" "length (val b) + length (concat xss) < limit"
  shows "\<exists>b'. res_fold push xss b = Inr b' \<and> inv b' \<and> val b' = val b @ concat xss"
  using assms
proof (induction xss arbitrary: b)
  case Nil
  then show ?case by simp
next
  case (Cons xs xss)
  then obtain b1 where "push xs b = Inr b1" "inv b1" "val b1 = val b @ xs"
    using push_appends [of b xs] by auto
  moreover from this Cons.prems obtain b' where
    "res_fold push xss b1 = Inr b'" "inv b'" "val b' = val b1 @ concat xss"
    using Cons.IH [of b1] by auto
  ultimately show ?case by auto
qed

end

text \<open>Operations on a queue, run on an implementation and on the list of cells.\<close>

datatype queue_op = QPush "cell list" | QPop nat

fun queue_run ::
  "(cell list \<Rightarrow> 'b \<Rightarrow> 'b res) \<Rightarrow> (nat \<Rightarrow> 'b \<Rightarrow> ('b \<times> cell list) res) \<Rightarrow>
   queue_op list \<Rightarrow> 'b \<Rightarrow> ('b \<times> cell list list) res" where
  "queue_run push pop [] b = Inr (b, [])"
| "queue_run push pop (QPush xs # ops) b =
     res_bind (push xs b) (queue_run push pop ops)"
| "queue_run push pop (QPop n # ops) b =
     res_bind (pop n b) (\<lambda>(b, xs). res_bind (queue_run push pop ops b) (\<lambda>(b, out). Inr (b, xs # out)))"

fun queue_spec :: "queue_op list \<Rightarrow> cell list \<Rightarrow> cell list \<times> cell list list" where
  "queue_spec [] q = (q, [])"
| "queue_spec (QPush xs # ops) q = queue_spec ops (q @ xs)"
| "queue_spec (QPop n # ops) q =
     (let (q', out) = queue_spec ops (drop n q) in (q', take n q # out))"

fun queue_demand :: "queue_op list \<Rightarrow> nat" where
  "queue_demand [] = 0"
| "queue_demand (QPush xs # ops) = length xs + queue_demand ops"
| "queue_demand (QPop n # ops) = n + queue_demand ops"

locale byte_fifo = byte_queue +
  fixes pop :: "nat \<Rightarrow> 'b \<Rightarrow> ('b \<times> cell list) res"
  assumes pop_takes: "inv b \<Longrightarrow> n < limit \<Longrightarrow>
      \<exists>b'. pop n b = Inr (b', take n (val b)) \<and> inv b' \<and> val b' = drop n (val b)"
begin

lemma run_refines:
  assumes "inv b" "length (val b) + queue_demand ops < limit"
  shows "\<exists>b'. queue_run push pop ops b = Inr (b', snd (queue_spec ops (val b))) \<and> inv b' \<and>
              val b' = fst (queue_spec ops (val b))"
  using assms
proof (induction ops arbitrary: b)
  case Nil
  then show ?case by simp
next
  case (Cons op ops)
  show ?case
  proof (cases op)
    case (QPush xs)
    with Cons.prems obtain b1 where "push xs b = Inr b1" "inv b1" "val b1 = val b @ xs"
      using push_appends [of b xs] by auto
    with QPush Cons.prems Cons.IH [of b1] show ?thesis by auto
  next
    case (QPop n)
    with Cons.prems obtain b1 where
      "pop n b = Inr (b1, take n (val b))" "inv b1" "val b1 = drop n (val b)"
      using pop_takes [of b n] by auto
    moreover have "length (drop n (val b)) + queue_demand ops < limit"
      using QPop Cons.prems by simp
    ultimately show ?thesis using QPop Cons.IH [of b1] by (auto simp: split_beta)
  qed
qed

end

definition push_cells :: "cell list \<Rightarrow> Buffer \<Rightarrow> Buffer res" where
  "push_cells xs b = res_bind (PushData (Some xs) (of_nat (length xs)) b) (\<lambda>(b, _). Inr b)"

definition pop_cells :: "nat \<Rightarrow> Buffer \<Rightarrow> (Buffer \<times> cell list) res" where
  "pop_cells n b =
     res_bind (PopData (Some (fresh_block n)) (of_nat n) b) (\<lambda>(b, dst, bytes).
       case dst of None \<Rightarrow> Inl NullDeref | Some d \<Rightarrow> Inr (b, take (unat bytes) d))"

interpretation buf: byte_fifo Buffer_default push_cells contents buffer_inv "2 ^ 63 - 1" pop_cells
proof unfold_locales
  show "buffer_inv Buffer_default" "contents Buffer_default = []" by (rule buffer_inv_default)+
next
  fix b :: Buffer and xs :: "cell list"
  assume "buffer_inv b" and room: "length (contents b) + length xs < 2 ^ 63 - 1"
  moreover from room have "unat (of_nat (length xs) :: size_t) = length xs"
    by (intro unat_of_nat64) simp
  ultimately show "\<exists>b'. push_cells xs b = Inr b' \<and> buffer_inv b' \<and> contents b' = contents b @ xs"
    using PushData_appends [of b "of_nat (length xs)" xs] by (auto simp: push_cells_def)
next
  fix b n
  assume inv: "buffer_inv b" and n: "n < 2 ^ 63 - (1::nat)"
  then have un: "unat (of_nat n :: size_t) = n" by (intro unat_of_nat64) simp
  with PopData_prefix [OF inv, of "of_nat n" "fresh_block n"] obtain b' where
    "PopData (Some (fresh_block n)) (of_nat n) b =
       Inr (b', Some (take (min n (length (contents b))) (contents b) @
                      drop (min n (length (contents b))) (fresh_block n)),
            of_nat (min n (length (contents b))))"
    "buffer_inv b'" "contents b' = drop (min n (length (contents b))) (contents b)" by auto
  moreover have "unat (of_nat (min n (length (contents b))) :: size_t) = min n (length (contents b))"
    using n by (intro unat_of_nat64) simp
  ultimately show "\<exists>b'. pop_cells n b = Inr (b', take n (contents b)) \<and> buffer_inv b' \<and>
      contents b' = drop n (contents b)"
    by (auto simp: pop_cells_def min_def)
qed

section \<open>Properties\<close>

definition demo_buffer :: Buffer where
  "demo_buffer = \<lparr>readPos = 0, writePos = 2, capacity = 4, buffer = Some (map Some ''abcd'')\<rparr>"

lemma demo_buffer_ok: "buffer_inv demo_buffer" "contents demo_buffer = map Some ''ab''"
  "readPos demo_buffer = 0" "capacity demo_buffer = 4"
  by (simp_all add: demo_buffer_def buffer_inv_def contents_def)

text \<open>C25: Every sequence of pushes and pops on a new buffer that stays below the size limit
  runs without a fault and behaves as the abstract byte queue: each pop returns the next bytes
  in the order they were pushed, and what is left is what the queue holds.\<close>

theorem Buffer_session_refines:
  assumes "queue_demand ops < 2 ^ 63 - 1"
  shows "\<exists>b'. queue_run push_cells pop_cells ops Buffer_default = Inr (b', snd (queue_spec ops [])) \<and>
    buffer_inv b' \<and> contents b' = fst (queue_spec ops [])"
  using buf.run_refines [of Buffer_default ops] assms by (simp add: buffer_inv_default)

theorem Buffer_session_witness:
  "\<exists>b'. queue_run push_cells pop_cells [QPush (map Some ''abc''), QPop 2, QPush (map Some ''d'')]
      Buffer_default = Inr (b', [map Some ''ab'']) \<and> buffer_inv b' \<and> contents b' = map Some ''cd''"
  using Buffer_session_refines [of "[QPush (map Some ''abc''), QPop 2, QPush (map Some ''d'')]"]
  by (simp add: Let_def)

text \<open>C26: \<open>PushDataAt\<close> assures space in the block, growing it when needed: the data, the offset and the
  readable bytes fit the new capacity, and the readable bytes are kept. The capacity stays when readable
  bytes and data fit it; otherwise it becomes the default size of 256 when that is enough, and else less
  than twice what is needed.\<close>

theorem AssureSpace_grows:
  assumes "buffer_inv b" "length (contents b) + unat needsize < 2 ^ 63"
  shows "\<exists>b'. AssureSpace needsize b = Inr b' \<and> buffer_inv b' \<and> contents b' = contents b \<and>
    unat (writePos b') + unat needsize \<le> unat (capacity b') \<and>
    grows_to (length (contents b) + unat needsize) (unat (capacity b)) (unat (capacity b'))"
proof -
  from AssureSpace_correct [OF assms] obtain b' where
    b: "AssureSpace needsize b = Inr b'" "buffer_inv b'" "contents b' = contents b"
      "unat needsize \<le> unat (WritableSize b')"
      "grows_to (length (contents b) + unat needsize) (unat (capacity b)) (unat (capacity b'))" by blast
  moreover have "unat (writePos b') + unat needsize \<le> unat (capacity b')"
    using b(4) buffer_invD [OF b(2)] unat_WritableSize [OF b(2)] by simp
  ultimately show ?thesis by blast
qed

theorem AssureSpace_grows_witness:
  "(\<exists>b'. AssureSpace 1 Buffer_default = Inr b' \<and> unat (capacity b') = 256) \<and>
   (\<exists>b'. AssureSpace 300 demo_buffer = Inr b' \<and> contents b' = map Some ''ab'' \<and> unat (capacity b') < 604)"
proof -
  have "capacity Buffer_default = 0" by (simp add: Buffer_default_def)
  then show ?thesis using AssureSpace_grows [of Buffer_default 1] AssureSpace_grows [of demo_buffer 300]
    by (auto simp: demo_buffer_ok buffer_inv_default grows_to_def)
qed

text \<open>C33: \<open>RoundUp2Power\<close> returns the least power of two that is not below its argument, and
  does not return for arguments above \<open>2 ^ 63\<close>, where the doubling wraps to zero.\<close>

theorem RoundUp2Power_total:
  "RoundUp2Power n =
     (if n = 0 then Some 0
      else if unat n \<le> 2 ^ 63 then Some (2 ^ (LEAST k. unat n \<le> 2 ^ k)) else None)"
proof (cases "n \<noteq> 0 \<and> unat n \<le> 2 ^ 63")
  case True
  then obtain k where k: "RoundUp2Power n = Some (2 ^ k)" "unat n \<le> 2 ^ k" "2 ^ k < 2 * unat n"
    using RoundUp2Power_least [of n] by blast
  have "(LEAST k. unat n \<le> 2 ^ k) = k"
  proof (rule Least_equality)
    fix j assume j: "unat n \<le> 2 ^ j"
    have "(2::nat) ^ k < 2 ^ Suc j" using j k(3) by simp
    then show "k \<le> j" using power_less_imp_less_exp [of "2::nat" k "Suc j"] by simp
  qed (rule k(2))
  with k(1) True show ?thesis by simp
next
  case False
  then show ?thesis using RoundUp2Power_diverges [of n] by (auto simp: RoundUp2Power_def)
qed

theorem Shrink_correct_witness:
  "\<exists>b'. Shrink demo_buffer = Inr b' \<and> contents b' = map Some ''ab''"
  using Shrink_correct [of demo_buffer] by (auto simp: demo_buffer_ok)

text \<open>A moved-from buffer of at most 8192 cells keeps its \<open>capacity_\<close> although its block is
  gone, so the next push that fits the stale capacity writes through a null pointer.\<close>

theorem moved_from_buffer_unusable:
  assumes "this \<noteq> other" "unat (capacity (st other)) \<le> 8192" "MoveFrom this other st = Inr st'"
    and "0 < unat n" "unat n \<le> unat (capacity (st other))"
  shows "contents (st' this) = contents (st other) \<and> PushData (Some src) n (st' other) = Inl NullDeref"
  using assms moved_from_push [of this other st st' n src] by (auto simp: MoveFrom_fields)

theorem moved_from_buffer_witness:
  "\<exists>st'. MoveFrom 0 1 (\<lambda>_. demo_buffer) = Inr st' \<and>
     PushData (Some (map Some ''x'')) 1 (st' 1) = Inl NullDeref"
proof -
  obtain st' where st': "MoveFrom 0 1 (\<lambda>_. demo_buffer) = Inr st'" by (simp add: MoveFrom_fields)
  have "PushData (Some (map Some ''x'')) 1 (st' 1) = Inl NullDeref"
    using moved_from_buffer_unusable [of 0 1 "\<lambda>_. demo_buffer" st' 1 "map Some ''x''"] st'
    by (simp add: demo_buffer_ok)
  with st' show ?thesis by blast
qed

theorem PeekDataAt_wraps_witness:
  "PeekDataAt (Some (fresh_block 8)) (- 1) 1 demo_buffer = Inl OutOfBounds"
  by (rule PeekDataAt_wraps) (simp_all add: demo_buffer_ok)

end
