(* ===== verification/BufferVector.thy ===== *)
theory BufferVector
  imports Buffer
begin

text \<open>
  The chunk list of netbridge/Buffer.h: \<open>BufferVector\<close> keeps buffers in order, merges small
  pushes into the last chunk and counts the readable bytes of all chunks. Its abstract value is
  the concatenation of the chunks; it provides the same \<open>byte_queue\<close> contract as one buffer.
\<close>

record BufferVector =
  buffers :: "Buffer list"
  totalBytes :: size_t

definition kMinSize :: size_t where
  "kMinSize = 1024"

definition BufferVector_default :: BufferVector where
  "BufferVector_default = \<lparr>buffers = [], totalBytes = 0\<rparr>"

definition bv_Empty :: "BufferVector \<Rightarrow> bool" where
  "bv_Empty v = (buffers v = [])"

definition bv_Clear :: "BufferVector \<Rightarrow> BufferVector" where
  "bv_Clear v = v\<lparr>buffers := [], totalBytes := 0\<rparr>"

definition ShouldMerge :: "BufferVector \<Rightarrow> bool" where
  "ShouldMerge v = (if buffers v = [] then False else ReadableSize (last (buffers v)) < kMinSize)"

text \<open>
  \<open>buffers.push_back(std::move(buf))\<close>: the list element (address 0 below) is move-constructed
  from \<open>buf\<close> (address 1), which is returned in its moved-from state.
\<close>

definition push_back_move :: "Buffer \<Rightarrow> Buffer list \<Rightarrow> (Buffer list \<times> Buffer) res" where
  "push_back_move b bs =
     res_bind (MoveFrom 0 1 ((\<lambda>_. Buffer_default)(1 := b))) (\<lambda>st. Inr (bs @ [st 0], st 1))"

definition PushBuffer :: "Buffer \<Rightarrow> BufferVector \<Rightarrow> (BufferVector \<times> Buffer) res" where
  "PushBuffer b v =
     (let v = v\<lparr>totalBytes := totalBytes v + ReadableSize b\<rparr> in
      if ShouldMerge v then
        res_bind (PushData (ReadAddr b) (ReadableSize b) (last (buffers v))) (\<lambda>(l, _).
          Inr (v\<lparr>buffers := butlast (buffers v) @ [l]\<rparr>, b))
      else
        res_bind (push_back_move b (buffers v)) (\<lambda>(bs, b). Inr (v\<lparr>buffers := bs\<rparr>, b)))"

definition PushRaw :: "cell list option \<Rightarrow> size_t \<Rightarrow> BufferVector \<Rightarrow> BufferVector res" where
  "PushRaw data n v =
     (let v = v\<lparr>totalBytes := totalBytes v + n\<rparr> in
      if ShouldMerge v then
        res_bind (PushData data n (last (buffers v))) (\<lambda>(l, _).
          Inr (v\<lparr>buffers := butlast (buffers v) @ [l]\<rparr>))
      else
        res_bind (Buffer_of data n) (\<lambda>b.
          res_bind (push_back_move b (buffers v)) (\<lambda>(bs, _). Inr (v\<lparr>buffers := bs\<rparr>))))"

definition BufferVector_of :: "Buffer \<Rightarrow> (BufferVector \<times> Buffer) res" where
  "BufferVector_of b = PushBuffer b BufferVector_default"

text \<open>\<open>front()\<close> and \<open>pop_front()\<close> of an empty \<open>std::list\<close> are outside its contract.\<close>

definition bv_Pop :: "BufferVector \<Rightarrow> BufferVector res" where
  "bv_Pop v =
     (case buffers v of
        [] \<Rightarrow> Inl OutOfBounds
      | b # bs \<Rightarrow> Inr (v\<lparr>totalBytes := totalBytes v - ReadableSize b, buffers := bs\<rparr>))"

section \<open>Slices\<close>

record Slice =
  slice_data :: "cell list option"
  slice_len :: size_t

definition Slice_default :: Slice where
  "Slice_default = \<lparr>slice_data = None, slice_len = 0\<rparr>"

record SliceVector =
  slices :: "Slice list"

definition sv_Empty :: "SliceVector \<Rightarrow> bool" where
  "sv_Empty v = (slices v = [])"

definition sv_PushBack :: "cell list option \<Rightarrow> size_t \<Rightarrow> SliceVector \<Rightarrow> SliceVector" where
  "sv_PushBack data n v = v\<lparr>slices := slices v @ [\<lparr>slice_data = data, slice_len = n\<rparr>]\<rparr>"

lemma sv_PushBack_all:
  "slices (fold (\<lambda>(d, n). sv_PushBack d n) xs v) =
     slices v @ map (\<lambda>(d, n). \<lparr>slice_data = d, slice_len = n\<rparr>) xs"
  by (induction xs arbitrary: v) (auto simp: sv_PushBack_def)

section \<open>Invariant and abstract value\<close>

definition bv_contents :: "BufferVector \<Rightarrow> cell list" where
  "bv_contents v = concat (map contents (buffers v))"

text \<open>
  Every chunk is a well-formed buffer, the byte count is exact, and every chunk but the last
  has at least \<open>kMinSize\<close> bytes.
\<close>

definition bv_inv :: "BufferVector \<Rightarrow> bool" where
  "bv_inv v \<longleftrightarrow>
     (\<forall>b \<in> set (buffers v). buffer_inv b) \<and>
     unat (totalBytes v) = length (bv_contents v) \<and>
     (\<forall>b \<in> set (butlast (buffers v)). 1024 \<le> length (contents b))"

lemma bv_inv_default: "bv_inv BufferVector_default" "bv_contents BufferVector_default = []"
  by (simp_all add: bv_inv_def bv_contents_def BufferVector_default_def)

lemma bv_inv_Clear: "bv_inv (bv_Clear v)" "bv_contents (bv_Clear v) = []" "bv_Empty (bv_Clear v)"
  by (simp_all add: bv_inv_def bv_contents_def bv_Clear_def bv_Empty_def)

lemma ShouldMerge_iff:
  assumes "bv_inv v"
  shows "ShouldMerge v \<longleftrightarrow> buffers v \<noteq> [] \<and> length (contents (last (buffers v))) < 1024"
proof (cases "buffers v = []")
  case False
  then have "buffer_inv (last (buffers v))" using assms by (simp add: bv_inv_def)
  then show ?thesis using unat_ReadableSize [of "last (buffers v)"]
    by (simp add: ShouldMerge_def kMinSize_def less64_iff)
qed (simp add: ShouldMerge_def)

lemma bv_contents_split:
  assumes "buffers v \<noteq> []"
  shows "bv_contents v = concat (map contents (butlast (buffers v))) @ contents (last (buffers v))"
proof -
  from assms obtain ys y where "buffers v = ys @ [y]" by (cases "buffers v" rule: rev_cases) auto
  then show ?thesis by (simp add: bv_contents_def)
qed

lemma bv_inv_extend_last:
  assumes inv: "bv_inv v" and ne: "buffers v \<noteq> []" and l: "buffer_inv l"
    "contents l = contents (last (buffers v)) @ xs"
    and t: "unat t = length (bv_contents v) + length xs"
  shows "bv_inv (v\<lparr>totalBytes := t, buffers := butlast (buffers v) @ [l]\<rparr>)"
    and "bv_contents (v\<lparr>totalBytes := t, buffers := butlast (buffers v) @ [l]\<rparr>) = bv_contents v @ xs"
proof -
  show c: "bv_contents (v\<lparr>totalBytes := t, buffers := butlast (buffers v) @ [l]\<rparr>) = bv_contents v @ xs"
    using l(2) bv_contents_split [OF ne] by (simp add: bv_contents_def)
  show "bv_inv (v\<lparr>totalBytes := t, buffers := butlast (buffers v) @ [l]\<rparr>)"
    using inv l(1) t c by (auto simp: bv_inv_def dest: in_set_butlastD)
qed

lemma bv_inv_new_chunk:
  assumes inv: "bv_inv v" and no: "\<not> ShouldMerge v" and l: "buffer_inv l" "contents l = xs"
    and t: "unat t = length (bv_contents v) + length xs"
  shows "bv_inv (v\<lparr>totalBytes := t, buffers := buffers v @ [l]\<rparr>)"
    and "bv_contents (v\<lparr>totalBytes := t, buffers := buffers v @ [l]\<rparr>) = bv_contents v @ xs"
proof -
  show c: "bv_contents (v\<lparr>totalBytes := t, buffers := buffers v @ [l]\<rparr>) = bv_contents v @ xs"
    using l(2) by (simp add: bv_contents_def)
  have "1024 \<le> length (contents b)" if "b \<in> set (buffers v)" for b
  proof (cases "buffers v" rule: rev_cases)
    case Nil
    with that show ?thesis by simp
  next
    case (snoc ys y)
    with no ShouldMerge_iff [OF inv] have "1024 \<le> length (contents y)" by simp
    with snoc inv that show ?thesis by (auto simp: bv_inv_def)
  qed
  then show "bv_inv (v\<lparr>totalBytes := t, buffers := buffers v @ [l]\<rparr>)"
    using inv l(1) t c by (auto simp: bv_inv_def)
qed

lemma total_after:
  assumes "bv_inv v" "length (bv_contents v) + unat n < 2 ^ 64"
  shows "unat (totalBytes v + n) = length (bv_contents v) + unat n"
  using assms by (simp add: bv_inv_def unat_simps)

lemma push_back_move_ok:
  "\<exists>b'. push_back_move b bs = Inr (bs @ [b], b') \<and> IsEmpty b'"
  by (simp add: push_back_move_def MoveFrom_fields IsEmpty_def ReadableSize_def)

section \<open>Correctness of the operations\<close>

lemma PushRaw_appends:
  assumes inv: "bv_inv v" and src: "unat n \<le> length src"
    and room: "length (bv_contents v) + unat n < 2 ^ 63 - 1"
  shows "\<exists>v'. PushRaw (Some src) n v = Inr v' \<and> bv_inv v' \<and>
              bv_contents v' = bv_contents v @ take (unat n) src"
proof -
  have t: "unat (totalBytes v + n) = length (bv_contents v) + length (take (unat n) src)"
    using total_after [OF inv, of n] room src by simp
  have merge: "ShouldMerge (v\<lparr>totalBytes := s\<rparr>) = ShouldMerge v" for s by (simp add: ShouldMerge_def)
  show ?thesis
  proof (cases "ShouldMerge v")
    case True
    with ShouldMerge_iff [OF inv] have ne: "buffers v \<noteq> []" by simp
    then have "buffer_inv (last (buffers v))" using inv by (simp add: bv_inv_def)
    moreover have "length (contents (last (buffers v))) + unat n < 2 ^ 63 - 1"
      using room bv_contents_split [OF ne] by simp
    ultimately obtain l where l: "PushData (Some src) n (last (buffers v)) = Inr (l, n)" "buffer_inv l"
      "contents l = contents (last (buffers v)) @ take (unat n) src"
      using PushData_appends [OF _ src] by blast
    from bv_inv_extend_last [OF inv ne l(2,3) t] l(1) True merge show ?thesis
      by (simp add: PushRaw_def Let_def)
  next
    case False
    obtain b where b: "PushData (Some src) n Buffer_default = Inr (b, n)" "buffer_inv b"
      "contents b = take (unat n) src"
      using PushData_appends [OF buffer_inv_default(1) src] room by (auto simp: buffer_inv_default)
    from push_back_move_ok [of b "buffers v"] obtain b' where
      "push_back_move b (buffers v) = Inr (buffers v @ [b], b')" by blast
    with bv_inv_new_chunk [OF inv False b(2,3) t] b(1) False merge show ?thesis
      by (simp add: PushRaw_def Buffer_of_def Let_def)
  qed
qed

lemma ReadAddr_take:
  assumes "buffer_inv b"
  shows "PushData (ReadAddr b) (ReadableSize b) l =
         PushData (Some (contents b)) (ReadableSize b) l \<or> ReadableSize b = 0"
proof (cases "buffer b")
  case None
  then have "contents b = []" by (simp add: contents_def)
  with unat_ReadableSize [OF assms] show ?thesis by (simp add: eq64_iff)
next
  case (Some m)
  have bd: "unat (writePos b) \<le> length m" "unat (readPos b) \<le> unat (writePos b)"
    using assms Some by (auto simp: buffer_inv_def)
  then have "contents b = take (unat (ReadableSize b)) (drop (unat (readPos b)) m)"
    using Some by (simp add: contents_Some ReadableSize_def unat_simps)
  moreover have "unat (ReadableSize b) \<le> length (drop (unat (readPos b)) m)"
    using bd by (simp add: ReadableSize_def unat_simps)
  ultimately have "PushDataAt (Some (drop (unat (readPos b)) m)) (ReadableSize b) 0 l =
        PushDataAt (Some (contents b)) (ReadableSize b) 0 l"
    by (simp add: PushDataAt_def memcpy_at_def cong: option.case_cong)
  then show ?thesis using Some by (simp add: PushData_def ReadAddr_def)
qed

lemma PushBuffer_appends:
  assumes inv: "bv_inv v" and b: "buffer_inv b"
    and room: "length (bv_contents v) + length (contents b) < 2 ^ 63 - 1"
  shows "\<exists>v' b'. PushBuffer b v = Inr (v', b') \<and> bv_inv v' \<and>
    bv_contents v' = bv_contents v @ contents b \<and>
    (if ShouldMerge v then b' = b else IsEmpty b')"
proof -
  have rs: "unat (ReadableSize b) = length (contents b)" by (rule unat_ReadableSize [OF b])
  have t: "unat (totalBytes v + ReadableSize b) = length (bv_contents v) + length (contents b)"
    using total_after [OF inv, of "ReadableSize b"] room rs by simp
  have merge: "ShouldMerge (v\<lparr>totalBytes := s\<rparr>) = ShouldMerge v" for s by (simp add: ShouldMerge_def)
  show ?thesis
  proof (cases "ShouldMerge v")
    case True
    with ShouldMerge_iff [OF inv] have ne: "buffers v \<noteq> []" by simp
    then have last: "buffer_inv (last (buffers v))" using inv by (simp add: bv_inv_def)
    have "\<exists>l. PushData (ReadAddr b) (ReadableSize b) (last (buffers v)) = Inr (l, ReadableSize b) \<and>
        buffer_inv l \<and> contents l = contents (last (buffers v)) @ contents b"
    proof (cases "ReadableSize b = 0")
      case True
      then show ?thesis using last rs
        by (cases "ReadAddr b") (simp_all add: PushData_def PushDataAt_def Produce_def)
    next
      case False
      with ReadAddr_take [OF b] PushData_appends [OF last, of "ReadableSize b" "contents b"] rs room
        bv_contents_split [OF ne] show ?thesis by auto
    qed
    then obtain l where l: "PushData (ReadAddr b) (ReadableSize b) (last (buffers v)) = Inr (l, ReadableSize b)"
      "buffer_inv l" "contents l = contents (last (buffers v)) @ contents b" by blast
    from bv_inv_extend_last [OF inv ne l(2,3) t] l(1) True merge show ?thesis
      by (simp add: PushBuffer_def Let_def)
  next
    case False
    from push_back_move_ok [of b "buffers v"] obtain b' where
      "push_back_move b (buffers v) = Inr (buffers v @ [b], b')" "IsEmpty b'" by blast
    with bv_inv_new_chunk [OF inv False b refl t] False merge show ?thesis
      by (simp add: PushBuffer_def Let_def)
  qed
qed

lemma bv_Pop_drops:
  assumes inv: "bv_inv v" and bs: "buffers v = b # bs"
  shows "\<exists>v'. bv_Pop v = Inr v' \<and> bv_inv v' \<and> buffers v' = bs \<and>
    bv_contents v' = drop (length (contents b)) (bv_contents v)"
proof -
  have "unat (ReadableSize b) = length (contents b)"
    using inv bs by (intro unat_ReadableSize) (simp add: bv_inv_def)
  moreover have "bv_contents v = contents b @ concat (map contents bs)"
    using bs by (simp add: bv_contents_def)
  ultimately show ?thesis using inv bs
    by (auto simp: bv_Pop_def bv_inv_def bv_contents_def unat_simps split: if_splits)
qed

lemma bv_Pop_empty: "bv_Empty v \<Longrightarrow> bv_Pop v = Inl OutOfBounds"
  by (simp add: bv_Empty_def bv_Pop_def)

lemma sum_list_ge: "\<forall>x \<in> set xs. k \<le> (x :: nat) \<Longrightarrow> k * length xs \<le> sum_list xs"
  by (induction xs) auto

lemma bv_chunk_count:
  assumes "bv_inv v"
  shows "1024 * (length (buffers v) - 1) \<le> length (bv_contents v)"
proof (cases "buffers v = []")
  case False
  have "1024 * length (butlast (buffers v)) \<le> sum_list (map (length \<circ> contents) (butlast (buffers v)))"
    using assms sum_list_ge [of "map (length \<circ> contents) (butlast (buffers v))" 1024]
    by (simp add: bv_inv_def)
  with False show ?thesis using bv_contents_split [OF False]
    by (simp add: length_concat comp_def)
qed simp

definition bv_push :: "cell list \<Rightarrow> BufferVector \<Rightarrow> BufferVector res" where
  "bv_push xs v = PushRaw (Some xs) (of_nat (length xs)) v"

interpretation bv: byte_queue BufferVector_default bv_push bv_contents bv_inv "2 ^ 63 - 1"
proof unfold_locales
  show "bv_inv BufferVector_default" "bv_contents BufferVector_default = []" by (rule bv_inv_default)+
next
  fix v :: BufferVector and xs :: "cell list"
  assume "bv_inv v" and room: "length (bv_contents v) + length xs < 2 ^ 63 - 1"
  moreover from room have "unat (of_nat (length xs) :: size_t) = length xs"
    by (intro unat_of_nat64) simp
  ultimately show "\<exists>v'. bv_push xs v = Inr v' \<and> bv_inv v' \<and> bv_contents v' = bv_contents v @ xs"
    using PushRaw_appends [of v "of_nat (length xs)" xs] by (simp add: bv_push_def)
qed

section \<open>Properties\<close>

primrec bv_drain :: "nat \<Rightarrow> BufferVector \<Rightarrow> (BufferVector \<times> cell list) res" where
  "bv_drain 0 v = Inr (v, [])"
| "bv_drain (Suc k) v =
     (case buffers v of
        [] \<Rightarrow> Inr (v, [])
      | b # _ \<Rightarrow> res_bind (bv_Pop v) (\<lambda>v. res_bind (bv_drain k v) (\<lambda>(v, out). Inr (v, contents b @ out))))"

lemma bv_drain_all:
  assumes "bv_inv v" "length (buffers v) \<le> k"
  shows "\<exists>v'. bv_drain k v = Inr (v', bv_contents v) \<and> bv_Empty v' \<and> bv_inv v'"
  using assms
proof (induction k arbitrary: v)
  case 0
  then show ?case by (auto simp: bv_Empty_def bv_contents_def)
next
  case (Suc k)
  show ?case
  proof (cases "buffers v")
    case Nil
    with Suc.prems show ?thesis by (auto simp: bv_Empty_def bv_contents_def)
  next
    case (Cons b bs)
    from bv_Pop_drops [OF Suc.prems(1) Cons] obtain v1 where
      v1: "bv_Pop v = Inr v1" "bv_inv v1" "buffers v1 = bs" by blast
    with Suc.IH [OF v1(2)] Suc.prems(2) Cons obtain v' where
      "bv_drain k v1 = Inr (v', bv_contents v1)" "bv_Empty v'" "bv_inv v'" by auto
    with v1 Cons show ?thesis by (simp add: bv_contents_def)
  qed
qed

text \<open>C31: Whatever is pushed onto an empty BufferVector comes out again, in order, when the
  chunks are popped from the front, however the pushes were merged into chunks; the number of
  chunks is bounded by the data.\<close>

theorem BufferVector_stream:
  assumes "length (concat xss) < 2 ^ 63 - 1"
  shows "\<exists>v. res_fold bv_push xss BufferVector_default = Inr v \<and> bv_inv v \<and>
    unat (totalBytes v) = length (concat xss) \<and>
    1024 * (length (buffers v) - 1) \<le> length (concat xss) \<and>
    (\<exists>v'. bv_drain (length (buffers v)) v = Inr (v', concat xss) \<and> bv_Empty v')"
proof -
  from bv.push_all [of BufferVector_default xss] assms obtain v where
    v: "res_fold bv_push xss BufferVector_default = Inr v" "bv_inv v" "bv_contents v = concat xss"
    by (auto simp: bv_inv_default)
  moreover have "unat (totalBytes v) = length (concat xss)" using v by (simp add: bv_inv_def)
  ultimately show ?thesis using bv_chunk_count [OF v(2)] bv_drain_all [OF v(2) le_refl] by auto
qed

theorem BufferVector_stream_witness:
  "\<exists>v v'. res_fold bv_push [map Some ''ab'', map Some ''c''] BufferVector_default = Inr v \<and>
     bv_drain (length (buffers v)) v = Inr (v', map Some ''abc'') \<and> bv_Empty v'"
  using BufferVector_stream [of "[map Some ''ab'', map Some ''c'']"] by auto

end
