(* ===== verification/TimeUtil.thy ===== *)
theory TimeUtil
  imports Prelude "HOL-Library.Signed_Division"
begin

text \<open>
  The time point of netbridge/TimeUtil.h and TimeUtil.cc and its text form, the prefix of every
  log line and the stem of every log file name. \<open>localtime_r\<close> is a parameter: it is the C
  library's conversion for the process's time zone.
\<close>

section \<open>State\<close>

record tm =
  tm_year :: int
  tm_mon :: int
  tm_mday :: int
  tm_hour :: int
  tm_min :: int
  tm_sec :: int

text \<open>\<open>now\<close> counts the ticks (nanoseconds) of \<open>system_clock\<close> since the epoch.\<close>

record Time =
  now :: int
  tmv :: tm
  valid :: bool

text \<open>The static members behind \<open>FormatTime\<close>: the once flag and the two-digit table.\<close>

record TimeStatics =
  init_done :: bool
  NUMBER :: "byte list list"

definition TimeStatics_start :: TimeStatics where
  "TimeStatics_start = \<lparr>init_done = False, NUMBER = replicate 60 [CHR 0x00, CHR 0x00]\<rparr>"

definition YEAR :: "byte list option list" where
  "YEAR = map Some
    [''2015'', ''2016'', ''2017'', ''2018'', ''2019'',
     ''2020'', ''2021'', ''2022'', ''2023'', ''2024'',
     ''2025'', ''2026'', ''2027'', ''2028'', ''2029'',
     ''2030'', ''2031'', ''2032'', ''2033'', ''2034'',
     ''2035'', ''2036'', ''2037'', ''2038'', ''2039'',
     ''2040'', ''2041'', ''2042'', ''2043'', ''2044'',
     ''2045'', ''2046'', ''2047'', ''2048'', ''2049''] @ [None]"

section \<open>Operations\<close>

definition Now :: "int \<Rightarrow> Time \<Rightarrow> Time" where
  "Now clock t = t\<lparr>now := clock, valid := False\<rparr>"

definition Time_new :: "int \<Rightarrow> tm \<Rightarrow> Time" where
  "Time_new clock garbage = Now clock \<lparr>now = 0, tmv = garbage, valid = False\<rparr>"

definition MilliSeconds :: "Time \<Rightarrow> int" where
  "MilliSeconds t = now t sdiv 1000000"

definition MicroSeconds :: "Time \<Rightarrow> int" where
  "MicroSeconds t = now t sdiv 1000"

text \<open>The conversion to \<open>int64_t\<close>.\<close>

definition Time_int64 :: "Time \<Rightarrow> int" where
  "Time_int64 t = MilliSeconds t"

text \<open>\<open>MilliSeconds() / 1000UL\<close> divides as unsigned 64-bit values.\<close>

definition UpdateTm :: "(int \<Rightarrow> tm) \<Rightarrow> Time \<Rightarrow> Time" where
  "UpdateTm localtime_r t =
     (if valid t then t
      else t\<lparr>valid := True,
             tmv := localtime_r (sint ((word_of_int (MilliSeconds t) :: 64 word) div 1000))\<rparr>)"

definition GetYear :: "(int \<Rightarrow> tm) \<Rightarrow> Time \<Rightarrow> Time \<times> int" where
  "GetYear lt t = (let t = UpdateTm lt t in (t, tm_year (tmv t) + 1900))"

definition GetMonth :: "(int \<Rightarrow> tm) \<Rightarrow> Time \<Rightarrow> Time \<times> int" where
  "GetMonth lt t = (let t = UpdateTm lt t in (t, tm_mon (tmv t) + 1))"

definition GetDay :: "(int \<Rightarrow> tm) \<Rightarrow> Time \<Rightarrow> Time \<times> int" where
  "GetDay lt t = (let t = UpdateTm lt t in (t, tm_mday (tmv t)))"

definition GetHour :: "(int \<Rightarrow> tm) \<Rightarrow> Time \<Rightarrow> Time \<times> int" where
  "GetHour lt t = (let t = UpdateTm lt t in (t, tm_hour (tmv t)))"

definition GetMinute :: "(int \<Rightarrow> tm) \<Rightarrow> Time \<Rightarrow> Time \<times> int" where
  "GetMinute lt t = (let t = UpdateTm lt t in (t, tm_min (tmv t)))"

definition GetSecond :: "(int \<Rightarrow> tm) \<Rightarrow> Time \<Rightarrow> Time \<times> int" where
  "GetSecond lt t = (let t = UpdateTm lt t in (t, tm_sec (tmv t)))"

definition Time_Init :: "TimeStatics \<Rightarrow> TimeStatics" where
  "Time_Init st =
     st\<lparr>NUMBER := map (\<lambda>i. take 2 (fmt_int0 2 (int i))) [0..<length (NUMBER st)]\<rparr>"

definition call_once_Init :: "TimeStatics \<Rightarrow> TimeStatics" where
  "call_once_Init st = (if init_done st then st else (Time_Init st)\<lparr>init_done := True\<rparr>)"

definition year_text :: "int \<Rightarrow> byte list res" where
  "year_text i =
     (if 0 \<le> i \<and> i < int (length YEAR)
      then (case YEAR ! nat i of None \<Rightarrow> Inl NullDeref | Some s \<Rightarrow> Inr s)
      else Inl OutOfBounds)"

definition number_text :: "TimeStatics \<Rightarrow> int \<Rightarrow> byte list res" where
  "number_text st i =
     (if 0 \<le> i \<and> i < int (length (NUMBER st)) then Inr (NUMBER st ! nat i) else Inl OutOfBounds)"

definition FormatTime ::
  "(int \<Rightarrow> tm) \<Rightarrow> TimeStatics \<Rightarrow> Time \<Rightarrow> cell list \<Rightarrow> (TimeStatics \<times> Time \<times> cell list \<times> size_t) res" where
  "FormatTime lt st t buf =
     (let st = call_once_Init st; t = UpdateTm lt t; m = tmv t in
      res_bind
        (res_fold put_piece
          [(0, year_text (tm_year m + 1900 - 2015)),
           (4, Inr ''-''),
           (5, number_text st (tm_mon m + 1)),
           (7, Inr ''-''),
           (8, number_text st (tm_mday m)),
           (10, Inr ''[''),
           (11, number_text st (tm_hour m)),
           (13, Inr '':''),
           (14, number_text st (tm_min m)),
           (16, Inr '':''),
           (17, number_text st (tm_sec m)),
           (19, Inr ''.'')] buf) (\<lambda>buf.
      let msec = MicroSeconds t in
      res_bind (snprintf_at buf 20 8 (fmt_int0 6 (msec smod 1000000) @ '']'')) (\<lambda>(buf, _).
      Inr (st, t, buf, 27))))"

section \<open>The format\<close>

definition statics_ok :: "TimeStatics \<Rightarrow> bool" where
  "statics_ok st \<longleftrightarrow>
     length (NUMBER st) = 60 \<and>
     (init_done st \<longrightarrow> NUMBER st = map (\<lambda>i. fmt_int0 2 (int i)) [0..<60])"

text \<open>What the table covers: the years 2015 to 2049, and no leap second.\<close>

definition tm_ok :: "tm \<Rightarrow> bool" where
  "tm_ok m \<longleftrightarrow> 115 \<le> tm_year m \<and> tm_year m \<le> 149 \<and> 0 \<le> tm_mon m \<and> tm_mon m \<le> 11 \<and>
     1 \<le> tm_mday m \<and> tm_mday m \<le> 31 \<and> 0 \<le> tm_hour m \<and> tm_hour m \<le> 23 \<and>
     0 \<le> tm_min m \<and> tm_min m \<le> 59 \<and> 0 \<le> tm_sec m \<and> tm_sec m \<le> 59"

definition stamp_text :: "tm \<Rightarrow> int \<Rightarrow> byte list" where
  "stamp_text m usec =
     fmt_int0 4 (tm_year m + 1900) @ ''-'' @ fmt_int0 2 (tm_mon m + 1) @ ''-'' @
     fmt_int0 2 (tm_mday m) @ ''['' @ fmt_int0 2 (tm_hour m) @ '':'' @ fmt_int0 2 (tm_min m) @
     '':'' @ fmt_int0 2 (tm_sec m) @ ''.'' @ fmt_int0 6 usec @ '']''"

lemma statics_ok_start: "statics_ok TimeStatics_start"
  by (simp add: statics_ok_def TimeStatics_start_def)

lemma take2_fmt: "i < 60 \<Longrightarrow> take 2 (fmt_int0 2 (int i)) = fmt_int0 2 (int i)"
  by (simp add: length_fmt_int0)

lemma call_once_Init_ok:
  assumes "statics_ok st"
  shows "statics_ok (call_once_Init st)" "init_done (call_once_Init st)"
    "NUMBER (call_once_Init st) = map (\<lambda>i. fmt_int0 2 (int i)) [0..<60]"
  using assms by (auto simp: statics_ok_def call_once_Init_def Time_Init_def take2_fmt)

lemma number_text_ok:
  "statics_ok st \<Longrightarrow> 0 \<le> i \<Longrightarrow> i \<le> 59 \<Longrightarrow>
   number_text (call_once_Init st) i = Inr (fmt_int0 2 i)"
  by (simp add: number_text_def call_once_Init_ok nat_less_iff)

lemma number_text_leap:
  "statics_ok st \<Longrightarrow> number_text (call_once_Init st) 60 = Inl OutOfBounds"
  by (simp add: number_text_def call_once_Init_ok)

lemma YEAR_table:
  "map (\<lambda>i. YEAR ! i) [0..<35] = map (\<lambda>i. Some (fmt_int0 4 (int (2015 + i)))) [0..<35]"
  by (simp add: upt_rec YEAR_def fmt_eval)

lemma YEAR_entries:
  assumes "i < 35"
  shows "YEAR ! i = Some (fmt_int0 4 (int (2015 + i)))"
proof -
  have "map (\<lambda>i. YEAR ! i) [0..<35] ! i =
        map (\<lambda>i. Some (fmt_int0 4 (int (2015 + i)))) [0..<35] ! i"
    by (simp only: YEAR_table)
  with assms show ?thesis by simp
qed

lemma year_text_ok:
  assumes "2015 \<le> y" "y \<le> 2049"
  shows "year_text (y - 2015) = Inr (fmt_int0 4 y)"
proof -
  have len: "length YEAR = 36" by (simp add: YEAR_def)
  have "nat (y - 2015) < 35" using assms by simp
  then have "YEAR ! nat (y - 2015) = Some (fmt_int0 4 (int (2015 + nat (y - 2015))))"
    by (rule YEAR_entries)
  moreover have "int (2015 + nat (y - 2015)) = y" using assms by simp
  ultimately show ?thesis using assms len by (simp add: year_text_def)
qed

lemma year_text_bad:
  "year_text 35 = Inl NullDeref" "i < 0 \<Longrightarrow> year_text i = Inl OutOfBounds"
  "36 \<le> i \<Longrightarrow> year_text i = Inl OutOfBounds"
  by (simp_all add: year_text_def YEAR_def)

lemma length_fmt2 [simp]: "0 \<le> z \<Longrightarrow> z < 100 \<Longrightarrow> length (fmt_int0 2 z) = 2"
  using length_fmt_int0 [of "nat z" 2] by simp

lemma length_fmt4 [simp]: "0 \<le> z \<Longrightarrow> z < 10000 \<Longrightarrow> length (fmt_int0 4 z) = 4"
  using length_fmt_int0 [of "nat z" 4] by simp

lemma length_fmt6 [simp]: "0 \<le> z \<Longrightarrow> z < 1000000 \<Longrightarrow> length (fmt_int0 6 z) = 6"
  using length_fmt_int0 [of "nat z" 6] by simp

lemma length_stamp_text:
  "tm_ok m \<Longrightarrow> 0 \<le> u \<Longrightarrow> u < 1000000 \<Longrightarrow> length (stamp_text m u) = 27"
  by (simp add: stamp_text_def tm_ok_def)

section \<open>\<open>FormatTime\<close>\<close>

lemma contiguous_stamp:
  assumes "tm_ok m"
  defines "ps \<equiv>
    [(0, fmt_int0 4 (tm_year m + 1900)), (4, ''-''), (5, fmt_int0 2 (tm_mon m + 1)), (7, ''-''),
     (8, fmt_int0 2 (tm_mday m)), (10, ''[''), (11, fmt_int0 2 (tm_hour m)), (13, '':''),
     (14, fmt_int0 2 (tm_min m)), (16, '':''), (17, fmt_int0 2 (tm_sec m)), (19, ''.'')]"
  shows "contiguous 0 ps" "length (concat (map snd ps)) = 20"
  using assms by (simp_all add: tm_ok_def)

text \<open>The time is turned into the 27 characters of \<open>stamp_text\<close> and a terminator.\<close>

lemma FormatTime_writes:
  fixes t :: Time and lt :: "int \<Rightarrow> tm"
  defines "m \<equiv> tmv (UpdateTm lt t)"
  assumes st: "statics_ok st" and m: "tm_ok m" and t: "0 \<le> now t" and buf: "28 \<le> length buf"
  shows "FormatTime lt st t buf =
    Inr (call_once_Init st, UpdateTm lt t,
         map Some (stamp_text m (MicroSeconds t mod 1000000)) @ Some (CHR 0x00) # drop 28 buf, 27)"
proof -
  have micro: "MicroSeconds (UpdateTm lt t) = MicroSeconds t"
    by (simp add: MicroSeconds_def UpdateTm_def)
  have nn: "0 \<le> MicroSeconds t" using t
    by (cases "now t = 0") (simp_all add: MicroSeconds_def signed_divide_int_def pos_imp_zdiv_nonneg_iff)
  then have smod: "MicroSeconds t smod 1000000 = MicroSeconds t mod 1000000"
    by (simp add: smod_mod_positive)
  let ?u = "MicroSeconds t mod 1000000"
  have u: "0 \<le> ?u" "?u < 1000000" by simp_all
  define ps :: "(nat \<times> byte list) list" where "ps =
    [(0, fmt_int0 4 (tm_year m + 1900)), (4, ''-''), (5, fmt_int0 2 (tm_mon m + 1)), (7, ''-''),
     (8, fmt_int0 2 (tm_mday m)), (10, ''[''), (11, fmt_int0 2 (tm_hour m)), (13, '':''),
     (14, fmt_int0 2 (tm_min m)), (16, '':''), (17, fmt_int0 2 (tm_sec m)), (19, ''.'')]"
  define head where "head = concat (map snd ps)"
  have hl: "length head = 20" "contiguous 0 ps"
    using contiguous_stamp [OF m] by (simp_all only: head_def ps_def)
  then have pieces: "res_fold put_piece (map (\<lambda>(i, bs). (i, Inr bs)) ps) buf =
      Inr (map Some head @ drop 20 buf)"
    using put_contiguous [of "[]" ps buf] buf unfolding head_def [symmetric] by simp
  have year: "year_text (tm_year m + 1900 - 2015) = Inr (fmt_int0 4 (tm_year m + 1900))"
    using m by (intro year_text_ok) (auto simp: tm_ok_def)
  have numbers: "number_text (call_once_Init st) (tm_mon m + 1) = Inr (fmt_int0 2 (tm_mon m + 1))"
    "number_text (call_once_Init st) (tm_mday m) = Inr (fmt_int0 2 (tm_mday m))"
    "number_text (call_once_Init st) (tm_hour m) = Inr (fmt_int0 2 (tm_hour m))"
    "number_text (call_once_Init st) (tm_min m) = Inr (fmt_int0 2 (tm_min m))"
    "number_text (call_once_Init st) (tm_sec m) = Inr (fmt_int0 2 (tm_sec m))"
    using m by (auto intro!: number_text_ok [OF st] simp: tm_ok_def)
  have "length (fmt_int0 6 ?u @ '']'') = 7" using u by simp
  then have tail: "snprintf_at (map Some head @ drop 20 buf) 20 8 (fmt_int0 6 ?u @ '']'') =
      Inr (map Some head @ map Some (fmt_int0 6 ?u @ '']'') @ Some (CHR 0x00) # drop 28 buf, 7)"
    using hl buf put_at_append [of "(fmt_int0 6 ?u @ '']'') @ [CHR 0x00]" "drop 20 buf" "map Some head"]
    by (simp add: snprintf_at_def)
  have stamp: "stamp_text m ?u = head @ fmt_int0 6 ?u @ '']''"
    by (simp add: stamp_text_def head_def ps_def)
  have "res_fold put_piece
          [(0, year_text (tm_year m + 1900 - 2015)), (4, Inr ''-''),
           (5, number_text (call_once_Init st) (tm_mon m + 1)), (7, Inr ''-''),
           (8, number_text (call_once_Init st) (tm_mday m)), (10, Inr ''[''),
           (11, number_text (call_once_Init st) (tm_hour m)), (13, Inr '':''),
           (14, number_text (call_once_Init st) (tm_min m)), (16, Inr '':''),
           (17, number_text (call_once_Init st) (tm_sec m)), (19, Inr ''.'')] buf =
        Inr (map Some head @ drop 20 buf)"
    using pieces unfolding year numbers ps_def by (simp only: list.map prod.case)
  with tail show ?thesis
    unfolding FormatTime_def Let_def m_def [symmetric] micro smod stamp by simp
qed

text \<open>The fields can be read back from the text.\<close>

definition parse_stamp :: "byte list \<Rightarrow> int list" where
  "parse_stamp s = map int
     [read_dec (take 4 s), read_dec (take 2 (drop 5 s)), read_dec (take 2 (drop 8 s)),
      read_dec (take 2 (drop 11 s)), read_dec (take 2 (drop 14 s)), read_dec (take 2 (drop 17 s)),
      read_dec (take 6 (drop 20 s))]"

lemma read_fmt_int0_int: "0 \<le> z \<Longrightarrow> int (read_dec (fmt_int0 w z)) = z"
  using read_fmt_int0 [of w "nat z"] by simp

lemma parse_stamp_text:
  assumes "tm_ok m" "0 \<le> u" "u < 1000000"
  shows "parse_stamp (stamp_text m u) =
    [tm_year m + 1900, tm_mon m + 1, tm_mday m, tm_hour m, tm_min m, tm_sec m, u]"
  using assms by (simp add: parse_stamp_def stamp_text_def tm_ok_def read_fmt_int0_int)

text \<open>Outside the tables: the years 2050 and 2014.\<close>

lemma FormatTime_bad_year:
  assumes "tm_year (tmv (UpdateTm lt t)) = 150"
  shows "FormatTime lt st t buf = Inl NullDeref"
  using assms by (simp add: FormatTime_def Let_def put_piece_def year_text_bad)

section \<open>Properties\<close>

definition demo_tm :: tm where
  "demo_tm = \<lparr>tm_year = 124, tm_mon = 0, tm_mday = 31, tm_hour = 23, tm_min = 59, tm_sec = 58\<rparr>"

definition demo_time :: Time where
  "demo_time = \<lparr>now = 1706745598000123456, tmv = demo_tm, valid = True\<rparr>"

text \<open>The format that TimeUtil.h documents, \<open>1970-01-01[12:00:00.123]\<close>: 24 characters, with milliseconds.\<close>

definition doc_stamp :: "tm \<Rightarrow> int \<Rightarrow> byte list" where
  "doc_stamp m msec =
     fmt_int0 4 (tm_year m + 1900) @ ''-'' @ fmt_int0 2 (tm_mon m + 1) @ ''-'' @
     fmt_int0 2 (tm_mday m) @ ''['' @ fmt_int0 2 (tm_hour m) @ '':'' @ fmt_int0 2 (tm_min m) @
     '':'' @ fmt_int0 2 (tm_sec m) @ ''.'' @ fmt_int0 3 msec @ '']''"

text \<open>The digits of a number one by one.\<close>

lemma fmt_int0_Suc: "0 < w \<Longrightarrow> fmt_int0 (Suc w) (int n) = fmt_int0 w (int (n div 10)) @ [digit_char (n mod 10)]"
proof (cases "n < 10")
  case True
  assume "0 < w"
  then obtain v where "w = Suc v" by (cases w) auto
  with True show ?thesis
    by (simp add: fmt_int0_def pad_zero_def dec_nat_def digits_of.simps digit_char_def replicate_append_same
        flip: replicate_Suc)
next
  case False
  then have "dec_nat n = dec_nat (n div 10) @ [digit_char (n mod 10)]"
    unfolding dec_nat_def by (subst digits_of.simps) simp
  then show ?thesis by (simp add: fmt_int0_def pad_zero_def)
qed

lemma fmt_six:
  assumes "0 \<le> u" "u < 1000000"
  shows "fmt_int0 6 u = fmt_int0 3 (u div 1000) @ fmt_int0 3 (u mod 1000)"
proof -
  obtain n where n: "u = int n" using assms(1) nonneg_int_cases by blast
  let ?d = "\<lambda>k. digit_char (n div k mod 10)"
  have three: "fmt_int0 3 (int v) = fmt_int0 1 (int (v div 100)) @ [digit_char (v div 10 mod 10), digit_char (v mod 10)]" for v
  proof -
    have "v div 10 div 10 = v div 100" by (simp add: div_mult2_eq [symmetric])
    then show ?thesis
      using fmt_int0_Suc [of 2 v] fmt_int0_Suc [of 1 "v div 10"] by (simp add: numeral_2_eq_2 numeral_3_eq_3)
  qed
  have six: "fmt_int0 6 (int n) = fmt_int0 3 (int (n div 1000)) @ [?d 100, ?d 10, digit_char (n mod 10)]"
    using fmt_int0_Suc [of 5 n] fmt_int0_Suc [of 4 "n div 10"] fmt_int0_Suc [of 3 "n div 100"]
    by (simp add: div_mult2_eq [symmetric])
  have one: "fmt_int0 1 (int v) = [digit_char v]" if "v < 10" for v
    using that by (simp add: fmt_int0_def pad_zero_def dec_nat_def digits_of.simps)
  have "fmt_int0 3 (int (n mod 1000)) = [?d 100, ?d 10, digit_char (n mod 10)]"
  proof -
    have "n mod 1000 = 100 * (n div 100 mod 10) + n mod 100" using mod_mult2_eq [of n 100 10] by simp
    then have "n mod 1000 div 100 = n div 100 mod 10" by simp
    moreover have "n mod 1000 = 10 * (n div 10 mod 100) + n mod 10" using mod_mult2_eq [of n 10 100] by simp
    then have "n mod 1000 div 10 mod 10 = n div 10 mod 10" by (simp add: mod_mod_cancel)
    moreover have "n mod 1000 mod 10 = n mod 10" by (simp add: mod_mod_cancel)
    ultimately show ?thesis using three [of "n mod 1000"] one [of "n mod 1000 div 100"] by simp
  qed
  with six show ?thesis by (simp add: n zdiv_int zmod_int)
qed

lemma stamp_text_doc:
  assumes "0 \<le> u" "u < 1000000"
  shows "stamp_text m u = butlast (doc_stamp m (u div 1000)) @ fmt_int0 3 (u mod 1000) @ '']''"
  unfolding stamp_text_def doc_stamp_def fmt_six [OF assms] by (simp add: butlast_append)

lemma micro_milli:
  assumes "0 \<le> now t"
  shows "MicroSeconds t mod 1000000 div 1000 = MilliSeconds t mod 1000"
    "MicroSeconds t mod 1000000 mod 1000 = MicroSeconds t mod 1000"
proof -
  have "MicroSeconds t = now t div 1000" "MilliSeconds t = now t div 1000000"
    using assms by (simp_all add: MicroSeconds_def MilliSeconds_def signed_divide_int_def sgn_if)
  moreover have "now t div 1000 mod 1000000 div 1000 = now t div 1000000 mod 1000"
    using zmod_zmult2_eq [of 1000 "now t div 1000" 1000] by (simp add: zdiv_zmult2_eq [symmetric])
  ultimately show "MicroSeconds t mod 1000000 div 1000 = MilliSeconds t mod 1000" by simp
  show "MicroSeconds t mod 1000000 mod 1000 = MicroSeconds t mod 1000" by (simp add: mod_mod_cancel)
qed

text \<open>C32: \<open>FormatTime\<close> does not keep to the format its header documents. For a time not before 1970 whose
  calendar fields \<open>localtime_r\<close> puts into the years 2015 to 2049, with no leap second, it writes
  27 characters and a terminator, and nothing else: the documented text up to its milliseconds, then three
  more digits, the microseconds within the millisecond, and only then the closing bracket. Reading the
  numbers back gives the calendar fields and the microseconds of the time.\<close>

theorem FormatTime_roundtrip:
  fixes t :: Time
  assumes "statics_ok st" "tm_ok (tmv (UpdateTm lt t))" "0 \<le> now t" "28 \<le> length buf"
  shows "\<exists>buf' s. FormatTime lt st t buf = Inr (call_once_Init st, UpdateTm lt t, buf', 27) \<and>
    length buf' = length buf \<and> take 27 buf' = map Some s \<and> buf' ! 27 = Some (CHR 0x00) \<and>
    drop 28 buf' = drop 28 buf \<and>
    s = butlast (doc_stamp (tmv (UpdateTm lt t)) (MilliSeconds t mod 1000)) @
      fmt_int0 3 (MicroSeconds t mod 1000) @ '']'' \<and>
    parse_stamp s =
      (let m = tmv (UpdateTm lt t) in
       [tm_year m + 1900, tm_mon m + 1, tm_mday m, tm_hour m, tm_min m, tm_sec m,
        MicroSeconds t mod 1000000])"
proof -
  let ?m = "tmv (UpdateTm lt t)" and ?u = "MicroSeconds t mod 1000000"
  have len: "length (stamp_text ?m ?u) = 27" using assms(2) by (intro length_stamp_text) simp_all
  have doc: "stamp_text ?m ?u = butlast (doc_stamp ?m (MilliSeconds t mod 1000)) @
      fmt_int0 3 (MicroSeconds t mod 1000) @ '']''"
    using stamp_text_doc [of ?u ?m] unfolding micro_milli [OF assms(3)] by simp
  have p: "parse_stamp (stamp_text ?m ?u) = (let m = ?m in
       [tm_year m + 1900, tm_mon m + 1, tm_mday m, tm_hour m, tm_min m, tm_sec m, ?u])"
    using parse_stamp_text [OF assms(2), of ?u] by (simp add: Let_def)
  let ?b = "map Some (stamp_text ?m ?u) @ Some (CHR 0x00) # drop 28 buf"
  have "length ?b = length buf" "take 27 ?b = map Some (stamp_text ?m ?u)" "?b ! 27 = Some (CHR 0x00)"
    "drop 28 ?b = drop 28 buf" using len assms(4) by (simp_all add: nth_append)
  with FormatTime_writes [OF assms] doc p show ?thesis
    by (intro exI [of _ ?b] exI [of _ "stamp_text ?m ?u"] conjI) assumption+
qed

theorem FormatTime_roundtrip_witness:
  "\<exists>buf' s. FormatTime (\<lambda>_. demo_tm) TimeStatics_start demo_time (fresh_block 32) =
      Inr (call_once_Init TimeStatics_start, demo_time, buf', 27) \<and>
    take 27 buf' = map Some s \<and> parse_stamp s = [2024, 1, 31, 23, 59, 58, 123]"
proof -
  have u: "UpdateTm (\<lambda>_. demo_tm) demo_time = demo_time" by (simp add: UpdateTm_def demo_time_def)
  have "tm_ok (tmv demo_time)" "0 \<le> now demo_time" "28 \<le> length (fresh_block 32)"
    by (simp_all add: demo_time_def demo_tm_def tm_ok_def)
  from FormatTime_roundtrip [of TimeStatics_start "\<lambda>_. demo_tm" demo_time, unfolded u, OF statics_ok_start this]
  obtain buf' s where
    "FormatTime (\<lambda>_. demo_tm) TimeStatics_start demo_time (fresh_block 32) =
      Inr (call_once_Init TimeStatics_start, demo_time, buf', 27)" "take 27 buf' = map Some s"
    "parse_stamp s = (let m = tmv demo_time in
      [tm_year m + 1900, tm_mon m + 1, tm_mday m, tm_hour m, tm_min m, tm_sec m, MicroSeconds demo_time mod 1000000])"
    by blast
  moreover have "MicroSeconds demo_time mod 1000000 = 123" by (simp add: MicroSeconds_def demo_time_def)
  ultimately show ?thesis
    by (intro exI [of _ buf'] exI [of _ s]) (simp add: Let_def demo_time_def demo_tm_def)
qed

text \<open>A leap second, which \<open>localtime_r\<close> may report as \<open>tm_sec = 60\<close>, is outside the table
  of two-digit numbers: \<open>FormatTime\<close> reads past its end.\<close>

theorem FormatTime_leap_second:
  assumes "statics_ok st" "tm_ok ((tmv (UpdateTm lt t))\<lparr>tm_sec := 59\<rparr>)"
    "tm_sec (tmv (UpdateTm lt t)) = 60" "28 \<le> length buf"
  shows "FormatTime lt st t buf = Inl OutOfBounds"
proof -
  let ?m = "tmv (UpdateTm lt t)"
  have m: "115 \<le> tm_year ?m" "tm_year ?m \<le> 149" "0 \<le> tm_mon ?m" "tm_mon ?m \<le> 11" "1 \<le> tm_mday ?m"
     "tm_mday ?m \<le> 31" "0 \<le> tm_hour ?m" "tm_hour ?m \<le> 23" "0 \<le> tm_min ?m" "tm_min ?m \<le> 59"
    using assms(2) by (auto simp: tm_ok_def)
  have year: "year_text (tm_year ?m + 1900 - 2015) = Inr (fmt_int0 4 (tm_year ?m + 1900))"
    using m by (intro year_text_ok) auto
  show ?thesis
    using m year assms(3,4) number_text_leap [OF assms(1)]
    by (simp add: FormatTime_def Let_def put_piece_def number_text_ok [OF assms(1)])
qed

theorem FormatTime_leap_second_witness:
  "FormatTime (\<lambda>_. demo_tm\<lparr>tm_sec := 60\<rparr>) TimeStatics_start (demo_time\<lparr>valid := False\<rparr>) (fresh_block 32)
     = Inl OutOfBounds"
  by (rule FormatTime_leap_second)
    (simp_all add: statics_ok_start UpdateTm_def tm_ok_def demo_tm_def demo_time_def)

end
