(* ===== verification/LogStream.thy ===== *)
theory LogStream
  imports TimeUtil
begin

unbundle bit_operations_syntax

text \<open>
  The thread-local half of netbridge/Logger.cc: the line buffer every thread formats into, the
  \<open>operator<<\<close> overloads that append to it, and the part of \<open>Flush\<close> that turns it into a
  finished line (time stamp, level, text, thread id). The thread's text is \<open>body\<close>; the overloads
  append to it or leave it alone, and never write outside the buffer. Finishing the line can:
  the conditions under which it does not are exact.
\<close>

section \<open>Constants and state\<close>

definition kMaxCharPerLog :: size_t where "kMaxCharPerLog = 2048"
definition kPrefixLevelLen :: size_t where "kPrefixLevelLen = 6"
definition kPrefixTimeLen :: size_t where "kPrefixTimeLen = 27"

definition logINFO :: uint where "logINFO = push_bit 0 1"
definition logDEBUG :: uint where "logDEBUG = push_bit 1 1"
definition logWARN :: uint where "logWARN = push_bit 2 1"
definition logERROR :: uint where "logERROR = push_bit 3 1"
definition logALL :: uint where "logALL = 0xFFFFFFFF"

record Tls =
  tmpBuffer :: "cell list"
  pos :: size_t
  lastLogSecond :: int
  lastLogMSecond :: int
  curLevel :: uint
  tid :: "cell list"
  tidLen :: int

definition Tls_start :: Tls where
  "Tls_start =
     \<lparr>tmpBuffer = replicate 2048 (Some (CHR 0x00)), pos = kPrefixLevelLen + kPrefixTimeLen,
      lastLogSecond = - 1, lastLogMSecond = - 1, curLevel = 0,
      tid = replicate 16 (Some (CHR 0x00)), tidLen = 0\<rparr>"

text \<open>\<open>llevel\<close> is the logger's own level mask (the member \<open>level\<close> with its underscore), the first argument throughout.\<close>

definition IsLevelForbid :: "uint \<Rightarrow> uint \<Rightarrow> bool" where
  "IsLevelForbid llevel level = (\<not> (level AND llevel) \<noteq> 0)"

definition SetCurLevel :: "uint \<Rightarrow> Tls \<Rightarrow> Tls" where
  "SetCurLevel level t = t\<lparr>curLevel := level\<rparr>"

definition log_Reset :: "Tls \<Rightarrow> Tls" where
  "log_Reset t = t\<lparr>curLevel := 0, pos := kPrefixLevelLen + kPrefixTimeLen\<rparr>"

section \<open>The overloads of \<open>operator<<\<close>\<close>

definition strlen :: "byte list \<Rightarrow> nat res" where
  "strlen m =
     (if CHR 0x00 \<in> set m then Inr (length (takeWhile (\<lambda>c. c \<noteq> CHR 0x00) m)) else Inl OutOfBounds)"

definition stream_cstr :: "uint \<Rightarrow> byte list \<Rightarrow> Tls \<Rightarrow> Tls res" where
  "stream_cstr llevel msg t =
     (if IsLevelForbid llevel (curLevel t) then Inr t
      else
        res_bind (strlen msg) (\<lambda>n.
          let len = of_nat n in
          if kMaxCharPerLog \<le> pos t + len then Inr t
          else
            res_bind (memcpy_at (tmpBuffer t) (unat (pos t)) (map Some msg) 0 (unat len)) (\<lambda>b.
              Inr (t\<lparr>tmpBuffer := b, pos := pos t + len\<rparr>))))"

definition stream_ucstr :: "uint \<Rightarrow> byte list \<Rightarrow> Tls \<Rightarrow> Tls res" where
  "stream_ucstr llevel msg t = stream_cstr llevel msg t"

text \<open>\<open>c_str()\<close> appends the terminator; an embedded one ends the text early.\<close>

definition stream_string :: "uint \<Rightarrow> byte list \<Rightarrow> Tls \<Rightarrow> Tls res" where
  "stream_string llevel msg t = stream_cstr llevel (msg @ [CHR 0x00]) t"

text \<open>
  The body shared by the numeric overloads: the guard on the room left, \<open>snprintf\<close> of the text
  into what is left of the buffer, and the advance by the length \<open>snprintf\<close> reports.
\<close>

definition stream_fmt :: "uint \<Rightarrow> size_t \<Rightarrow> byte list \<Rightarrow> Tls \<Rightarrow> Tls res" where
  "stream_fmt llevel room s t =
     (if IsLevelForbid llevel (curLevel t) then Inr t
      else if pos t + room < kMaxCharPerLog then
        res_bind (snprintf_at (tmpBuffer t) (unat (pos t)) (unat (kMaxCharPerLog - pos t)) s)
          (\<lambda>(b, nbytes).
            Inr (if 0 < nbytes then t\<lparr>tmpBuffer := b, pos := pos t + of_int nbytes\<rparr>
                 else t\<lparr>tmpBuffer := b\<rparr>))
      else Inr t)"

definition fmt_ptr :: "nat \<Rightarrow> byte list" where
  "fmt_ptr v =
     (if v = 0 then pad_zero 18 (digits_of 16 v) else ''0x'' @ pad_zero 16 (digits_of 16 v))"

definition stream_ptr :: "uint \<Rightarrow> 64 word \<Rightarrow> Tls \<Rightarrow> Tls res" where
  "stream_ptr llevel a t = stream_fmt llevel 18 (fmt_ptr (unat a)) t"

definition stream_uchar :: "uint \<Rightarrow> 8 word \<Rightarrow> Tls \<Rightarrow> Tls res" where
  "stream_uchar llevel a t = stream_fmt llevel 3 (fmt_int (sint a)) t"

definition stream_char :: "uint \<Rightarrow> 8 word \<Rightarrow> Tls \<Rightarrow> Tls res" where
  "stream_char llevel a t = stream_fmt llevel 3 (fmt_int (uint a)) t"

definition stream_ushort :: "uint \<Rightarrow> 16 word \<Rightarrow> Tls \<Rightarrow> Tls res" where
  "stream_ushort llevel a t = stream_fmt llevel 5 (fmt_int (uint a)) t"

definition stream_short :: "uint \<Rightarrow> 16 word \<Rightarrow> Tls \<Rightarrow> Tls res" where
  "stream_short llevel a t = stream_fmt llevel 5 (fmt_int (sint a)) t"

definition stream_uint :: "uint \<Rightarrow> 32 word \<Rightarrow> Tls \<Rightarrow> Tls res" where
  "stream_uint llevel a t = stream_fmt llevel 10 (fmt_int (uint a)) t"

definition stream_int :: "uint \<Rightarrow> 32 word \<Rightarrow> Tls \<Rightarrow> Tls res" where
  "stream_int llevel a t = stream_fmt llevel 10 (fmt_int (sint a)) t"

definition stream_ulong :: "uint \<Rightarrow> 64 word \<Rightarrow> Tls \<Rightarrow> Tls res" where
  "stream_ulong llevel a t = stream_fmt llevel 20 (fmt_int (uint a)) t"

definition stream_long :: "uint \<Rightarrow> 64 word \<Rightarrow> Tls \<Rightarrow> Tls res" where
  "stream_long llevel a t = stream_fmt llevel 20 (fmt_int (sint a)) t"

definition stream_ulonglong :: "uint \<Rightarrow> 64 word \<Rightarrow> Tls \<Rightarrow> Tls res" where
  "stream_ulonglong llevel a t = stream_fmt llevel 20 (fmt_int (uint a)) t"

definition stream_longlong :: "uint \<Rightarrow> 64 word \<Rightarrow> Tls \<Rightarrow> Tls res" where
  "stream_longlong llevel a t = stream_fmt llevel 20 (fmt_int (sint a)) t"

text \<open>\<open>fmt_g\<close> stands for the C library's \<open>%.6g\<close>.\<close>

definition stream_double :: "('d \<Rightarrow> byte list) \<Rightarrow> uint \<Rightarrow> 'd \<Rightarrow> Tls \<Rightarrow> Tls res" where
  "stream_double fmt_g llevel a t = stream_fmt llevel 20 (fmt_g a) t"

section \<open>Finishing a line\<close>

definition level_tag :: "uint \<Rightarrow> byte list" where
  "level_tag level =
     take (unat kPrefixLevelLen)
       (if level = logINFO then ''[INFO]:''
        else if level = logDEBUG then ''[DBGUG]:''
        else if level = logWARN then ''[WARN]:''
        else if level = logERROR then ''[ERROR]:''
        else ''[???]:'')"

text \<open>The time prefix: the whole stamp in a new second, only the microseconds otherwise.\<close>

definition flush_time ::
  "(int \<Rightarrow> tm) \<Rightarrow> TimeStatics \<Rightarrow> Time \<Rightarrow> Tls \<Rightarrow> (TimeStatics \<times> Tls) res" where
  "flush_time lt st tp t =
     (let seconds = MilliSeconds tp sdiv 1000 in
      if seconds \<noteq> lastLogSecond t then
        res_bind (FormatTime lt st tp (tmpBuffer t)) (\<lambda>(st, _, b, _).
          Inr (st, t\<lparr>tmpBuffer := b, lastLogSecond := seconds\<rparr>))
      else
        let msec = MicroSeconds tp smod 1000000 in
        if msec \<noteq> lastLogMSecond t then
          res_bind (snprintf_at (tmpBuffer t) 20 7 (fmt_int0 6 msec)) (\<lambda>(b, _).
          res_bind (put_at b 26 '']'') (\<lambda>b.
            Inr (st, t\<lparr>tmpBuffer := b, lastLogMSecond := msec\<rparr>)))
        else Inr (st, t))"

text \<open>The thread id is formatted once per thread; \<open>tid_\<close> has 16 cells.\<close>

definition flush_tid :: "byte list \<Rightarrow> Tls \<Rightarrow> Tls res" where
  "flush_tid str t =
     (if tidLen t = 0 then
        let n = min (length str) 16 in
        res_bind (put_at (tid t) 0 ''|'') (\<lambda>b.
        res_bind (memcpy_at b 1 (map Some str) 0 n) (\<lambda>b.
          Inr (t\<lparr>tid := b, tidLen := int n + 1\<rparr>)))
      else Inr t)"

definition flush_tail :: "Tls \<Rightarrow> Tls res" where
  "flush_tail t =
     res_bind (memcpy_at (tmpBuffer t) (unat (pos t)) (tid t) 0 (nat (tidLen t))) (\<lambda>b.
       let p = pos t + of_int (tidLen t) in
       res_bind (put_at b (unat p) [CHR 0x0A]) (\<lambda>b.
       let p = p + 1 in
       res_bind (put_at b (unat p) [CHR 0x00]) (\<lambda>b.
         Inr (t\<lparr>tmpBuffer := b, pos := p\<rparr>))))"

text \<open>
  \<open>Flush\<close> up to the lock. The flag says whether a line is ready: \<open>False\<close> is one of the early
  returns (level forbidden, nothing logged).
\<close>

definition flush_format ::
  "(int \<Rightarrow> tm) \<Rightarrow> uint \<Rightarrow> uint \<Rightarrow> byte list \<Rightarrow> Time \<Rightarrow> TimeStatics \<Rightarrow> Tls \<Rightarrow>
   (bool \<times> TimeStatics \<times> Tls) res" where
  "flush_format lt llevel level str tp st t =
     check (level = curLevel t) AssertFail
       (if IsLevelForbid llevel (curLevel t) then Inr (False, st, log_Reset t)
        else if (level AND curLevel t) = 0 \<or> pos t < kPrefixTimeLen + kPrefixLevelLen
        then Inl AssertFail
        else if pos t = kPrefixTimeLen + kPrefixLevelLen then Inr (False, st, t)
        else
          res_bind (flush_time lt st tp t) (\<lambda>(st, t).
          res_bind (put_at (tmpBuffer t) (unat kPrefixTimeLen) (level_tag level)) (\<lambda>b.
          res_bind (flush_tid str (t\<lparr>tmpBuffer := b\<rparr>)) (\<lambda>t.
          res_bind (flush_tail t) (\<lambda>t. Inr (True, st, t))))))"

section \<open>Invariant and abstract value\<close>

definition tls_inv :: "Tls \<Rightarrow> bool" where
  "tls_inv t \<longleftrightarrow> length (tmpBuffer t) = 2048 \<and> 33 \<le> unat (pos t) \<and> unat (pos t) \<le> 2048 \<and>
     length (tid t) = 16 \<and> 0 \<le> tidLen t \<and> tidLen t \<le> 16"

definition body :: "Tls \<Rightarrow> cell list" where
  "body t = take (unat (pos t) - 33) (drop 33 (tmpBuffer t))"

definition prefix_time :: "Tls \<Rightarrow> cell list" where
  "prefix_time t = take 27 (tmpBuffer t)"

lemma log_consts [simp]:
  "unat kMaxCharPerLog = 2048" "unat kPrefixLevelLen = 6" "unat kPrefixTimeLen = 27"
  "kPrefixTimeLen + kPrefixLevelLen = 33" "kPrefixLevelLen + kPrefixTimeLen = 33"
  by (simp_all add: kMaxCharPerLog_def kPrefixLevelLen_def kPrefixTimeLen_def)

lemma tls_inv_start: "tls_inv Tls_start" "body Tls_start = []"
  by (simp_all add: tls_inv_def Tls_start_def body_def)

lemma tls_inv_Reset: "tls_inv t \<Longrightarrow> tls_inv (log_Reset t) \<and> body (log_Reset t) = []"
  by (simp add: tls_inv_def log_Reset_def body_def)

lemma tls_inv_SetCurLevel: "tls_inv (SetCurLevel l t) = tls_inv t" "body (SetCurLevel l t) = body t"
  by (simp_all add: tls_inv_def SetCurLevel_def body_def)

lemma length_body: "tls_inv t \<Longrightarrow> length (body t) = unat (pos t) - 33"
  by (auto simp: tls_inv_def body_def)

section \<open>Appending\<close>

lemma append_to_buffer:
  assumes inv: "tls_inv t" and fit: "unat (pos t) + length xs \<le> 2048"
  defines "t' \<equiv> t\<lparr>tmpBuffer := take (unat (pos t)) (tmpBuffer t) @ xs @
                              drop (unat (pos t) + length xs) (tmpBuffer t),
                  pos := pos t + of_nat (length xs)\<rparr>"
  shows "tls_inv t'" "body t' = body t @ xs"
proof -
  have n: "unat (of_nat (length xs) :: size_t) = length xs" using fit by (intro unat_of_nat64) simp
  then have p: "unat (pos t + of_nat (length xs)) = unat (pos t) + length xs"
    using fit by (simp add: unat_simps)
  show "tls_inv t'" using inv fit p by (simp add: tls_inv_def t'_def)
  show "body t' = body t @ xs"
    using inv fit p by (simp add: body_def t'_def tls_inv_def drop_take)
qed

lemma strlen_terminated:
  "CHR 0x00 \<notin> set s \<Longrightarrow> strlen (s @ CHR 0x00 # m) = Inr (length s)"
proof -
  assume s: "CHR 0x00 \<notin> set s"
  then have "takeWhile (\<lambda>c. c \<noteq> CHR 0x00) (s @ CHR 0x00 # m) =
      s @ takeWhile (\<lambda>c. c \<noteq> CHR 0x00) (CHR 0x00 # m)"
    by (intro takeWhile_append2) auto
  then show ?thesis by (simp add: strlen_def)
qed

lemma stream_cstr_appends:
  assumes inv: "tls_inv t" and ok: "\<not> IsLevelForbid llevel (curLevel t)"
    and s: "CHR 0x00 \<notin> set s" "length s < 2 ^ 63"
  shows "\<exists>t'. stream_cstr llevel (s @ CHR 0x00 # m) t = Inr t' \<and> tls_inv t' \<and>
    body t' = (if unat (pos t) + length s < 2048 then body t @ map Some s else body t)"
proof -
  have n: "unat (of_nat (length s) :: size_t) = length s" using s by (intro unat_of_nat64) simp
  have p: "unat (pos t) \<le> 2048" "length (tmpBuffer t) = 2048" using inv by (auto simp: tls_inv_def)
  have sum: "unat (pos t + of_nat (length s)) = unat (pos t) + length s"
    using n s(2) p(1) by (simp add: unat_simps)
  show ?thesis
  proof (cases "unat (pos t) + length s < 2048")
    case True
    then have "stream_cstr llevel (s @ CHR 0x00 # m) t =
        Inr (t\<lparr>tmpBuffer := take (unat (pos t)) (tmpBuffer t) @ map Some s @
                 drop (unat (pos t) + length (map Some s)) (tmpBuffer t),
               pos := pos t + of_nat (length (map Some s))\<rparr>)"
      using ok s p n sum by (simp add: stream_cstr_def strlen_terminated le64_iff Let_def)
    with True append_to_buffer [OF inv, of "map Some s"] show ?thesis by simp
  next
    case False
    with ok s sum inv show ?thesis by (simp add: stream_cstr_def strlen_terminated le64_iff Let_def)
  qed
qed

text \<open>
  The numeric overloads: when the guard lets the number in and its text is at most one character
  longer than the guard says, it is appended; the one character too many is the one that
  \<open>snprintf\<close> cuts off at the very end of the buffer.
\<close>

lemma stream_fmt_safe:
  assumes inv: "tls_inv t" and s: "s \<noteq> []" "length s \<le> unat room + 1" and room: "unat room < 2048"
  shows "\<exists>t'. stream_fmt llevel room s t = Inr t' \<and> tls_inv t' \<and>
    (if IsLevelForbid llevel (curLevel t) \<or> 2048 \<le> unat (pos t) + unat room then t' = t
     else if unat (pos t) + length s < 2048 then body t' = body t @ map Some s
     else unat (pos t') = 2048 \<and> body t' = body t @ map Some (butlast s) @ [Some (CHR 0x00)])"
proof -
  have p: "33 \<le> unat (pos t)" "unat (pos t) \<le> 2048" "length (tmpBuffer t) = 2048"
    using inv by (auto simp: tls_inv_def)
  have sum: "unat (pos t + room) = unat (pos t) + unat room" using p room by (simp add: unat_simps)
  show ?thesis
  proof (cases "IsLevelForbid llevel (curLevel t) \<or> 2048 \<le> unat (pos t) + unat room")
    case True
    with inv sum show ?thesis by (auto simp: stream_fmt_def less64_iff)
  next
    case False
    let ?n = "2048 - unat (pos t)"
    have left: "unat (kMaxCharPerLog - pos t) = ?n" using p by (simp add: unat_simps)
    let ?w = "map Some (take (?n - 1) s) @ [Some (CHR 0x00)]"
    have wn: "length ?w \<le> ?n" "?n \<noteq> 0" "length s \<le> ?n" using False p s by auto
    let ?b = "take (unat (pos t)) (tmpBuffer t) @ ?w @ drop (unat (pos t) + length ?w) (tmpBuffer t)"
    have sp: "snprintf_at (tmpBuffer t) (unat (pos t)) ?n s = Inr (?b, int (length s))"
      using wn p by (simp add: snprintf_at_def)
    let ?t = "t\<lparr>tmpBuffer := ?b, pos := pos t + of_nat (length s)\<rparr>"
    have res: "stream_fmt llevel room s t = Inr ?t"
      using False sum sp left s(1) by (simp add: stream_fmt_def less64_iff)
    have ps: "unat (pos ?t) = unat (pos t) + length s"
      using wn p by (simp add: unat_simps unat_of_nat64)
    have inv': "tls_inv ?t" using inv ps wn p by (simp add: tls_inv_def)
    show ?thesis
    proof (cases "unat (pos t) + length s < 2048")
      case True
      then have "take (?n - 1) s = s" using wn by simp
      then have "body ?t = body t @ map Some s"
        using ps p True unfolding body_def by (simp add: drop_take)
      with True False res inv' show ?thesis by auto
    next
      case fill: False
      then have n: "length s = ?n" using wn by simp
      then have bl: "take (?n - 1) s = butlast s" by (simp add: butlast_conv_take)
      have "length (butlast s) + 1 = ?n" using n s(1) wn by simp
      then have "body ?t = body t @ map Some (butlast s) @ [Some (CHR 0x00)]"
        using ps p n s(1) unfolding body_def bl by (simp add: drop_take)
      moreover have "unat (pos ?t) = 2048" using ps n p by simp
      ultimately show ?thesis using fill False res inv' by auto
    qed
  qed
qed

section \<open>The texts fit their guards\<close>

lemma length_fmt_int_le:
  assumes "- (10 ^ k) < z" "z < 10 ^ k" "0 < k"
  shows "length (fmt_int z) \<le> k + 1" and "0 \<le> z \<Longrightarrow> length (fmt_int z) \<le> k"
proof -
  have b: "(10::int) ^ k = int (10 ^ k)" by simp
  show "length (fmt_int z) \<le> k + 1"
  proof (cases "z < 0")
    case True
    then have "nat (- z) < 10 ^ k" using assms(1) b by linarith
    with True length_dec_nat_le [of "nat (- z)" k] assms(3) show ?thesis by (simp add: fmt_int_def)
  next
    case False
    then have "nat z < 10 ^ k" using assms(2) b by linarith
    with False length_dec_nat_le [of "nat z" k] assms(3) show ?thesis by (simp add: fmt_int_def)
  qed
  assume "0 \<le> z"
  then have "nat z < 10 ^ k" using assms(2) b by linarith
  with \<open>0 \<le> z\<close> length_dec_nat_le [of "nat z" k] assms(3) show "length (fmt_int z) \<le> k"
    by (simp add: fmt_int_def)
qed

lemma fmt_int_nonempty [simp]: "fmt_int z \<noteq> []"
  by (simp add: fmt_int_def dec_nat_def)

lemma sint_range: "- (2 ^ (LENGTH('a::len) - 1)) \<le> sint (w :: 'a word)" "sint (w :: 'a word) < 2 ^ (LENGTH('a) - 1)"
  using sint_ge [of w] sint_lt [of w] by simp_all

lemma fmt_int_widths:
  shows "length (fmt_int (sint (a :: 8 word))) \<le> 4" "length (fmt_int (uint (a :: 8 word))) \<le> 3"
    "length (fmt_int (sint (b :: 16 word))) \<le> 6" "length (fmt_int (uint (b :: 16 word))) \<le> 5"
    "length (fmt_int (sint (c :: 32 word))) \<le> 11" "length (fmt_int (uint (c :: 32 word))) \<le> 10"
    "length (fmt_int (sint (d :: 64 word))) \<le> 20" "length (fmt_int (uint (d :: 64 word))) \<le> 20"
proof -
  show "length (fmt_int (sint a)) \<le> 4"
    using length_fmt_int_le(1) [of 3 "sint a"] sint_range [of a] by simp
  show "length (fmt_int (uint a)) \<le> 3"
    using length_fmt_int_le(2) [of 3 "uint a"] uint_bounded [of a] by simp
  show "length (fmt_int (sint b)) \<le> 6"
    using length_fmt_int_le(1) [of 5 "sint b"] sint_range [of b] by simp
  show "length (fmt_int (uint b)) \<le> 5"
    using length_fmt_int_le(2) [of 5 "uint b"] uint_bounded [of b] by simp
  show "length (fmt_int (sint c)) \<le> 11"
    using length_fmt_int_le(1) [of 10 "sint c"] sint_range [of c] by simp
  show "length (fmt_int (uint c)) \<le> 10"
    using length_fmt_int_le(2) [of 10 "uint c"] uint_bounded [of c] by simp
  show "length (fmt_int (sint d)) \<le> 20"
    using length_fmt_int_le(1) [of 19 "sint d"] sint_range [of d] by simp
  show "length (fmt_int (uint d)) \<le> 20"
    using length_fmt_int_le(2) [of 20 "uint d"] uint_bounded [of d] by simp
qed

lemma length_fmt_ptr: "v < 2 ^ 64 \<Longrightarrow> length (fmt_ptr v) = 18"
proof -
  assume "v < 2 ^ 64"
  then have "v < 16 ^ 16" by simp
  then have "length (digits_of 16 v) \<le> 16" by (intro length_digits_of_le) auto
  moreover have "length (digits_of 16 0) \<le> 18" using length_digits_of_le [of 16 0 16] by simp
  ultimately show ?thesis by (simp add: fmt_ptr_def pad_zero_def)
qed

text \<open>
  Every overload, whatever the value, keeps the invariant: no write leaves the line buffer. The
  precondition of the double is that \<open>%.6g\<close> prints at most 21 characters, as it does.
\<close>

lemma stream_ops_safe:
  assumes inv: "tls_inv t"
  shows "\<exists>t'. stream_ptr llevel p t = Inr t' \<and> tls_inv t'"
    "\<exists>t'. stream_uchar llevel a t = Inr t' \<and> tls_inv t'"
    "\<exists>t'. stream_char llevel a t = Inr t' \<and> tls_inv t'"
    "\<exists>t'. stream_ushort llevel b t = Inr t' \<and> tls_inv t'"
    "\<exists>t'. stream_short llevel b t = Inr t' \<and> tls_inv t'"
    "\<exists>t'. stream_uint llevel c t = Inr t' \<and> tls_inv t'"
    "\<exists>t'. stream_int llevel c t = Inr t' \<and> tls_inv t'"
    "\<exists>t'. stream_ulong llevel d t = Inr t' \<and> tls_inv t'"
    "\<exists>t'. stream_long llevel d t = Inr t' \<and> tls_inv t'"
    "\<exists>t'. stream_ulonglong llevel d t = Inr t' \<and> tls_inv t'"
    "\<exists>t'. stream_longlong llevel d t = Inr t' \<and> tls_inv t'"
    "fmt_g x \<noteq> [] \<Longrightarrow> length (fmt_g x) \<le> 21 \<Longrightarrow> \<exists>t'. stream_double fmt_g llevel x t = Inr t' \<and> tls_inv t'"
proof -
  have key: "\<exists>t'. stream_fmt llevel room s t = Inr t' \<and> tls_inv t'"
    if "s \<noteq> []" "length s \<le> unat room + 1" "unat room < 2048" for room s
    using stream_fmt_safe [OF inv that] by blast
  have ptr: "length (fmt_ptr (unat p)) = 18"
    using unat_bound64 [of p] by (intro length_fmt_ptr) simp
  then have "fmt_ptr (unat p) \<noteq> []" by auto
  with ptr show "\<exists>t'. stream_ptr llevel p t = Inr t' \<and> tls_inv t'"
    unfolding stream_ptr_def by (intro key) auto
  note w = fmt_int_widths
  show "\<exists>t'. stream_uchar llevel a t = Inr t' \<and> tls_inv t'"
    unfolding stream_uchar_def by (intro key) (use w(1) [of a] in auto)
  show "\<exists>t'. stream_char llevel a t = Inr t' \<and> tls_inv t'"
    unfolding stream_char_def by (intro key) (use w(2) [of a] in auto)
  show "\<exists>t'. stream_ushort llevel b t = Inr t' \<and> tls_inv t'"
    unfolding stream_ushort_def by (intro key) (use w(4) [of b] in auto)
  show "\<exists>t'. stream_short llevel b t = Inr t' \<and> tls_inv t'"
    unfolding stream_short_def by (intro key) (use w(3) [of b] in auto)
  show "\<exists>t'. stream_uint llevel c t = Inr t' \<and> tls_inv t'"
    unfolding stream_uint_def by (intro key) (use w(6) [of c] in auto)
  show "\<exists>t'. stream_int llevel c t = Inr t' \<and> tls_inv t'"
    unfolding stream_int_def by (intro key) (use w(5) [of c] in auto)
  show "\<exists>t'. stream_ulong llevel d t = Inr t' \<and> tls_inv t'"
    unfolding stream_ulong_def by (intro key) (use w(8) [of d] in auto)
  show "\<exists>t'. stream_long llevel d t = Inr t' \<and> tls_inv t'"
    unfolding stream_long_def by (intro key) (use w(7) [of d] in auto)
  show "\<exists>t'. stream_ulonglong llevel d t = Inr t' \<and> tls_inv t'"
    unfolding stream_ulonglong_def by (intro key) (use w(8) [of d] in auto)
  show "\<exists>t'. stream_longlong llevel d t = Inr t' \<and> tls_inv t'"
    unfolding stream_longlong_def by (intro key) (use w(7) [of d] in auto)
  show "fmt_g x \<noteq> [] \<Longrightarrow> length (fmt_g x) \<le> 21 \<Longrightarrow>
      \<exists>t'. stream_double fmt_g llevel x t = Inr t' \<and> tls_inv t'"
    unfolding stream_double_def by (intro key) auto
qed

section \<open>The finished line\<close>

definition tid_text :: "byte list \<Rightarrow> Tls \<Rightarrow> cell list" where
  "tid_text str t =
     (if tidLen t = 0 then map Some (''|'' @ str) else take (nat (tidLen t)) (tid t))"

lemma length_level_tag [simp]: "length (level_tag l) = 6"
  by (simp add: level_tag_def)

lemma flush_tid_ok:
  assumes inv: "tls_inv t" and str: "tidLen t = 0 \<longrightarrow> length str \<le> 15"
  shows "\<exists>b n. flush_tid str t = Inr (t\<lparr>tid := b, tidLen := n\<rparr>) \<and> length b = 16 \<and>
    1 \<le> n \<and> n \<le> 16 \<and> take (nat n) b = tid_text str t"
proof (cases "tidLen t = 0")
  case True
  have len: "length (tid t) = 16" using inv by (simp add: tls_inv_def)
  let ?b = "Some (CHR ''|'') # map Some str @ drop (Suc (length str)) (tid t)"
  have "flush_tid str t = Inr (t\<lparr>tid := ?b, tidLen := int (length str) + 1\<rparr>)"
    using True str len by (simp add: flush_tid_def Let_def min_def)
  moreover have "take (nat (int (length str) + 1)) ?b = tid_text str t"
    using True by (simp add: tid_text_def nat_add_distrib)
  ultimately show ?thesis using str True len
    by (intro exI [of _ ?b] exI [of _ "int (length str) + 1"]) simp
next
  case False
  with inv show ?thesis
    by (intro exI [of _ "tid t"] exI [of _ "tidLen t"]) (auto simp: flush_tid_def tid_text_def tls_inv_def)
qed

text \<open>One character more than the 16 cells hold is written for a long thread id.\<close>

lemma flush_tid_overflow:
  "tls_inv t \<Longrightarrow> tidLen t = 0 \<Longrightarrow> 16 \<le> length str \<Longrightarrow> flush_tid str t = Inl OutOfBounds"
  by (simp add: flush_tid_def tls_inv_def Let_def memcpy_at_out)

lemma flush_tail_ok:
  assumes len: "length (tmpBuffer t) = 2048" "length (tid t) = 16" and n: "1 \<le> tidLen t" "tidLen t \<le> 16"
    and fit: "unat (pos t) + nat (tidLen t) + 2 \<le> 2048"
  defines "p \<equiv> unat (pos t)" and "k \<equiv> nat (tidLen t)"
  shows "flush_tail t =
    Inr (t\<lparr>tmpBuffer := take p (tmpBuffer t) @ take k (tid t) @ Some (CHR 0x0A) # Some (CHR 0x00) #
                         drop (p + k + 2) (tmpBuffer t),
           pos := of_nat (p + k + 1)\<rparr>)"
proof -
  have oi: "(of_int (tidLen t) :: size_t) = of_nat k" using n by (simp add: k_def)
  have p: "pos t = of_nat p" by (simp add: p_def)
  have q: "unat (of_nat (p + k) :: size_t) = p + k" "unat (of_nat (p + k + 1) :: size_t) = p + k + 1"
    using fit by (intro unat_of_nat64; simp add: p_def k_def)+
  have 1: "memcpy_at (tmpBuffer t) p (tid t) 0 k =
      Inr ((take p (tmpBuffer t) @ take k (tid t)) @ drop (p + k) (tmpBuffer t))"
    using len n fit by (simp add: p_def k_def)
  let ?P = "take p (tmpBuffer t) @ take k (tid t)"
  have lP: "length ?P = p + k" using len n fit by (simp add: p_def k_def)
  have 2: "put_at (?P @ drop (p + k) (tmpBuffer t)) (p + k) [CHR 0x0A] =
      Inr ((?P @ [Some (CHR 0x0A)]) @ drop (p + k + 1) (tmpBuffer t))"
    using put_at_append [of "[CHR 0x0A]" "drop (p + k) (tmpBuffer t)" ?P] lP len fit
    by (simp add: p_def k_def)
  have 3: "put_at ((?P @ [Some (CHR 0x0A)]) @ drop (p + k + 1) (tmpBuffer t)) (p + k + 1) [CHR 0x00] =
      Inr (((?P @ [Some (CHR 0x0A)]) @ [Some (CHR 0x00)]) @ drop (p + k + 2) (tmpBuffer t))"
    using put_at_append [of "[CHR 0x00]" "drop (p + k + 1) (tmpBuffer t)" "?P @ [Some (CHR 0x0A)]"] lP len fit
    by (simp add: p_def k_def)
  have s1: "pos t + of_nat k = (of_nat (p + k) :: size_t)" using p by simp
  have s2: "(of_nat (p + k) :: size_t) + 1 = of_nat (p + k + 1)" by simp
  show ?thesis
    unfolding flush_tail_def Let_def oi s1 s2 q p_def [symmetric] k_def [symmetric]
    by (simp only: 1 2 3 res_bind_simps) simp
qed

lemma flush_tail_overflow:
  assumes len: "length (tmpBuffer t) = 2048" "length (tid t) = 16" and n: "1 \<le> tidLen t" "tidLen t \<le> 16"
    and p: "unat (pos t) \<le> 2048" and over: "2048 < unat (pos t) + nat (tidLen t) + 2"
  shows "flush_tail t = Inl OutOfBounds"
proof -
  let ?p = "unat (pos t)" and ?k = "nat (tidLen t)"
  have oi: "(of_int (tidLen t) :: size_t) = of_nat ?k" using n by simp
  have k: "unat (of_nat ?k :: size_t) = ?k" using n by (intro unat_of_nat64) simp
  have q: "unat (pos t + of_nat ?k) = ?p + ?k" "unat (pos t + of_nat ?k + 1) = ?p + ?k + 1"
    using p n k by (simp_all add: unat_simps)
  show ?thesis
  proof (cases "2048 < ?p + ?k")
    case True
    then show ?thesis using len by (simp add: flush_tail_def memcpy_at_out)
  next
    case False
    then obtain b where b: "memcpy_at (tmpBuffer t) ?p (tid t) 0 ?k = Inr b" "length b = 2048"
      using len n by simp
    show ?thesis
    proof (cases "?p + ?k = 2048")
      case True
      with b show ?thesis unfolding flush_tail_def Let_def oi q by (simp add: put_at_out)
    next
      case ne: False
      then have eq: "?p + ?k = 2047" using False over by simp
      then obtain b' where "put_at b (?p + ?k) [CHR 0x0A] = Inr b'" "length b' = 2048"
        using b(2) by simp
      with b eq show ?thesis unfolding flush_tail_def Let_def oi q by (simp add: put_at_out)
    qed
  qed
qed

text \<open>
  The rest of \<open>Flush\<close> after the time stamp: level tag, thread id and line end around the body.
  \<open>line_fits\<close> is the exact condition under which the tail stays in the buffer.
\<close>

definition line_fits :: "byte list \<Rightarrow> Tls \<Rightarrow> bool" where
  "line_fits str t \<longleftrightarrow> (tidLen t = 0 \<longrightarrow> length str \<le> 15) \<and>
     unat (pos t) + length (tid_text str t) + 2 \<le> 2048"

definition ready :: "uint \<Rightarrow> uint \<Rightarrow> Tls \<Rightarrow> bool" where
  "ready llevel level t \<longleftrightarrow> level = curLevel t \<and> \<not> IsLevelForbid llevel level \<and> level \<noteq> 0 \<and>
     33 < unat (pos t)"

lemma flush_format_ready:
  assumes "ready llevel level t"
  shows "flush_format lt llevel level str tp st t =
     res_bind (flush_time lt st tp t) (\<lambda>(st, t).
     res_bind (put_at (tmpBuffer t) (unat kPrefixTimeLen) (level_tag level)) (\<lambda>b.
     res_bind (flush_tid str (t\<lparr>tmpBuffer := b\<rparr>)) (\<lambda>t.
     res_bind (flush_tail t) (\<lambda>t. Inr (True, st, t)))))"
proof -
  have "\<not> pos t < 33" "pos t \<noteq> 33" using assms by (auto simp: ready_def less64_iff)
  with assms show ?thesis by (auto simp: flush_format_def ready_def)
qed

definition same_line :: "Tls \<Rightarrow> Tls \<Rightarrow> bool" where
  "same_line t t' \<longleftrightarrow> length (tmpBuffer t') = length (tmpBuffer t) \<and>
     drop 28 (tmpBuffer t') = drop 28 (tmpBuffer t) \<and> pos t' = pos t \<and> curLevel t' = curLevel t \<and>
     tid t' = tid t \<and> tidLen t' = tidLen t"

lemma drop33_same:
  assumes "same_line t t'"
  shows "drop 33 (tmpBuffer t') = drop 33 (tmpBuffer t)"
proof -
  have "drop 5 (drop 28 (tmpBuffer t')) = drop 5 (drop 28 (tmpBuffer t))"
    using assms by (simp add: same_line_def)
  then show ?thesis by simp
qed

lemma body_same: "same_line t t' \<Longrightarrow> body t' = body t"
  using drop33_same [of t t'] by (simp add: body_def same_line_def)

lemma flush_finish:
  assumes inv: "tls_inv t" and ready: "ready llevel level t" and fits: "line_fits str t"
    and time: "flush_time lt st tp t = Inr (st', t1)" "same_line t t1"
  shows "\<exists>t'. flush_format lt llevel level str tp st t = Inr (True, st', t') \<and> tls_inv t' \<and>
    take (unat (pos t')) (tmpBuffer t') =
      prefix_time t1 @ map Some (level_tag level) @ body t @ tid_text str t @ [Some (CHR 0x0A)] \<and>
    unat (pos t') = unat (pos t) + length (tid_text str t) + 1 \<and>
    tmpBuffer t' ! unat (pos t') = Some (CHR 0x00) \<and>
    lastLogSecond t' = lastLogSecond t1 \<and> lastLogMSecond t' = lastLogMSecond t1 \<and>
    curLevel t' = curLevel t"
proof -
  have len: "length (tmpBuffer t1) = 2048" and p33: "33 < unat (pos t)" "unat (pos t) \<le> 2048"
    using inv time(2) ready by (auto simp: tls_inv_def same_line_def ready_def)
  let ?tag = "map Some (level_tag level)"
  obtain b where tag: "put_at (tmpBuffer t1) 27 (level_tag level) = Inr b" and lenb: "length b = 2048"
    and tb: "take (unat (pos t)) b = prefix_time t1 @ ?tag @ body t"
    using len p33 drop33_same [OF time(2)] time(2)
    by (simp add: body_def prefix_time_def same_line_def)
  let ?t2 = "t1\<lparr>tmpBuffer := b\<rparr>"
  have inv2: "tls_inv ?t2" using inv time(2) lenb by (simp add: tls_inv_def same_line_def)
  have "tidLen t = 0 \<longrightarrow> length str \<le> 15" using fits by (simp add: line_fits_def)
  then have "tidLen ?t2 = 0 \<longrightarrow> length str \<le> 15" using time(2) by (simp add: same_line_def)
  moreover have tt: "tid_text str ?t2 = tid_text str t"
    using time(2) by (simp add: tid_text_def same_line_def)
  ultimately obtain td n where
    td: "flush_tid str ?t2 = Inr (?t2\<lparr>tid := td, tidLen := n\<rparr>)" "length td = 16" "1 \<le> n" "n \<le> 16"
      "take (nat n) td = tid_text str t" using flush_tid_ok [OF inv2] by metis
  have "length (take (nat n) td) = nat n" using td(2,4) by simp
  then have k: "nat n = length (tid_text str t)" unfolding td(5) by simp
  let ?t3 = "?t2\<lparr>tid := td, tidLen := n\<rparr>"
  let ?p = "unat (pos t)" and ?k = "nat n"
  have fit: "?p + ?k + 2 \<le> 2048" using fits k by (simp add: line_fits_def)
  have p3: "pos ?t3 = pos t" using time(2) by (simp add: same_line_def)
  let ?buf = "take ?p b @ tid_text str t @ Some (CHR 0x0A) # Some (CHR 0x00) # drop (?p + ?k + 2) b"
  let ?t4 = "?t3\<lparr>tmpBuffer := ?buf, pos := of_nat (?p + ?k + 1)\<rparr>"
  have tail: "flush_tail ?t3 = Inr ?t4"
    using flush_tail_ok [of ?t3] lenb td fit p3 by simp
  have up: "unat (of_nat (?p + ?k + 1) :: size_t) = ?p + ?k + 1"
    using fit by (intro unat_of_nat64) simp
  have lb: "length (take ?p b) = ?p" using lenb p33 by simp
  have lbuf: "length ?buf = 2048" using lenb p33 fit unfolding k by simp
  have "flush_format lt llevel level str tp st t = Inr (True, st', ?t4)"
    using tag td(1) tail by (simp add: flush_format_ready [OF ready] time(1))
  moreover have "tls_inv ?t4" using up fit td lbuf p33 unfolding tls_inv_def by simp
  moreover have upos: "unat (pos ?t4) = ?p + length (tid_text str t) + 1"
    using up k by simp
  moreover have "take (unat (pos ?t4)) (tmpBuffer ?t4) =
      take ?p b @ tid_text str t @ [Some (CHR 0x0A)]"
    using lb unfolding upos by simp
  then have "take (unat (pos ?t4)) (tmpBuffer ?t4) =
      prefix_time t1 @ ?tag @ body t @ tid_text str t @ [Some (CHR 0x0A)]"
    unfolding tb by simp
  moreover have "tmpBuffer ?t4 ! unat (pos ?t4) = Some (CHR 0x00)"
    using lb unfolding upos by (simp add: nth_append)
  ultimately show ?thesis using time(2) by (intro exI [of _ ?t4]) (simp add: same_line_def)
qed

section \<open>The time stamp of a line\<close>

lemma flush_time_new_second:
  fixes tp :: Time and lt :: "int \<Rightarrow> tm"
  assumes inv: "tls_inv t" and st: "statics_ok st" and m: "tm_ok (tmv (UpdateTm lt tp))" "0 \<le> now tp"
    and new: "MilliSeconds tp sdiv 1000 \<noteq> lastLogSecond t"
  shows "\<exists>t1. flush_time lt st tp t = Inr (call_once_Init st, t1) \<and> same_line t t1 \<and>
    prefix_time t1 = map Some (stamp_text (tmv (UpdateTm lt tp)) (MicroSeconds tp mod 1000000)) \<and>
    lastLogSecond t1 = MilliSeconds tp sdiv 1000 \<and> lastLogMSecond t1 = lastLogMSecond t"
proof -
  have len: "length (tmpBuffer t) = 2048" using inv by (simp add: tls_inv_def)
  let ?s = "map Some (stamp_text (tmv (UpdateTm lt tp)) (MicroSeconds tp mod 1000000)) :: cell list"
  have ls: "length ?s = 27" using length_stamp_text [OF m(1), of "MicroSeconds tp mod 1000000"] by simp
  have "FormatTime lt st tp (tmpBuffer t) =
      Inr (call_once_Init st, UpdateTm lt tp, ?s @ Some (CHR 0x00) # drop 28 (tmpBuffer t), 27)"
    using len by (intro FormatTime_writes st m) simp
  with new ls len show ?thesis
    by (simp add: flush_time_def Let_def same_line_def prefix_time_def)
qed

lemma flush_time_same_second:
  fixes tp :: Time
  assumes inv: "tls_inv t" and now: "0 \<le> now tp"
    and same: "MilliSeconds tp sdiv 1000 = lastLogSecond t"
    and new: "MicroSeconds tp smod 1000000 \<noteq> lastLogMSecond t"
  shows "\<exists>t1. flush_time lt st tp t = Inr (st, t1) \<and> same_line t t1 \<and>
    prefix_time t1 = take 20 (tmpBuffer t) @
      map Some (fmt_int0 6 (MicroSeconds tp mod 1000000) @ '']'') \<and>
    lastLogSecond t1 = lastLogSecond t \<and> lastLogMSecond t1 = MicroSeconds tp mod 1000000"
proof -
  have len: "length (tmpBuffer t) = 2048" using inv by (simp add: tls_inv_def)
  have "0 \<le> MicroSeconds tp" using now
    by (cases "now tp = 0") (simp_all add: MicroSeconds_def signed_divide_int_def pos_imp_zdiv_nonneg_iff)
  then have smod: "MicroSeconds tp smod 1000000 = MicroSeconds tp mod 1000000"
    by (simp add: smod_mod_positive)
  let ?u = "map Some (fmt_int0 6 (MicroSeconds tp mod 1000000)) :: cell list"
  have lu: "length ?u = 6" by simp
  let ?P = "take 20 (tmpBuffer t)"
  have lP: "length ?P = 20" using len by simp
  have 1: "snprintf_at (tmpBuffer t) 20 7 (fmt_int0 6 (MicroSeconds tp mod 1000000)) =
      Inr ((?P @ ?u) @ [Some (CHR 0x00)] @ drop 27 (tmpBuffer t), 6)"
    using lu len by (simp add: snprintf_at_def)
  have 2: "put_at ((?P @ ?u) @ [Some (CHR 0x00)] @ drop 27 (tmpBuffer t)) 26 '']'' =
      Inr ((?P @ ?u @ map Some '']'') @ drop 27 (tmpBuffer t))"
    using put_at_append [of "'']''" "[Some (CHR 0x00)] @ drop 27 (tmpBuffer t)" "?P @ ?u"] lP lu
    by simp
  have "flush_time lt st tp t =
      Inr (st, t\<lparr>tmpBuffer := (?P @ ?u @ map Some '']'') @ drop 27 (tmpBuffer t),
                 lastLogMSecond := MicroSeconds tp mod 1000000\<rparr>)"
    using same new 1 2 unfolding flush_time_def Let_def smod by simp
  then show ?thesis using lP lu len by (simp add: same_line_def prefix_time_def)
qed

text \<open>
  When the microseconds equal \<open>lastLogMSecond_\<close> nothing is rewritten. But that member is only
  updated within a second, not when a new second's stamp is formatted: the stamp left in the
  buffer can then be another one.
\<close>

lemma flush_time_unchanged:
  "MilliSeconds tp sdiv 1000 = lastLogSecond t \<Longrightarrow>
   MicroSeconds tp smod 1000000 = lastLogMSecond t \<Longrightarrow> flush_time lt st tp t = Inr (st, t)"
  by (simp add: flush_time_def)

section \<open>A statement of several operands\<close>

text \<open>\<open>LOG_INFO(log) << a << b << ...\<close> as a list of operands; doubles come already formatted.\<close>

datatype log_arg =
    ACstr "byte list" | AStr "byte list" | APtr "64 word"
  | AUchar "8 word" | AChar "8 word" | AUshort "16 word" | AShort "16 word"
  | AUint "32 word" | AInt "32 word" | AUlong "64 word" | ALong "64 word"
  | AUlonglong "64 word" | ALonglong "64 word" | ADouble "byte list"

fun stream_arg :: "uint \<Rightarrow> log_arg \<Rightarrow> Tls \<Rightarrow> Tls res" where
  "stream_arg llevel (ACstr s) = stream_cstr llevel (s @ [CHR 0x00])"
| "stream_arg llevel (AStr s) = stream_string llevel s"
| "stream_arg llevel (APtr a) = stream_ptr llevel a"
| "stream_arg llevel (AUchar a) = stream_uchar llevel a"
| "stream_arg llevel (AChar a) = stream_char llevel a"
| "stream_arg llevel (AUshort a) = stream_ushort llevel a"
| "stream_arg llevel (AShort a) = stream_short llevel a"
| "stream_arg llevel (AUint a) = stream_uint llevel a"
| "stream_arg llevel (AInt a) = stream_int llevel a"
| "stream_arg llevel (AUlong a) = stream_ulong llevel a"
| "stream_arg llevel (ALong a) = stream_long llevel a"
| "stream_arg llevel (AUlonglong a) = stream_ulonglong llevel a"
| "stream_arg llevel (ALonglong a) = stream_longlong llevel a"
| "stream_arg llevel (ADouble s) = stream_double (\<lambda>s. s) llevel s"

fun arg_text :: "log_arg \<Rightarrow> byte list" where
  "arg_text (ACstr s) = s"
| "arg_text (AStr s) = s"
| "arg_text (APtr a) = fmt_ptr (unat a)"
| "arg_text (AUchar a) = fmt_int (sint a)"
| "arg_text (AChar a) = fmt_int (uint a)"
| "arg_text (AUshort a) = fmt_int (uint a)"
| "arg_text (AShort a) = fmt_int (sint a)"
| "arg_text (AUint a) = fmt_int (uint a)"
| "arg_text (AInt a) = fmt_int (sint a)"
| "arg_text (AUlong a) = fmt_int (uint a)"
| "arg_text (ALong a) = fmt_int (sint a)"
| "arg_text (AUlonglong a) = fmt_int (uint a)"
| "arg_text (ALonglong a) = fmt_int (sint a)"
| "arg_text (ADouble s) = s"

fun arg_ok :: "log_arg \<Rightarrow> bool" where
  "arg_ok (ACstr s) = (CHR 0x00 \<notin> set s)"
| "arg_ok (AStr s) = (CHR 0x00 \<notin> set s)"
| "arg_ok (ADouble s) = (s \<noteq> [] \<and> length s \<le> 21)"
| "arg_ok _ = True"

lemma stream_fmt_appends:
  assumes "tls_inv t" "s \<noteq> []" "length s \<le> unat room + 1" "unat room \<le> 20"
    and "\<not> IsLevelForbid llevel (curLevel t)" "unat (pos t) + length s + 20 < 2048"
  shows "\<exists>t'. stream_fmt llevel room s t = Inr t' \<and> tls_inv t' \<and> body t' = body t @ map Some s \<and>
    curLevel t' = curLevel t"
proof -
  from stream_fmt_safe [OF assms(1-3), of llevel] assms(4-6) obtain t' where
    t': "stream_fmt llevel room s t = Inr t'" "tls_inv t'" "body t' = body t @ map Some s" by auto
  moreover from t'(1) have "curLevel t' = curLevel t"
    by (auto simp: stream_fmt_def res_bind_Inr split: if_splits)
  ultimately show ?thesis by blast
qed

lemma stream_arg_appends:
  assumes inv: "tls_inv t" and ok: "arg_ok a" and lv: "\<not> IsLevelForbid llevel (curLevel t)"
    and room: "unat (pos t) + length (arg_text a) + 20 < 2048"
  shows "\<exists>t'. stream_arg llevel a t = Inr t' \<and> tls_inv t' \<and>
    body t' = body t @ map Some (arg_text a) \<and> curLevel t' = curLevel t"
proof -
  note fmt = stream_fmt_appends [OF inv _ _ _ lv]
  have cstr: "\<exists>t'. stream_cstr llevel (s @ [CHR 0x00]) t = Inr t' \<and> tls_inv t' \<and>
      body t' = body t @ map Some s \<and> curLevel t' = curLevel t"
    if s: "CHR 0x00 \<notin> set s" "unat (pos t) + length s + 20 < 2048" for s
  proof -
    from stream_cstr_appends [OF inv lv, of s "[]"] s obtain t' where
      t': "stream_cstr llevel (s @ [CHR 0x00]) t = Inr t'" "tls_inv t'" "body t' = body t @ map Some s"
      by auto
    moreover from t'(1) have "curLevel t' = curLevel t"
      by (auto simp: stream_cstr_def res_bind_Inr Let_def split: if_splits)
    ultimately show ?thesis by blast
  qed
  show ?thesis
  proof (cases a)
    case (APtr p)
    have "length (fmt_ptr (unat p)) = 18"
      using unat_bound64 [of p] by (intro length_fmt_ptr) simp
    moreover from this have "fmt_ptr (unat p) \<noteq> []" by auto
    ultimately show ?thesis using room APtr unfolding APtr stream_arg.simps stream_ptr_def arg_text.simps
      by (intro fmt) auto
  qed (use ok room cstr in \<open>auto simp: stream_string_def stream_uchar_def stream_char_def
    stream_ushort_def stream_short_def stream_uint_def stream_int_def stream_ulong_def
    stream_long_def stream_ulonglong_def stream_longlong_def stream_double_def
    intro!: fmt fmt_int_widths [THEN le_trans]\<close>)
qed

text \<open>All operands of a statement that fits end up in the line, in order.\<close>

lemma stream_args_append:
  assumes "tls_inv t" "list_all arg_ok args" "\<not> IsLevelForbid llevel (curLevel t)"
    and "unat (pos t) + length (concat (map arg_text args)) + 20 < 2048"
  shows "\<exists>t'. res_fold (stream_arg llevel) args t = Inr t' \<and> tls_inv t' \<and>
    body t' = body t @ map Some (concat (map arg_text args)) \<and> curLevel t' = curLevel t"
  using assms
proof (induction args arbitrary: t)
  case Nil
  then show ?case by simp
next
  case (Cons a args)
  then obtain t1 where t1: "stream_arg llevel a t = Inr t1" "tls_inv t1"
    "body t1 = body t @ map Some (arg_text a)" "curLevel t1 = curLevel t"
    using stream_arg_appends [of t a llevel] by auto
  have "33 \<le> unat (pos t)" "33 \<le> unat (pos t1)" using Cons.prems(1) t1(2) by (auto simp: tls_inv_def)
  moreover have "unat (pos t1) - 33 = unat (pos t) - 33 + length (arg_text a)"
    using length_body [OF Cons.prems(1)] length_body [OF t1(2)] t1(3) by simp
  ultimately have "unat (pos t1) = unat (pos t) + length (arg_text a)" by simp
  with t1 Cons.prems Cons.IH [of t1] show ?case by auto
qed

section \<open>Safety of the overloads\<close>

fun arg_small :: "log_arg \<Rightarrow> bool" where
  "arg_small (ACstr s) = (length s < 2 ^ 63)"
| "arg_small (AStr s) = (length s < 2 ^ 63)"
| "arg_small (ADouble s) = (s \<noteq> [] \<and> length s \<le> 21)"
| "arg_small _ = True"

lemma first_terminator:
  "s @ [CHR 0x00] = takeWhile (\<lambda>c. c \<noteq> CHR 0x00) s @ CHR 0x00 # drop (Suc (length (takeWhile (\<lambda>c. c \<noteq> CHR 0x00) s))) (s @ [CHR 0x00])"
  by (induction s) auto

lemma stream_cstr_safe:
  assumes "tls_inv t" "length s < 2 ^ 63"
  shows "\<exists>t'. stream_cstr lv (s @ [CHR 0x00]) t = Inr t' \<and> tls_inv t'"
proof (cases "IsLevelForbid lv (curLevel t)")
  case True
  with assms show ?thesis by (simp add: stream_cstr_def)
next
  case False
  let ?s = "takeWhile (\<lambda>c. c \<noteq> CHR 0x00) s"
  have "CHR 0x00 \<notin> set ?s" by (auto dest: set_takeWhileD)
  moreover have "length ?s < 2 ^ 63" using assms(2) length_takeWhile_le [of "\<lambda>c. c \<noteq> CHR 0x00" s] by linarith
  ultimately show ?thesis
    using stream_cstr_appends [OF assms(1) False] by (subst first_terminator) blast
qed

text \<open>C27: However many operands of whatever type and value are streamed into a line, no write
  leaves the line buffer and the thread's state stays well formed.\<close>

theorem stream_args_safe:
  assumes "tls_inv t" "list_all arg_small args"
  shows "\<exists>t'. res_fold (stream_arg lv) args t = Inr t' \<and> tls_inv t'"
  using assms
proof (induction args arbitrary: t)
  case (Cons a args)
  have "\<exists>t1. stream_arg lv a t = Inr t1 \<and> tls_inv t1"
    using Cons.prems stream_ops_safe(1-11) [OF Cons.prems(1)] stream_cstr_safe [OF Cons.prems(1)]
      stream_ops_safe(12) [OF Cons.prems(1), where fmt_g = "\<lambda>s. s"]
    by (cases a) (simp_all add: stream_string_def)
  with Cons.IH Cons.prems show ?case by fastforce
qed simp

theorem stream_args_safe_witness:
  "\<exists>t'. res_fold (stream_arg 3) (replicate 1000 (AInt (- 1))) (SetCurLevel 1 Tls_start) = Inr t' \<and> tls_inv t'"
  by (rule stream_args_safe) (simp_all add: tls_inv_SetCurLevel tls_inv_start list_all_iff)

section \<open>Where the code falls short\<close>

text \<open>The first line of a new second writes the whole stamp but does not note its
  microseconds. A later line of that second whose microseconds are the ones noted before keeps
  the stamp it finds, which is the wrong one.\<close>

theorem flush_time_stale:
  fixes tp tp2 :: Time
  assumes inv: "tls_inv t" and st: "statics_ok st" and m: "tm_ok (tmv (UpdateTm lt tp))" "0 \<le> now tp"
    and new: "MilliSeconds tp sdiv 1000 \<noteq> lastLogSecond t"
    and same: "MilliSeconds tp2 sdiv 1000 = MilliSeconds tp sdiv 1000"
    and noted: "MicroSeconds tp2 smod 1000000 = lastLogMSecond t"
  shows "\<exists>st1 t1. flush_time lt st tp t = Inr (st1, t1) \<and> flush_time lt st1 tp2 t1 = Inr (st1, t1) \<and>
    prefix_time t1 = map Some (stamp_text (tmv (UpdateTm lt tp)) (MicroSeconds tp mod 1000000))"
  using flush_time_new_second [OF inv st m new] flush_time_unchanged [of tp2] same noted by metis

theorem flush_time_stale_witness:
  "\<exists>st1 t1. flush_time (\<lambda>_. demo_tm) TimeStatics_start (demo_time\<lparr>now := 5000007000\<rparr>)
        (Tls_start\<lparr>lastLogSecond := 4, lastLogMSecond := 9\<rparr>) = Inr (st1, t1) \<and>
    flush_time (\<lambda>_. demo_tm) st1 (demo_time\<lparr>now := 5000009000\<rparr>) t1 = Inr (st1, t1) \<and>
    prefix_time t1 = map Some (stamp_text demo_tm 7)"
proof -
  let ?a = "demo_time\<lparr>now := 5000007000\<rparr>" and ?b = "demo_time\<lparr>now := 5000009000\<rparr>"
  let ?t = "Tls_start\<lparr>lastLogSecond := 4, lastLogMSecond := 9\<rparr>"
  have u: "tmv (UpdateTm (\<lambda>_. demo_tm) ?a) = demo_tm" by (simp add: UpdateTm_def demo_time_def)
  have inv: "tls_inv ?t" using tls_inv_start by (simp add: tls_inv_def)
  have ok: "tm_ok demo_tm" by (simp add: tm_ok_def demo_tm_def)
  have n: "MilliSeconds ?a sdiv 1000 = 5" "MilliSeconds ?b sdiv 1000 = 5"
    "MicroSeconds ?b smod 1000000 = 9" "MicroSeconds ?a mod 1000000 = 7"
    by (simp_all add: MilliSeconds_def MicroSeconds_def)
  show ?thesis
    using flush_time_stale [of ?t TimeStatics_start "\<lambda>_. demo_tm" ?a ?b] inv statics_ok_start ok
    unfolding u n by simp
qed


text \<open>The overloads accept text up to the last but one cell; \<open>Flush\<close> then appends thread id,
  line end and terminator without a check. When they do not fit, it writes past the line
  buffer.\<close>

theorem flush_format_overflow:
  assumes inv: "tls_inv t" and ready: "ready llevel level t"
    and str: "tidLen t = 0 \<longrightarrow> length str \<le> 15" and over: "2048 < unat (pos t) + length (tid_text str t) + 2"
    and time: "flush_time lt st tp t = Inr (st', t1)" "same_line t t1"
  shows "flush_format lt llevel level str tp st t = Inl OutOfBounds"
proof -
  have len: "length (tmpBuffer t1) = 2048" using inv time(2) by (simp add: tls_inv_def same_line_def)
  then obtain b where b: "put_at (tmpBuffer t1) 27 (level_tag level) = Inr b" "length b = 2048" by simp
  let ?t2 = "t1\<lparr>tmpBuffer := b\<rparr>"
  have inv2: "tls_inv ?t2" using inv time(2) b by (simp add: tls_inv_def same_line_def)
  moreover have "tidLen ?t2 = 0 \<longrightarrow> length str \<le> 15" "tid_text str ?t2 = tid_text str t"
    using str time(2) by (auto simp: tid_text_def same_line_def)
  ultimately obtain td n where
    td: "flush_tid str ?t2 = Inr (?t2\<lparr>tid := td, tidLen := n\<rparr>)" "length td = 16" "1 \<le> n" "n \<le> 16"
      "take (nat n) td = tid_text str t" using flush_tid_ok by metis
  have "length (take (nat n) td) = nat n" using td(2,4) by simp
  then have k: "nat n = length (tid_text str t)" unfolding td(5) by simp
  have "flush_tail (?t2\<lparr>tid := td, tidLen := n\<rparr>) = Inl OutOfBounds"
    using td b inv time(2) over k
    by (intro flush_tail_overflow) (auto simp: tls_inv_def same_line_def)
  with b td(1) show ?thesis by (simp add: flush_format_ready [OF ready] time(1))
qed

text \<open>\<open>tid_\<close> has 16 cells and holds the separator and up to 16 characters of the thread id:
  an id of 16 characters or more is copied past its end.\<close>

theorem flush_format_long_tid:
  assumes inv: "tls_inv t" and ready: "ready llevel level t"
    and str: "tidLen t = 0" "16 \<le> length str"
    and time: "flush_time lt st tp t = Inr (st', t1)" "same_line t t1"
  shows "flush_format lt llevel level str tp st t = Inl OutOfBounds"
proof -
  have len: "length (tmpBuffer t1) = 2048" using inv time(2) by (simp add: tls_inv_def same_line_def)
  then obtain b where b: "put_at (tmpBuffer t1) 27 (level_tag level) = Inr b" "length b = 2048" by simp
  have "flush_tid str (t1\<lparr>tmpBuffer := b\<rparr>) = Inl OutOfBounds"
    using inv time(2) b str by (intro flush_tid_overflow) (auto simp: tls_inv_def same_line_def)
  with b show ?thesis by (simp add: flush_format_ready [OF ready] time(1))
qed

section \<open>Instances\<close>

definition demo_line :: Tls where
  "demo_line = Tls_start\<lparr>pos := 2040, lastLogSecond := 0, lastLogMSecond := 0, curLevel := 1\<rparr>"

lemma demo_line_ok: "tls_inv demo_line" "ready 3 1 demo_line" "tidLen demo_line = 0" "same_line t t"
  "flush_time lt st (Time_new 0 m) demo_line = Inr (st, demo_line)"
  using tls_inv_start
  by (simp_all add: tls_inv_def ready_def demo_line_def IsLevelForbid_def Tls_start_def same_line_def
      flush_time_def MilliSeconds_def MicroSeconds_def Time_new_def Now_def)

theorem flush_format_overflow_witness:
  "flush_format (\<lambda>_. demo_tm) 3 1 ''1401234'' (Time_new 0 demo_tm) TimeStatics_start demo_line = Inl OutOfBounds"
  by (rule flush_format_overflow [OF demo_line_ok(1,2) _ _ demo_line_ok(5,4)])
    (simp_all add: tid_text_def demo_line_def Tls_start_def)

theorem flush_format_long_tid_witness:
  "flush_format (\<lambda>_. demo_tm) 3 1 ''1401234567890123'' (Time_new 0 demo_tm) TimeStatics_start demo_line = Inl OutOfBounds"
  by (rule flush_format_long_tid [OF demo_line_ok(1,2) _ _ demo_line_ok(5,4)])
    (simp_all add: demo_line_def Tls_start_def)

end
