(* ===== verification/MmapFile.thy ===== *)
theory MmapFile
  imports Prelude
begin

text \<open>
  The append-only mapped file of netbridge/MmapFile.h and MmapFile.cc. The kernel side (\<open>os\<close>)
  is the documented effect of the calls the class makes: \<open>open\<close>, \<open>fstat\<close>, \<open>ftruncate\<close>,
  \<open>mmap\<close>, \<open>munmap\<close>, \<open>msync\<close> and \<open>close\<close>. What those calls may answer (a descriptor, an
  address, an error) is an input, the record \<open>env\<close>. A mapping is named by its base address;
  the pointer \<open>memory_ + i\<close> is the pair of the two. The contract of the class, that a session of
  writes appends to the file, is the locale \<open>append_file\<close>.
\<close>

section \<open>The kernel side\<close>

record os =
  disk :: "string \<Rightarrow> byte list option"
  fds :: "int \<Rightarrow> string option"
  maps :: "nat \<Rightarrow> (string \<times> nat) option"
  stable :: "string \<Rightarrow> nat \<Rightarrow> byte option"

record env =
  open_ret :: int
  ftruncate_ok :: bool
  mmap_ret :: "nat option"

definition page_size :: nat where
  "page_size = 4096"

definition resize :: "nat \<Rightarrow> byte list \<Rightarrow> byte list" where
  "resize n c = take n c @ replicate (n - length c) (CHR 0x00)"

definition sys_open :: "int \<Rightarrow> string \<Rightarrow> os \<Rightarrow> os" where
  "sys_open ret path s =
     (if ret = - 1 then s
      else s\<lparr>fds := (fds s)(ret \<mapsto> path),
             disk := (case disk s path of None \<Rightarrow> (disk s)(path \<mapsto> []) | Some _ \<Rightarrow> disk s)\<rparr>)"

definition file_of :: "os \<Rightarrow> int \<Rightarrow> byte list" where
  "file_of s d = (case fds s d of None \<Rightarrow> [] | Some p \<Rightarrow> (case disk s p of None \<Rightarrow> [] | Some c \<Rightarrow> c))"

definition sys_ftruncate :: "int \<Rightarrow> nat \<Rightarrow> os \<Rightarrow> os" where
  "sys_ftruncate d n s =
     (case fds s d of
        None \<Rightarrow> s
      | Some p \<Rightarrow> s\<lparr>disk := (disk s)(p := map_option (resize n) (disk s p))\<rparr>)"

definition sys_mmap :: "nat option \<Rightarrow> nat \<Rightarrow> int \<Rightarrow> os \<Rightarrow> os" where
  "sys_mmap ret n d s =
     (case ret of
        None \<Rightarrow> s
      | Some a \<Rightarrow> s\<lparr>maps := (maps s)(a := map_option (\<lambda>p. (p, n)) (fds s d))\<rparr>)"

definition sys_munmap :: "nat option \<Rightarrow> os \<Rightarrow> os" where
  "sys_munmap addr s = (case addr of None \<Rightarrow> s | Some a \<Rightarrow> s\<lparr>maps := (maps s)(a := None)\<rparr>)"

definition sys_close :: "int \<Rightarrow> os \<Rightarrow> os" where
  "sys_close d s = s\<lparr>fds := (fds s)(d := None)\<rparr>"

text \<open>A store through a shared mapping changes the file.\<close>

definition map_write :: "nat option \<Rightarrow> nat \<Rightarrow> byte list \<Rightarrow> os \<Rightarrow> os res" where
  "map_write addr i bs s =
     (case Option.bind addr (maps s) of
        None \<Rightarrow> Inl NullDeref
      | Some (p, n) \<Rightarrow>
          (case disk s p of
             None \<Rightarrow> Inl NullDeref
           | Some c \<Rightarrow>
               check (i + length bs \<le> n) OutOfBounds
                 (res_bind (memcpy_at c i bs 0 (length bs)) (\<lambda>c.
                    Inr (s\<lparr>disk := (disk s)(p \<mapsto> c)\<rparr>)))))"

text \<open>
  \<open>msync\<close> fails (\<open>EINVAL\<close>) unless the address is a multiple of the page size; a base address
  is one, so the offset decides. The code ignores the result.
\<close>

definition sys_msync :: "nat option \<Rightarrow> nat \<Rightarrow> nat \<Rightarrow> os \<Rightarrow> os" where
  "sys_msync addr i n s =
     (case Option.bind addr (maps s) of
        None \<Rightarrow> s
      | Some (p, _) \<Rightarrow>
          if i mod page_size \<noteq> 0 then s
          else s\<lparr>stable := (stable s)(p := (\<lambda>j.
                 if i \<le> j \<and> j < i + n
                 then Option.bind (disk s p) (\<lambda>c. if j < length c then Some (c ! j) else None)
                 else stable s p j))\<rparr>)"

section \<open>The class\<close>

record OMmapFile =
  fd :: int
  memory :: "nat option"
  offset :: size_t
  fsize :: size_t
  syncPos :: size_t

definition kDefaultFileSize :: size_t where
  "kDefaultFileSize = 1 * 1024 * 1024"

definition kInvalidFile :: int where
  "kInvalidFile = - 1"

definition OMmapFile_new :: OMmapFile where
  "OMmapFile_new = \<lparr>fd = kInvalidFile, memory = None, offset = 0, fsize = 0, syncPos = 0\<rparr>"

definition IsOpen :: "OMmapFile \<Rightarrow> bool" where
  "IsOpen f = (fd f \<noteq> kInvalidFile)"

definition mf_Close :: "OMmapFile \<Rightarrow> os \<Rightarrow> OMmapFile \<times> os" where
  "mf_Close f s =
     (if fd f \<noteq> kInvalidFile then
        (\<lparr>fd = kInvalidFile, memory = None, offset = 0, fsize = 0, syncPos = 0\<rparr>,
         sys_close (fd f) (sys_ftruncate (fd f) (unat (offset f)) (sys_munmap (memory f) s)))
      else (f, s))"

definition OMmapFile_destroy :: "OMmapFile \<Rightarrow> os \<Rightarrow> os" where
  "OMmapFile_destroy f s = snd (mf_Close f s)"

definition MapWriteOnly :: "env \<Rightarrow> OMmapFile \<Rightarrow> os \<Rightarrow> (OMmapFile \<times> os \<times> bool) res" where
  "MapWriteOnly e f s =
     check (\<not> (fsize f = 0 \<or> fd f = kInvalidFile)) AssertFail
       (Inr (f\<lparr>memory := mmap_ret e\<rparr>, sys_mmap (mmap_ret e) (unat (fsize f)) (fd f) s,
             mmap_ret e \<noteq> None))"

definition mf_Open :: "env \<Rightarrow> string \<Rightarrow> bool \<Rightarrow> OMmapFile \<Rightarrow> os \<Rightarrow> (OMmapFile \<times> os \<times> bool) res" where
  "mf_Open e path bAppend f s =
     (let (f, s) = mf_Close f s;
          s = sys_open (open_ret e) path s;
          f = f\<lparr>fd := open_ret e\<rparr> in
      check (fd f \<noteq> kInvalidFile) AssertFail
        (let st_size = of_nat (length (file_of s (fd f)));
             f = (if bAppend
                  then f\<lparr>fsize := max kDefaultFileSize st_size, offset := st_size\<rparr>
                  else f\<lparr>fsize := kDefaultFileSize, offset := 0\<rparr>) in
         check (ftruncate_ok e) AssertFail
           (MapWriteOnly e f (sys_ftruncate (fd f) (unat (fsize f)) s))))"

definition Sync :: "OMmapFile \<Rightarrow> os \<Rightarrow> OMmapFile \<times> os \<times> bool" where
  "Sync f s =
     (if fd f = kInvalidFile then (f, s, False)
      else if offset f \<le> syncPos f then (f, s, False)
      else (f\<lparr>syncPos := offset f\<rparr>,
            sys_msync (memory f) (unat (syncPos f)) (unat (offset f - syncPos f)) s, True))"

definition Truncate :: "env \<Rightarrow> size_t \<Rightarrow> OMmapFile \<Rightarrow> os \<Rightarrow> (OMmapFile \<times> os) res" where
  "Truncate e n f s =
     (if n = fsize f then Inr (f, s)
      else
        let f = f\<lparr>fsize := n\<rparr> in
        check (ftruncate_ok e) AssertFail
          (let s = sys_ftruncate (fd f) (unat n) s;
               f = (if fsize f < offset f then f\<lparr>offset := fsize f\<rparr> else f) in
           res_bind (MapWriteOnly e f s) (\<lambda>(f, s, _). Inr (f, s))))"

definition ExtendFileSize :: "env \<Rightarrow> size_t \<Rightarrow> OMmapFile \<Rightarrow> os \<Rightarrow> (OMmapFile \<times> os) res" where
  "ExtendFileSize e n f s =
     check (fd f \<noteq> kInvalidFile) AssertFail
       (if fsize f < n then Truncate e n f s else Inr (f, s))"

partial_function (option) double_loop :: "size_t \<Rightarrow> size_t \<Rightarrow> size_t option" where
  "double_loop needed newSize =
     (if newSize < needed
      then double_loop needed (if newSize = 0 then kDefaultFileSize else newSize * 2)
      else Some newSize)"

definition mf_AssureSpace :: "env \<Rightarrow> size_t \<Rightarrow> OMmapFile \<Rightarrow> os \<Rightarrow> (OMmapFile \<times> os) res" where
  "mf_AssureSpace e len f s =
     (case double_loop (offset f + len) (fsize f) of
        None \<Rightarrow> Inl Diverges
      | Some newSize \<Rightarrow> ExtendFileSize e newSize f s)"

definition mf_Write :: "env \<Rightarrow> byte list \<Rightarrow> OMmapFile \<Rightarrow> os \<Rightarrow> (OMmapFile \<times> os) res" where
  "mf_Write e data f s =
     (let len = of_nat (length data) in
      res_bind (mf_AssureSpace e len f s) (\<lambda>(f, s).
        check (offset f + len \<le> fsize f) AssertFail
          (res_bind (map_write (memory f) (unat (offset f)) data s) (\<lambda>s.
             let f = f\<lparr>offset := offset f + len\<rparr> in
             check (offset f \<le> fsize f) AssertFail (Inr (f, s))))))"

text \<open>The template for an object \<open>t\<close> writes its \<open>sizeof t\<close> bytes; \<open>repr\<close> gives them.\<close>

definition mf_Write_obj :: "('a \<Rightarrow> byte list) \<Rightarrow> env \<Rightarrow> 'a \<Rightarrow> OMmapFile \<Rightarrow> os \<Rightarrow> (OMmapFile \<times> os) res" where
  "mf_Write_obj repr e t f s = mf_Write e (repr t) f s"

section \<open>The growth loop\<close>

lemma kDefaultFile_unat [simp]: "unat kDefaultFileSize = 1048576"
  by (simp add: kDefaultFileSize_def)

text \<open>
  From a size of at least one (or the default) the doubling ends as soon as the size suffices;
  it stays below twice what is needed.
\<close>

lemma double_loop_pos:
  assumes "0 < unat n" "unat need \<le> 2 ^ 62"
  shows "\<exists>m. double_loop need n = Some m \<and> unat need \<le> unat m \<and> unat n \<le> unat m \<and>
             (m = n \<or> unat m < 2 * unat need)"
  using assms
proof (induction "unat need - unat n" arbitrary: n rule: less_induct)
  case less
  show ?case
  proof (cases "n < need")
    case False
    then show ?thesis by (subst double_loop.simps) (simp add: le64_iff less64_iff)
  next
    case True
    then have lt: "unat n < unat need" by (simp add: less64_iff)
    then have two: "unat (n * 2) = 2 * unat n" using less.prems by (simp add: unat_simps)
    have "n \<noteq> 0" using less.prems by auto
    with True have step: "double_loop need n = double_loop need (n * 2)"
      by (subst double_loop.simps) simp
    have "unat need - unat (n * 2) < unat need - unat n" using two lt less.prems by simp
    from less.hyps [OF this] two less.prems obtain m where
      "double_loop need (n * 2) = Some m" "unat need \<le> unat m" "unat (n * 2) \<le> unat m"
      "m = n * 2 \<or> unat m < 2 * unat need" by auto
    with step two lt show ?thesis by auto
  qed
qed

text \<open>
  More than \<open>2 ^ 63\<close> bytes can never be reached by doubling the default size: the product wraps
  to zero, the loop starts over, and it does not end.
\<close>

lemma double_loop_diverges:
  assumes "2 ^ 63 < unat need"
  shows "double_loop need kDefaultFileSize = None"
proof (rule ccontr)
  let ?P = "\<lambda>n. \<exists>k \<ge> 20. n = (2 :: size_t) ^ k"
  assume "double_loop need kDefaultFileSize \<noteq> None"
  then obtain m where m: "double_loop need kDefaultFileSize = Some m" by auto
  have "unat need' \<le> 2 ^ 63" if "double_loop need' n = Some m" "?P n" for need' n m
  proof -
    have "?P n \<longrightarrow> unat need' \<le> 2 ^ 63"
    proof (rule double_loop.raw_induct
        [where P = "\<lambda>need n m. ?P n \<longrightarrow> unat need \<le> 2 ^ 63", OF _ that(1)])
      fix f need n m
      assume IH: "\<And>need n m. f need n = Some m \<Longrightarrow> ?P n \<longrightarrow> unat need \<le> 2 ^ 63"
        and eq: "(if n < need then f need (if n = 0 then kDefaultFileSize else n * 2) else Some n)
                 = Some (m :: size_t)"
      show "?P n \<longrightarrow> unat need \<le> 2 ^ 63"
      proof
        assume P: "?P n"
        then obtain k where k: "20 \<le> k" "n = 2 ^ k" by blast
        have le: "unat n \<le> 2 ^ 63"
        proof (cases "k < 64")
          case True
          then have "unat n = 2 ^ k" unfolding k(2) by (rule unat_pow2)
          moreover have "(2::nat) ^ k \<le> 2 ^ 63" using True by (intro power_increasing) auto
          ultimately show ?thesis by simp
        next
          case False
          then have "n = 0" unfolding k(2) by (simp add: exp_eq_zero_iff)
          then show ?thesis by simp
        qed
        show "unat need \<le> 2 ^ 63"
        proof (cases "n < need")
          case True
          have "?P (if n = 0 then kDefaultFileSize else n * 2)"
          proof (cases "n = 0")
            case True
            then show ?thesis by (intro exI [of _ 20]) (simp add: kDefaultFileSize_def)
          next
            case False
            then show ?thesis using k by (intro exI [of _ "Suc k"]) simp
          qed
          moreover have "f need (if n = 0 then kDefaultFileSize else n * 2) = Some m"
            using eq True by simp
          ultimately show ?thesis using IH by blast
        next
          case False
          with le show ?thesis by (simp add: less64_iff)
        qed
      qed
    qed
    with that(2) show ?thesis by blast
  qed
  moreover have "?P kDefaultFileSize" by (intro exI [of _ 20]) (simp add: kDefaultFileSize_def)
  ultimately show False using m assms by fastforce
qed

section \<open>Invariant and abstract value\<close>

definition mm_inv :: "string \<Rightarrow> OMmapFile \<Rightarrow> os \<Rightarrow> bool" where
  "mm_inv p f s \<longleftrightarrow>
     fd f \<noteq> kInvalidFile \<and> fds s (fd f) = Some p \<and>
     (\<exists>c a. disk s p = Some c \<and> length c = unat (fsize f) \<and> memory f = Some a \<and>
            maps s a = Some (p, unat (fsize f))) \<and>
     unat (offset f) \<le> unat (fsize f) \<and> 0 < unat (fsize f) \<and> unat (fsize f) \<le> 2 ^ 62"

definition mm_value :: "OMmapFile \<Rightarrow> os \<Rightarrow> byte list" where
  "mm_value f s = take (unat (offset f)) (file_of s (fd f))"

text \<open>Answers of the kernel that let growing succeed: fresh addresses, no full disk.\<close>

definition good_envs :: "env list \<Rightarrow> os \<Rightarrow> bool" where
  "good_envs es s \<longleftrightarrow> list_all ftruncate_ok es \<and> distinct (map mmap_ret es) \<and>
     (\<forall>e \<in> set es. \<exists>a. mmap_ret e = Some a \<and> maps s a = None)"

lemma mm_invE:
  assumes "mm_inv p f s"
  obtains c a where "fd f \<noteq> kInvalidFile" "fds s (fd f) = Some p" "disk s p = Some c"
    "length c = unat (fsize f)" "memory f = Some a" "maps s a = Some (p, unat (fsize f))"
    "unat (offset f) \<le> unat (fsize f)" "0 < unat (fsize f)" "unat (fsize f) \<le> 2 ^ 62"
  using assms by (auto simp: mm_inv_def)

lemma length_mm_value: "mm_inv p f s \<Longrightarrow> length (mm_value f s) = unat (offset f)"
  by (auto simp: mm_inv_def mm_value_def file_of_def)

lemma resize_id: "length c = n \<Longrightarrow> resize n c = c"
  by (simp add: resize_def)

lemma length_resize [simp]: "length (resize n c) = n"
  by (simp add: resize_def)

lemma take_resize: "k \<le> length c \<Longrightarrow> k \<le> n \<Longrightarrow> take k (resize n c) = take k c"
  by (simp add: resize_def)

section \<open>Opening, closing, syncing\<close>

lemma mf_Close_closed: "\<not> IsOpen f \<Longrightarrow> mf_Close f s = (f, s)"
  by (simp add: mf_Close_def IsOpen_def)

text \<open>A file closed before its destructor runs is not closed or cut a second time.\<close>

lemma OMmapFile_destroy_once: "OMmapFile_destroy (fst (mf_Close f s)) s' = s'"
  by (auto simp: OMmapFile_destroy_def mf_Close_def)

text \<open>Closing cuts the file back to the bytes written, drops the mapping and the descriptor.\<close>

lemma mf_Close_cuts:
  assumes inv: "mm_inv p f s"
  shows "disk (snd (mf_Close f s)) p = Some (mm_value f s)" "fst (mf_Close f s) = OMmapFile_new"
    "fds (snd (mf_Close f s)) (fd f) = None"
    "maps (snd (mf_Close f s)) = (maps s)(the (memory f) := None)"
    "q \<noteq> p \<Longrightarrow> disk (snd (mf_Close f s)) q = disk s q"
proof -
  from inv obtain c a where "fd f \<noteq> kInvalidFile" "fds s (fd f) = Some p" "disk s p = Some c"
    "length c = unat (fsize f)" "memory f = Some a" "unat (offset f) \<le> unat (fsize f)"
    by (rule mm_invE)
  then show "disk (snd (mf_Close f s)) p = Some (mm_value f s)" "fst (mf_Close f s) = OMmapFile_new"
    "fds (snd (mf_Close f s)) (fd f) = None"
    "maps (snd (mf_Close f s)) = (maps s)(the (memory f) := None)"
    "q \<noteq> p \<Longrightarrow> disk (snd (mf_Close f s)) q = disk s q"
    by (simp_all add: mf_Close_def OMmapFile_new_def sys_close_def sys_ftruncate_def sys_munmap_def
        mm_value_def file_of_def resize_def)
qed

text \<open>Opening for append: the file keeps its content, is at least the default size, and writing
  continues at its end.\<close>

lemma mf_Open_append:
  assumes closed: "\<not> IsOpen f" and e: "open_ret e \<noteq> kInvalidFile" "ftruncate_ok e" "mmap_ret e = Some a"
    and len: "length old \<le> 2 ^ 62"
    and old: "old = (case disk s p of None \<Rightarrow> [] | Some c \<Rightarrow> c)"
  shows "\<exists>f' s'. mf_Open e p True f s = Inr (f', s', True) \<and> mm_inv p f' s' \<and> mm_value f' s' = old \<and>
    maps s' = (maps s)(a \<mapsto> (p, unat (fsize f'))) \<and> 1048576 \<le> unat (fsize f') \<and>
    (\<forall>q. q \<noteq> p \<longrightarrow> disk s' q = disk s q)"
proof -
  have n: "unat (of_nat (length old) :: size_t) = length old"
    using len by (intro unat_of_nat64) simp
  let ?s1 = "sys_open (open_ret e) p s"
  have s1: "fds ?s1 (open_ret e) = Some p" "disk ?s1 p = Some old" "maps ?s1 = maps s"
    using e(1) old by (auto simp: sys_open_def kInvalidFile_def split: option.splits)
  then have fo: "file_of ?s1 (open_ret e) = old" by (simp add: file_of_def)
  let ?sz = "max kDefaultFileSize (of_nat (length old)) :: size_t"
  have sz: "unat ?sz = max 1048576 (length old)"
    using n by (auto simp: max_def le64_iff)
  have nz: "?sz \<noteq> 0" using sz by (auto simp: eq64_iff)
  let ?f = "f\<lparr>fd := open_ret e, fsize := ?sz, offset := of_nat (length old), memory := Some a\<rparr>"
  let ?s = "sys_mmap (Some a) (unat ?sz) (open_ret e) (sys_ftruncate (open_ret e) (unat ?sz) ?s1)"
  have "mf_Open e p True f s = Inr (?f, ?s, True)"
    using closed e nz fo by (simp add: mf_Open_def mf_Close_closed MapWriteOnly_def Let_def)
  moreover have "mm_inv p ?f ?s"
    using e(1) s1 sz n len by (simp add: mm_inv_def sys_mmap_def sys_ftruncate_def)
  moreover have "mm_value ?f ?s = old"
    using s1 sz n by (simp add: mm_value_def file_of_def sys_mmap_def sys_ftruncate_def take_resize)
  moreover have "maps ?s = (maps s)(a \<mapsto> (p, unat ?sz))"
    using s1 by (simp add: sys_mmap_def sys_ftruncate_def)
  moreover have "\<forall>q. q \<noteq> p \<longrightarrow> disk ?s q = disk s q"
    using s1 by (simp add: sys_mmap_def sys_ftruncate_def) (simp add: sys_open_def split: option.splits)
  ultimately show ?thesis using sz by auto
qed

lemma mf_Open_fails:
  "open_ret e = kInvalidFile \<Longrightarrow> mf_Open e p ap f s = Inl AssertFail"
  by (simp add: mf_Open_def split_beta Let_def)

lemma Sync_nothing: "offset f \<le> syncPos f \<Longrightarrow> Sync f s = (f, s, False)"
  by (simp add: Sync_def)

text \<open>
  A sync from a page boundary makes everything written since stable; from any other position
  the kernel refuses, and the class still advances \<open>syncPos_\<close> and reports success.
\<close>

lemma Sync_aligned:
  assumes inv: "mm_inv p f s" and "syncPos f < offset f" "unat (syncPos f) mod page_size = 0"
    and i: "unat (syncPos f) \<le> i" "i < unat (offset f)"
  shows "stable (fst (snd (Sync f s))) p i = Some (mm_value f s ! i)"
proof -
  from inv obtain c a where c: "fd f \<noteq> kInvalidFile" "fds s (fd f) = Some p" "disk s p = Some c"
    "length c = unat (fsize f)" "memory f = Some a" "maps s a = Some (p, unat (fsize f))"
    "unat (offset f) \<le> unat (fsize f)" by (rule mm_invE)
  have "unat (offset f - syncPos f) = unat (offset f) - unat (syncPos f)"
    using assms(2) by (simp add: less64_iff unat_simps)
  moreover have "\<not> offset f \<le> syncPos f" using assms(2) by simp
  ultimately show ?thesis using c i assms(3)
    by (simp add: Sync_def sys_msync_def mm_value_def file_of_def del: not_le)
qed

text \<open>\<open>Sync\<close> from a position that is not a multiple of the page size makes nothing stable,
  because \<open>msync\<close> refuses the address, yet it advances \<open>syncPos_\<close> over the bytes and reports
  success, so they are never synced.\<close>

theorem Sync_unaligned:
  assumes inv: "mm_inv p f s" and "syncPos f < offset f" "unat (syncPos f) mod page_size \<noteq> 0"
  shows "Sync f s = (f\<lparr>syncPos := offset f\<rparr>, s, True)"
proof -
  from inv obtain a where "fd f \<noteq> kInvalidFile" "memory f = Some a"
    "maps s a = Some (p, unat (fsize f))" by (rule mm_invE)
  moreover have "\<not> offset f \<le> syncPos f" using assms(2) by simp
  ultimately show ?thesis using assms(3) by (simp add: Sync_def sys_msync_def del: not_le)
qed

section \<open>Writing\<close>

text \<open>Growing remaps the file at a fresh address; the old mapping stays in the address space.\<close>

lemma ExtendFileSize_keeps:
  assumes inv: "mm_inv p f s" and good: "good_envs (e # es) s"
    and n: "unat (fsize f) \<le> unat n" "unat n \<le> 2 ^ 62"
  shows "\<exists>f' s'. ExtendFileSize e n f s = Inr (f', s') \<and> mm_inv p f' s' \<and>
    mm_value f' s' = mm_value f s \<and> offset f' = offset f \<and> fsize f' = n \<and> syncPos f' = syncPos f \<and>
    good_envs es s' \<and> (\<forall>q. q \<noteq> p \<longrightarrow> disk s' q = disk s q) \<and>
    (if n = fsize f then f' = f \<and> s' = s
     else memory f' = mmap_ret e \<and> maps s' = (maps s)(the (mmap_ret e) \<mapsto> (p, unat n)))"
proof (cases "n = fsize f")
  case True
  with inv good show ?thesis
    by (auto simp: ExtendFileSize_def mm_inv_def good_envs_def)
next
  case False
  with n have less: "fsize f < n" by (auto simp: size_ord)
  from inv obtain c a where c: "fd f \<noteq> kInvalidFile" "fds s (fd f) = Some p" "disk s p = Some c"
    "length c = unat (fsize f)" "memory f = Some a" "maps s a = Some (p, unat (fsize f))"
    "unat (offset f) \<le> unat (fsize f)" "0 < unat (fsize f)" by (rule mm_invE)
  from good obtain b where b: "mmap_ret e = Some b" "maps s b = None" "ftruncate_ok e"
    by (auto simp: good_envs_def)
  let ?f = "f\<lparr>fsize := n, memory := Some b\<rparr>"
  let ?s = "sys_mmap (Some b) (unat n) (fd f) (sys_ftruncate (fd f) (unat n) s)"
  have "n \<noteq> 0" using n c by auto
  moreover have "\<not> n < offset f" using n c by (simp add: less64_iff)
  ultimately have "ExtendFileSize e n f s = Inr (?f, ?s)"
    using less False c b by (simp add: ExtendFileSize_def Truncate_def MapWriteOnly_def Let_def)
  moreover have "mm_inv p ?f ?s"
    using c n by (simp add: mm_inv_def sys_mmap_def sys_ftruncate_def)
  moreover have "mm_value ?f ?s = mm_value f s"
    using c n by (simp add: mm_value_def file_of_def sys_mmap_def sys_ftruncate_def take_resize)
  moreover have maps: "maps ?s = (maps s)(b \<mapsto> (p, unat n))"
    using c by (simp add: sys_mmap_def sys_ftruncate_def)
  moreover have "good_envs es ?s"
    unfolding good_envs_def
  proof (intro conjI ballI)
    fix x
    assume x: "x \<in> set es"
    then have "mmap_ret x \<noteq> mmap_ret e" using good by (auto simp: good_envs_def image_iff)
    with x good b maps show "\<exists>a. mmap_ret x = Some a \<and> maps ?s a = None"
      unfolding good_envs_def by fastforce
  qed (use good in \<open>auto simp: good_envs_def\<close>)
  moreover have "\<forall>q. q \<noteq> p \<longrightarrow> disk ?s q = disk s q"
    using c by (simp add: sys_mmap_def sys_ftruncate_def)
  ultimately show ?thesis using False b by auto
qed

lemma mf_Write_appends:
  assumes inv: "mm_inv p f s" and good: "good_envs (e # es) s"
    and room: "unat (offset f) + length data \<le> 2 ^ 61"
  shows "\<exists>f' s'. mf_Write e data f s = Inr (f', s') \<and> mm_inv p f' s' \<and>
    mm_value f' s' = mm_value f s @ data \<and>
    unat (offset f') = unat (offset f) + length data \<and> syncPos f' = syncPos f \<and>
    unat (fsize f) \<le> unat (fsize f') \<and>
    (fsize f' = fsize f \<or> unat (fsize f') < 2 * (unat (offset f) + length data)) \<and>
    good_envs es s' \<and> (\<forall>q. q \<noteq> p \<longrightarrow> disk s' q = disk s q) \<and>
    (if unat (offset f) + length data \<le> unat (fsize f) then maps s' = maps s
     else memory f' = mmap_ret e \<and> maps s' = (maps s)(the (mmap_ret e) \<mapsto> (p, unat (fsize f'))))"
proof -
  let ?len = "of_nat (length data) :: size_t"
  have len: "unat ?len = length data" using room by (intro unat_of_nat64) simp
  have need: "unat (offset f + ?len) = unat (offset f) + length data"
    using len room by (simp add: unat_simps)
  have pos: "0 < unat (fsize f)" and le62: "unat (fsize f) \<le> 2 ^ 62"
    using inv by (auto simp: mm_inv_def)
  from double_loop_pos [OF pos, of "offset f + ?len"] need room obtain n where
    n: "double_loop (offset f + ?len) (fsize f) = Some n" "unat (offset f) + length data \<le> unat n"
      "unat (fsize f) \<le> unat n" "n = fsize f \<or> unat n < 2 * (unat (offset f) + length data)"
    by auto
  have n62: "unat n \<le> 2 ^ 62" using n(4) le62 room by auto
  from ExtendFileSize_keeps [OF inv good n(3) n62] obtain f1 s1 where
    f1: "ExtendFileSize e n f s = Inr (f1, s1)" "mm_inv p f1 s1" "mm_value f1 s1 = mm_value f s"
      "offset f1 = offset f" "fsize f1 = n" "syncPos f1 = syncPos f" "good_envs es s1"
      "\<forall>q. q \<noteq> p \<longrightarrow> disk s1 q = disk s q"
      "if n = fsize f then f1 = f \<and> s1 = s
       else memory f1 = mmap_ret e \<and> maps s1 = (maps s)(the (mmap_ret e) \<mapsto> (p, unat n))" by blast
  from f1(2) obtain c a where c: "fd f1 \<noteq> kInvalidFile" "fds s1 (fd f1) = Some p" "disk s1 p = Some c"
    "length c = unat n" "memory f1 = Some a" "maps s1 a = Some (p, unat n)"
    unfolding f1(5) [symmetric] by (rule mm_invE)
  let ?c = "take (unat (offset f)) c @ data @ drop (unat (offset f) + length data) c"
  let ?f = "f1\<lparr>offset := offset f + ?len\<rparr>"
  let ?s = "s1\<lparr>disk := (disk s1)(p \<mapsto> ?c)\<rparr>"
  have le: "offset f + ?len \<le> n" using need n(2) by (simp add: le64_iff)
  have "mf_Write e data f s = Inr (?f, ?s)"
    using n(1,2) f1(1,4,5) c le by (simp add: mf_Write_def mf_AssureSpace_def map_write_def Let_def)
  moreover have "mm_inv p ?f ?s"
    using c f1(5) n(2,3) n62 need pos by (simp add: mm_inv_def)
  moreover have "mm_value ?f ?s = mm_value f s @ data"
    using c need n(2) unfolding f1(3) [symmetric]
    by (simp add: mm_value_def file_of_def f1(4))
  moreover have "good_envs es ?s" using f1(7) by (simp add: good_envs_def)
  moreover have "if unat (offset f) + length data \<le> unat (fsize f) then maps ?s = maps s
     else memory ?f = mmap_ret e \<and> maps ?s = (maps s)(the (mmap_ret e) \<mapsto> (p, unat (fsize ?f)))"
  proof (cases "unat (offset f) + length data \<le> unat (fsize f)")
    case True
    have "n = fsize f" using n(1) True need
      by (subst (asm) double_loop.simps) (simp add: less64_iff)
    with f1(9) True show ?thesis by simp
  next
    case False
    then have "n \<noteq> fsize f" using n(2) by auto
    with f1(5,9) False show ?thesis by simp
  qed
  moreover have "\<forall>q. q \<noteq> p \<longrightarrow> disk ?s q = disk s q" using f1(8) by simp
  ultimately show ?thesis using f1(5,6) n need by auto
qed

text \<open>A write that had to grow leaks: the previous mapping stays in the address space even after
  the file is closed, and no field names it any more.\<close>

theorem mf_Write_leaks:
  assumes inv: "mm_inv p f s" and good: "good_envs (e # es) s" and mem: "memory f = Some a"
    and grow: "unat (fsize f) < unat (offset f) + length data"
    and room: "unat (offset f) + length data \<le> 2 ^ 61"
  shows "\<exists>f' s'. mf_Write e data f s = Inr (f', s') \<and> memory f' \<noteq> Some a \<and>
    maps (snd (mf_Close f' s')) a = Some (p, unat (fsize f))"
proof -
  from inv mem have a: "maps s a = Some (p, unat (fsize f))" by (auto simp: mm_inv_def)
  from mf_Write_appends [OF inv good room] grow obtain f' s' where
    w: "mf_Write e data f s = Inr (f', s')" "mm_inv p f' s'" "memory f' = mmap_ret e"
      "maps s' = (maps s)(the (mmap_ret e) \<mapsto> (p, unat (fsize f')))" by auto
  from good obtain b where b: "mmap_ret e = Some b" "maps s b = None" by (auto simp: good_envs_def)
  with a have "a \<noteq> b" by auto
  with w b a mf_Close_cuts(4) [OF w(2)] show ?thesis by auto
qed

text \<open>A failed \<open>mmap\<close> while growing is not noticed: the next store goes through the bad
  address.\<close>

theorem mf_Write_mmap_fails:
  assumes inv: "mm_inv p f s" and e: "ftruncate_ok e" "mmap_ret e = None"
    and grow: "unat (fsize f) < unat (offset f) + length data"
    and room: "unat (offset f) + length data \<le> 2 ^ 61"
  shows "mf_Write e data f s = Inl NullDeref"
proof -
  let ?len = "of_nat (length data) :: size_t"
  have "unat ?len = length data" using room by (intro unat_of_nat64) simp
  then have need: "unat (offset f + ?len) = unat (offset f) + length data"
    using room by (simp add: unat_simps)
  have pos: "0 < unat (fsize f)" "fd f \<noteq> kInvalidFile" using inv by (auto simp: mm_inv_def)
  from double_loop_pos [OF pos(1), of "offset f + ?len"] need room obtain n where
    n: "double_loop (offset f + ?len) (fsize f) = Some n" "unat (offset f) + length data \<le> unat n"
    by auto
  have lt: "fsize f < n" "offset f + ?len \<le> n" "n \<noteq> 0" "\<not> n < offset f" "n \<noteq> fsize f"
    using n grow need by (auto simp: size_ord)
  then show ?thesis using n(1) pos e
    by (simp add: mf_Write_def mf_AssureSpace_def ExtendFileSize_def Truncate_def MapWriteOnly_def
        sys_mmap_def map_write_def Let_def)
qed

lemma mf_Write_closed:
  assumes "length data \<le> 2 ^ 61"
  shows "mf_Write e data OMmapFile_new s = Inl AssertFail"
proof -
  have "\<exists>m. double_loop (of_nat (length data)) 0 = Some m"
  proof (cases "data = []")
    case True
    then show ?thesis by (simp add: double_loop.simps)
  next
    case False
    have len: "unat (of_nat (length data) :: size_t) = length data"
      using assms by (intro unat_of_nat64) simp
    with False have "double_loop (of_nat (length data)) 0 =
        double_loop (of_nat (length data)) kDefaultFileSize"
      by (subst double_loop.simps) (simp add: less64_iff)
    with double_loop_pos [of kDefaultFileSize "of_nat (length data)"] len assms show ?thesis by auto
  qed
  then show ?thesis
    by (auto simp: mf_Write_def mf_AssureSpace_def ExtendFileSize_def OMmapFile_new_def Let_def)
qed

text \<open>C36:
  Cutting the file below \<open>syncPos_\<close> leaves \<open>syncPos_\<close> where it was; what is written up to that
  position afterwards is never synced.
\<close>

theorem Truncate_then_Sync:
  assumes inv: "mm_inv p f s" and e: "ftruncate_ok e" "mmap_ret e = Some a"
    and n: "0 < unat n" "unat n < unat (offset f)"
    and bk: "unat n + length data \<le> unat (syncPos f)" "unat n + length data \<le> 2 ^ 61"
    and good: "good_envs [e'] (snd (projr (Truncate e n f s)))"
  shows "\<exists>f1 s1 f2 s2. Truncate e n f s = Inr (f1, s1) \<and> mf_Write e' data f1 s1 = Inr (f2, s2) \<and>
    mm_value f2 s2 = take (unat n) (mm_value f s) @ data \<and> Sync f2 s2 = (f2, s2, False)"
proof -
  from inv obtain c b where c: "fd f \<noteq> kInvalidFile" "fds s (fd f) = Some p" "disk s p = Some c"
    "length c = unat (fsize f)" "memory f = Some b" "unat (offset f) \<le> unat (fsize f)"
    "unat (fsize f) \<le> 2 ^ 62" by (rule mm_invE)
  let ?f = "f\<lparr>fsize := n, offset := n, memory := Some a\<rparr>"
  let ?s = "sys_mmap (Some a) (unat n) (fd f) (sys_ftruncate (fd f) (unat n) s)"
  have ne: "n \<noteq> fsize f" "n < offset f" "n \<noteq> 0" using n c(6) by (auto simp: size_ord)
  with c e have t: "Truncate e n f s = Inr (?f, ?s)"
    by (simp add: Truncate_def MapWriteOnly_def Let_def)
  have inv1: "mm_inv p ?f ?s" using c n by (simp add: mm_inv_def sys_mmap_def sys_ftruncate_def)
  have v1: "mm_value ?f ?s = take (unat n) (mm_value f s)"
    using c n by (simp add: mm_value_def file_of_def sys_mmap_def sys_ftruncate_def resize_def min_def)
  have "good_envs [e'] ?s" using good t by simp
  from mf_Write_appends [OF inv1 this, of data] obtain f2 s2 where
    w: "mf_Write e' data ?f ?s = Inr (f2, s2)" "mm_value f2 s2 = mm_value ?f ?s @ data"
      "unat (offset f2) = unat n + length data" "syncPos f2 = syncPos f"
    using bk(2) by auto
  have "offset f2 \<le> syncPos f2" using w(3,4) bk by (simp add: le64_iff)
  with t w v1 show ?thesis by (auto intro: Sync_nothing)
qed

section \<open>The contract for clients\<close>

locale append_file =
  fixes wr :: "'e \<Rightarrow> byte list \<Rightarrow> 'x \<Rightarrow> 'x res"
    and val :: "'x \<Rightarrow> byte list"
    and inv :: "'x \<Rightarrow> bool"
    and good :: "'e list \<Rightarrow> 'x \<Rightarrow> bool"
    and limit :: nat
  assumes wr_appends: "inv x \<Longrightarrow> good (e # es) x \<Longrightarrow> length (val x) + length d \<le> limit \<Longrightarrow>
    \<exists>x'. wr e d x = Inr x' \<and> inv x' \<and> val x' = val x @ d \<and> good es x'"
begin

lemma wr_all:
  assumes "inv x" "good (map fst ws) x" "length (val x) + length (concat (map snd ws)) \<le> limit"
  shows "\<exists>x'. res_fold (\<lambda>(e, d). wr e d) ws x = Inr x' \<and> inv x' \<and>
              val x' = val x @ concat (map snd ws)"
  using assms
proof (induction ws arbitrary: x)
  case Nil
  then show ?case by simp
next
  case (Cons w ws)
  obtain e d where w: "w = (e, d)" by fastforce
  with Cons.prems obtain x1 where
    x1: "wr e d x = Inr x1" "inv x1" "val x1 = val x @ d" "good (map fst ws) x1"
    using wr_appends [of x e "map fst ws" d] by auto
  with Cons.IH [of x1] Cons.prems w obtain x' where
    "res_fold (\<lambda>(e, d). wr e d) ws x1 = Inr x'" "inv x'" "val x' = val x1 @ concat (map snd ws)"
    by auto
  with x1 w show ?case by auto
qed

end

definition file_write :: "env \<Rightarrow> byte list \<Rightarrow> OMmapFile \<times> os \<Rightarrow> (OMmapFile \<times> os) res" where
  "file_write e d x = mf_Write e d (fst x) (snd x)"

interpretation mf: append_file file_write "\<lambda>(f, s). mm_value f s" "\<lambda>(f, s). mm_inv p f s"
  "\<lambda>es (f, s). good_envs es s" "2 ^ 61" for p
proof unfold_locales
  fix x :: "OMmapFile \<times> os" and e es and d :: "byte list"
  assume a: "case x of (f, s) \<Rightarrow> mm_inv p f s" "case x of (f, s) \<Rightarrow> good_envs (e # es) s"
    "length (case x of (f, s) \<Rightarrow> mm_value f s) + length d \<le> 2 ^ 61"
  obtain f s where x: "x = (f, s)" by fastforce
  from a x have "unat (offset f) + length d \<le> 2 ^ 61"
    using length_mm_value [of p f s] by simp
  with a x mf_Write_appends [of p f s e es d]
  show "\<exists>x'. file_write e d x = Inr x' \<and> (case x' of (f, s) \<Rightarrow> mm_inv p f s) \<and>
      (case x' of (f, s) \<Rightarrow> mm_value f s) = (case x of (f, s) \<Rightarrow> mm_value f s) @ d \<and>
      (case x' of (f, s) \<Rightarrow> good_envs es s)"
    by (auto simp: file_write_def)
qed

text \<open>
  A whole session: open for append, write, close. The file holds what it held before, followed
  by everything written, whatever the sizes and however often the mapping had to grow.
\<close>

definition file_session ::
  "env \<Rightarrow> string \<Rightarrow> (env \<times> byte list) list \<Rightarrow> OMmapFile \<Rightarrow> os \<Rightarrow> (OMmapFile \<times> os) res" where
  "file_session e p ws f s =
     res_bind (mf_Open e p True f s) (\<lambda>(f, s, _).
       res_bind (res_fold (\<lambda>(e, d). file_write e d) ws (f, s)) (\<lambda>(f, s). Inr (mf_Close f s)))"

text \<open>C28: Opening a file for append, writing any sequence of blocks and closing it leaves on disk the
  old content followed by the blocks in order, cut to exactly that length, when the kernel
  grants every request.\<close>

theorem file_session_appends:
  assumes closed: "\<not> IsOpen f"
    and e: "open_ret e \<noteq> kInvalidFile" and good: "good_envs (e # map fst ws) s"
    and old: "old = (case disk s p of None \<Rightarrow> [] | Some c \<Rightarrow> c)"
    and room: "length old + length (concat (map snd ws)) \<le> 2 ^ 61"
  shows "\<exists>s'. file_session e p ws f s = Inr (OMmapFile_new, s') \<and>
              disk s' p = Some (old @ concat (map snd ws))"
proof -
  from good obtain a where a: "mmap_ret e = Some a" "ftruncate_ok e" "maps s a = None"
    by (auto simp: good_envs_def)
  have "length old \<le> 2 ^ 62" using room by simp
  from mf_Open_append [OF closed e a(2,1) this old] obtain f1 s1 where
    o: "mf_Open e p True f s = Inr (f1, s1, True)" "mm_inv p f1 s1" "mm_value f1 s1 = old"
      "maps s1 = (maps s)(a \<mapsto> (p, unat (fsize f1)))" by blast
  have "good_envs (map fst ws) s1"
    unfolding good_envs_def
  proof (intro conjI ballI)
    fix x
    assume x: "x \<in> set (map fst ws)"
    then have "mmap_ret x \<noteq> Some a" using good a(1) by (force simp: good_envs_def image_iff)
    with x good o(4) show "\<exists>b. mmap_ret x = Some b \<and> maps s1 b = None"
      unfolding good_envs_def by fastforce
  qed (use good in \<open>auto simp: good_envs_def\<close>)
  with mf.wr_all [of p "(f1, s1)" ws] o room obtain f2 s2 where
    "res_fold (\<lambda>(e, d). file_write e d) ws (f1, s1) = Inr (f2, s2)" "mm_inv p f2 s2"
    "mm_value f2 s2 = old @ concat (map snd ws)" by auto
  moreover obtain s3 where "mf_Close f2 s2 = (OMmapFile_new, s3)" "disk s3 p = Some (mm_value f2 s2)"
    using mf_Close_cuts(1,2) [OF \<open>mm_inv p f2 s2\<close>] by (cases "mf_Close f2 s2") auto
  ultimately show ?thesis using o(1) by (simp add: file_session_def)
qed

section \<open>Instances\<close>

definition demo_os :: os where
  "demo_os = \<lparr>disk = [''f'' \<mapsto> ''wxyz''], fds = [3 \<mapsto> ''f''], maps = [0 \<mapsto> (''f'', 4)],
              stable = (\<lambda>_ _. None)\<rparr>"

definition demo_file :: OMmapFile where
  "demo_file = \<lparr>fd = 3, memory = Some 0, offset = 3, fsize = 4, syncPos = 1\<rparr>"

definition demo_env :: "nat \<Rightarrow> env" where
  "demo_env a = \<lparr>open_ret = 5, ftruncate_ok = True, mmap_ret = Some a\<rparr>"

lemma demo_file_inv: "mm_inv ''f'' demo_file demo_os"
  by (simp add: mm_inv_def demo_file_def demo_os_def kInvalidFile_def)

theorem Sync_unaligned_witness:
  "Sync demo_file demo_os = (demo_file\<lparr>syncPos := 3\<rparr>, demo_os, True)"
  using Sync_unaligned [OF demo_file_inv] by (simp add: demo_file_def page_size_def)

theorem mf_Write_leaks_witness:
  "\<exists>f' s'. mf_Write (demo_env 1) ''ab'' demo_file demo_os = Inr (f', s') \<and> memory f' \<noteq> Some 0 \<and>
     maps (snd (mf_Close f' s')) 0 = Some (''f'', 4)"
  using mf_Write_leaks [OF demo_file_inv, of "demo_env 1" "[]" 0 "''ab''"]
  by (simp add: demo_file_def demo_os_def demo_env_def good_envs_def)

theorem mf_Write_mmap_fails_witness:
  "mf_Write \<lparr>open_ret = 5, ftruncate_ok = True, mmap_ret = None\<rparr> ''ab'' demo_file demo_os = Inl NullDeref"
  by (rule mf_Write_mmap_fails [OF demo_file_inv]) (simp_all add: demo_file_def)

theorem file_session_appends_witness:
  "\<exists>s'. file_session (demo_env 1) ''f'' [(demo_env 2, ''ab''), (demo_env 3, ''c'')] OMmapFile_new demo_os =
      Inr (OMmapFile_new, s') \<and> disk s' ''f'' = Some ''wxyzabc''"
proof -
  let ?ws = "[(demo_env 2, ''ab''), (demo_env 3, ''c'')]"
  have closed: "\<not> IsOpen OMmapFile_new" by (simp add: IsOpen_def OMmapFile_new_def)
  have ret: "open_ret (demo_env 1) \<noteq> kInvalidFile" by (simp add: demo_env_def kInvalidFile_def)
  have good: "good_envs (demo_env 1 # map fst ?ws) demo_os"
    by (simp add: good_envs_def demo_env_def demo_os_def)
  have old: "''wxyz'' = (case disk demo_os ''f'' of None \<Rightarrow> [] | Some c \<Rightarrow> c)"
    by (simp add: demo_os_def)
  have room: "length ''wxyz'' + length (concat (map snd ?ws)) \<le> 2 ^ 61" by simp
  have "''wxyz'' @ concat (map snd ?ws) = ''wxyzabc''" by simp
  with file_session_appends [OF closed ret good old room] show ?thesis by (simp only:)
qed

theorem Truncate_then_Sync_witness:
  "\<exists>f1 s1 f2 s2. Truncate (demo_env 1) 1 (demo_file\<lparr>syncPos := 3\<rparr>) demo_os = Inr (f1, s1) \<and>
     mf_Write (demo_env 2) ''ab'' f1 s1 = Inr (f2, s2) \<and> mm_value f2 s2 = ''wab'' \<and>
     Sync f2 s2 = (f2, s2, False)"
proof -
  let ?f = "demo_file\<lparr>syncPos := 3\<rparr>"
  have inv: "mm_inv ''f'' ?f demo_os" using demo_file_inv by (simp add: mm_inv_def)
  have t: "Truncate (demo_env 1) 1 ?f demo_os =
      Inr (?f\<lparr>fsize := 1, offset := 1, memory := Some 1\<rparr>,
           sys_mmap (Some 1) 1 3 (sys_ftruncate 3 1 demo_os))"
    by (simp add: Truncate_def MapWriteOnly_def demo_file_def demo_env_def kInvalidFile_def Let_def)
  have "good_envs [demo_env 2] (snd (projr (Truncate (demo_env 1) 1 ?f demo_os)))"
    unfolding t by (simp add: good_envs_def demo_env_def demo_os_def sys_mmap_def sys_ftruncate_def)
  then show ?thesis
    using Truncate_then_Sync [OF inv, of "demo_env 1" 1 1 "''ab''" "demo_env 2"]
    by (auto simp: demo_file_def demo_env_def mm_value_def file_of_def demo_os_def)
qed

end
