(* ===== verification/Logger.thy ===== *)
theory Logger
  imports LogStream Buffer MmapFile
begin

text \<open>
  The shared half of netbridge/Logger.h and Logger.cc: the per-thread record buffers that
  \<open>Flush\<close> fills and \<open>Update\<close> drains, the record format between the two, and the writing of a
  record to the console and to the rotated log file. The parts of \<open>Flush\<close> and \<open>Update\<close> that run
  under \<open>mutex_\<close> are definitions of their own, so that they can be interleaved.
\<close>

section \<open>State\<close>

text \<open>\<open>std::map\<close> by thread id: an association list in key order.\<close>

primrec smap_put :: "nat \<Rightarrow> 'v \<Rightarrow> (nat \<times> 'v) list \<Rightarrow> (nat \<times> 'v) list" where
  "smap_put k v [] = [(k, v)]"
| "smap_put k v (x # xs) =
     (if k < fst x then (k, v) # x # xs
      else if k = fst x then (k, v) # xs
      else x # smap_put k v xs)"

record BufferInfo =
  inuse :: bool
  blog :: Buffer

record Logger =
  buffers :: "(nat \<times> BufferInfo) list"
  shutdown :: bool
  llevel :: uint
  directory :: "byte list"
  dest :: uint
  fileName :: "byte list"
  logfile :: OMmapFile

text \<open>
  What the logger sees of the rest of the process: the kernel and its coming answers, the coming
  readings of the clock, the output streams, the static file number, the time statics, the pid.
\<close>

record World =
  kern :: os
  answers :: "nat \<Rightarrow> env"
  asked :: nat
  clock :: "nat \<Rightarrow> int"
  ticks :: nat
  cout :: "byte list"
  cerr :: "byte list"
  seq :: uint
  statics :: TimeStatics
  pid :: nat

definition logConsole :: uint where "logConsole = push_bit 0 1"
definition logFile :: uint where "logFile = push_bit 1 1"
definition logSocket :: uint where "logSocket = push_bit 2 1"

definition kDefaultLogSize :: size_t where "kDefaultLogSize = 32 * 1024 * 1024"
definition kFlushThreshold :: size_t where "kFlushThreshold = 2 * 1024 * 1024"

definition BufferInfo_new :: BufferInfo where
  "BufferInfo_new = \<lparr>inuse = False, blog = Buffer_default\<rparr>"

definition Logger_new :: Logger where
  "Logger_new = \<lparr>buffers = [], shutdown = False, llevel = 0, directory = [], dest = 0,
                 fileName = [], logfile = OMmapFile_new\<rparr>"

section \<open>\<open>Init\<close> and \<open>Shutdown\<close>\<close>

text \<open>
  The outcome of \<open>mkdir\<close>: made, there already (\<open>EEXIST\<close>), or another error with its message,
  which \<open>perror\<close> prints.
\<close>

datatype mkdir_result = MkdirOk | MkdirExists | MkdirError "byte list"

definition MakeDir :: "mkdir_result \<Rightarrow> World \<Rightarrow> World \<times> bool" where
  "MakeDir r w =
     (case r of
        MkdirOk \<Rightarrow> (w, True)
      | MkdirExists \<Rightarrow> (w, True)
      | MkdirError msg \<Rightarrow> (w\<lparr>cerr := cerr w @ ''MakeDir failed:: '' @ msg @ [CHR 0x0A]\<rparr>, False))"

definition strip_slash :: "byte list \<Rightarrow> byte list res" where
  "strip_slash d =
     (if d = [] then Inl OutOfBounds else Inr (if last d = CHR ''/'' then butlast d else d))"

definition Logger_Init ::
  "mkdir_result \<Rightarrow> uint \<Rightarrow> uint \<Rightarrow> byte list option \<Rightarrow> Logger \<Rightarrow> World \<Rightarrow> (Logger \<times> World \<times> bool) res" where
  "Logger_Init mk level dst dir lg w =
     res_bind (strip_slash (case dir of Some d \<Rightarrow> d | None \<Rightarrow> ''.'')) (\<lambda>d.
       let lg = lg\<lparr>llevel := level, dest := dst, directory := d\<rparr> in
       Inr
         (if llevel lg = 0 then (lg, w, True)
          else if (dest lg AND logFile) \<noteq> 0 then
            (if directory lg = ''.'' then (lg, w, True)
             else let (w, made) = MakeDir mk w in (lg, w, made))
          else if \<not> (dest lg AND logConsole) \<noteq> 0 then
            (lg, w\<lparr>cerr := cerr w @ ''log has no output, but loglevel is '' @ dec_nat (unat level) @ [CHR 0x0A]\<rparr>,
             False)
          else (lg, w, True)))"

text \<open>\<open>addr\<close> is how the stream prints the address of the logger.\<close>

definition Logger_Shutdown :: "byte list \<Rightarrow> Logger \<Rightarrow> World \<Rightarrow> Logger \<times> World" where
  "Logger_Shutdown addr lg w =
     (if shutdown lg then (lg, w)
      else (lg\<lparr>shutdown := True\<rparr>, w\<lparr>cout := cout w @ ''stop logger '' @ addr @ [CHR 0x0A]\<rparr>))"

section \<open>Writing one record\<close>

definition next_env :: "World \<Rightarrow> env \<times> World" where
  "next_env w = (answers w (asked w), w\<lparr>asked := Suc (asked w)\<rparr>)"

definition read_clock :: "World \<Rightarrow> int \<times> World" where
  "read_clock w = (clock w (ticks w), w\<lparr>ticks := Suc (ticks w)\<rparr>)"

definition cells_bytes :: "cell list \<Rightarrow> byte list res" where
  "cells_bytes cs = (case those cs of None \<Rightarrow> Inl Uninit | Some bs \<Rightarrow> Inr bs)"

text \<open>The text a C string function sees: up to the terminator, which has to exist.\<close>

definition c_string :: "cell list \<Rightarrow> byte list res" where
  "c_string cs =
     (if Some (CHR 0x00) \<in> set cs then cells_bytes (takeWhile (\<lambda>c. c \<noteq> Some (CHR 0x00)) cs)
      else Inl OutOfBounds)"

definition garbage_tm :: tm where
  "garbage_tm = \<lparr>tm_year = 0, tm_mon = 0, tm_mday = 0, tm_hour = 0, tm_min = 0, tm_sec = 0\<rparr>"

definition MakeFileName :: "(int \<Rightarrow> tm) \<Rightarrow> Logger \<Rightarrow> World \<Rightarrow> (Logger \<times> World) res" where
  "MakeFileName lt lg w =
     (let (c, w) = read_clock w in
      res_bind (FormatTime lt (statics w) (Time_new c garbage_tm) (fresh_block 32)) (\<lambda>(st, _, name, len).
      res_bind (put_at name (unat len) [CHR 0x00]) (\<lambda>name.
      res_bind (c_string name) (\<lambda>name.
        let n = seq w + 1 in
        Inr (lg\<lparr>fileName := directory lg @ ''/'' @ name @ ''@'' @ dec_nat (pid w) @ ''-'' @
                             dec_nat (unat n) @ ''.log''\<rparr>,
             w\<lparr>statics := st, seq := n\<rparr>)))))"

definition CheckChangeFile :: "Logger \<Rightarrow> bool" where
  "CheckChangeFile lg =
     (if \<not> IsOpen (logfile lg) then True
      else kDefaultLogSize < offset (logfile lg) + kMaxCharPerLog)"

definition OpenLogFile :: "Logger \<Rightarrow> World \<Rightarrow> (Logger \<times> World \<times> bool) res" where
  "OpenLogFile lg w =
     (let (e, w) = next_env w in
      res_bind (mf_Open e (fileName lg) True (logfile lg) (kern w)) (\<lambda>(f, s, ok).
        Inr (lg\<lparr>logfile := f\<rparr>, w\<lparr>kern := s\<rparr>, ok)))"

definition CloseLogFile :: "Logger \<Rightarrow> World \<Rightarrow> Logger \<times> World" where
  "CloseLogFile lg w = (let (f, s) = mf_Close (logfile lg) (kern w) in (lg\<lparr>logfile := f\<rparr>, w\<lparr>kern := s\<rparr>))"

text \<open>One round of the rotation loop, and the loop.\<close>

definition rotate_once :: "(int \<Rightarrow> tm) \<Rightarrow> Logger \<times> World \<Rightarrow> ((Logger \<times> World) \<times> bool) res" where
  "rotate_once lt x =
     (let (lg, w) = CloseLogFile (fst x) (snd x) in
      res_bind (MakeFileName lt lg w) (\<lambda>(lg, w).
      res_bind (OpenLogFile lg w) (\<lambda>(lg, w, ok). Inr ((lg, w), ok))))"

partial_function (option) rotate_loop ::
  "(int \<Rightarrow> tm) \<Rightarrow> Logger \<times> World \<Rightarrow> (Logger \<times> World) res option" where
  "rotate_loop lt x =
     (if CheckChangeFile (fst x) then
        (case rotate_once lt x of
           Inl e \<Rightarrow> Some (Inl e)
         | Inr r \<Rightarrow> if snd r then rotate_loop lt (fst r) else Some (Inr (fst r)))
      else Some (Inr x))"

datatype LogColor = Red | Green | Yellow | Normal | Blue | Purple | White

definition color_string :: "LogColor \<Rightarrow> byte list" where
  "color_string c = CHR 0x1B # (case c of
       Red \<Rightarrow> ''[1;31;40m'' | Green \<Rightarrow> ''[1;32;40m'' | Yellow \<Rightarrow> ''[1;33;40m'' | Normal \<Rightarrow> ''[0m''
     | Blue \<Rightarrow> ''[1;34;40m'' | Purple \<Rightarrow> ''[1;35;40m'' | White \<Rightarrow> ''[1;37;40m'')"

definition level_color :: "uint \<Rightarrow> LogColor" where
  "level_color level =
     (if level = logINFO then Green else if level = logDEBUG then White
      else if level = logWARN then Yellow else if level = logERROR then Red else Red)"

text \<open>\<open>data\<close> are the \<open>len\<close> bytes at the pointer; \<open>%.*s\<close> stops at a terminator.\<close>

definition write_console :: "uint \<Rightarrow> byte list \<Rightarrow> World \<Rightarrow> World" where
  "write_console level data w =
     w\<lparr>cout := cout w @ color_string (level_color level) @
               takeWhile (\<lambda>c. c \<noteq> CHR 0x00) data @ color_string Normal\<rparr>"

definition write_file :: "(int \<Rightarrow> tm) \<Rightarrow> byte list \<Rightarrow> Logger \<times> World \<Rightarrow> (Logger \<times> World) res" where
  "write_file lt data x =
     (case rotate_loop lt x of
        None \<Rightarrow> Inl Diverges
      | Some r \<Rightarrow>
          res_bind r (\<lambda>(lg, w).
            check (IsOpen (logfile lg)) AssertFail
              (let (e, w) = next_env w in
               res_bind (mf_Write e data (logfile lg) (kern w)) (\<lambda>(f, s).
                 Inr (lg\<lparr>logfile := f\<rparr>, w\<lparr>kern := s\<rparr>)))))"

definition WriteLog ::
  "(int \<Rightarrow> tm) \<Rightarrow> uint \<Rightarrow> byte list \<Rightarrow> Logger \<times> World \<Rightarrow> (Logger \<times> World) res" where
  "WriteLog lt level data x =
     check (0 < length data) AssertFail
       (let x = (if (dest (fst x) AND logConsole) \<noteq> 0
                 then (fst x, write_console level data (snd x)) else x) in
        if (dest (fst x) AND logFile) \<noteq> 0 then write_file lt data x else Inr x)"

section \<open>The record format\<close>

definition load_le :: "nat \<Rightarrow> cell list \<Rightarrow> nat \<Rightarrow> nat res" where
  "load_le k data i =
     check (i + k \<le> length data) OutOfBounds
       (res_bind (cells_bytes (take k (drop i data))) (\<lambda>bs. Inr (dec_le bs)))"

definition minLogSize :: size_t where "minLogSize = 12"

text \<open>The loop of \<open>_Log\<close>: \<open>data\<close> is the readable part of the buffer, \<open>dataLen\<close> its length.\<close>

definition log_header :: "cell list \<Rightarrow> size_t \<Rightarrow> (uint \<times> size_t) res" where
  "log_header data nOffset =
     res_bind (load_le 4 data (unat nOffset)) (\<lambda>level.
     res_bind (load_le 8 data (unat nOffset + 4)) (\<lambda>len. Inr (of_nat level, of_nat len)))"

definition log_record ::
  "(int \<Rightarrow> tm) \<Rightarrow> cell list \<Rightarrow> size_t \<Rightarrow> uint \<Rightarrow> size_t \<Rightarrow> Logger \<times> World \<Rightarrow> (Logger \<times> World) res" where
  "log_record lt data nOffset level len x =
     (let i = unat (nOffset + minLogSize) in
      check (i + unat len \<le> length data) OutOfBounds
        (res_bind (cells_bytes (take (unat len) (drop i data))) (\<lambda>bs. WriteLog lt level bs x)))"

definition skip_message :: "byte list" where
  "skip_message = ''_WriteLog skip 0!!!'' @ [CHR 0x0A, CHR '' '']"

partial_function (option) log_loop ::
  "(int \<Rightarrow> tm) \<Rightarrow> cell list \<Rightarrow> size_t \<Rightarrow> size_t \<Rightarrow> Logger \<times> World \<Rightarrow>
   ((Logger \<times> World) \<times> size_t) res option" where
  "log_loop lt data dataLen nOffset x =
     (if nOffset + minLogSize < dataLen then
        (case log_header data nOffset of
           Inl e \<Rightarrow> Some (Inl e)
         | Inr h \<Rightarrow>
             if dataLen < nOffset + minLogSize + snd h then
               Some (Inr ((fst x, (snd x)\<lparr>cerr := cerr (snd x) @ skip_message\<rparr>), nOffset))
             else
               (case log_record lt data nOffset (fst h) (snd h) x of
                  Inl e \<Rightarrow> Some (Inl e)
                | Inr x \<Rightarrow> log_loop lt data dataLen (nOffset + (minLogSize + snd h)) x))
      else Some (Inr (x, nOffset)))"

definition Logger_Log ::
  "(int \<Rightarrow> tm) \<Rightarrow> cell list \<Rightarrow> size_t \<Rightarrow> Logger \<times> World \<Rightarrow> ((Logger \<times> World) \<times> size_t) res" where
  "Logger_Log lt data dataLen x =
     (case log_loop lt data dataLen 0 x of None \<Rightarrow> Inl Diverges | Some r \<Rightarrow> r)"

section \<open>\<open>Flush\<close>\<close>

text \<open>
  Under the lock: a stopped logger writes the line to the standard output and \<open>Flush\<close> returns;
  otherwise the thread's buffer is found or created and marked in use.
\<close>

datatype flush_entry = Stopped | Entered Logger

definition flush_enter :: "nat \<Rightarrow> Logger \<Rightarrow> flush_entry res" where
  "flush_enter me lg =
     (if shutdown lg then Inr Stopped
      else
        let info = (case map_of (buffers lg) me of None \<Rightarrow> BufferInfo_new | Some i \<Rightarrow> i) in
        check (\<not> inuse info) AssertFail
          (Inr (Entered (lg\<lparr>buffers := smap_put me (info\<lparr>inuse := True\<rparr>) (buffers lg)\<rparr>))))"

text \<open>Outside the lock: level, length and line go into the thread's buffer.\<close>

definition flush_push :: "uint \<Rightarrow> Tls \<Rightarrow> Buffer \<Rightarrow> Buffer res" where
  "flush_push level t b =
     res_bind (PushData (Some (map Some (enc_le 4 (unat level)))) 4 b) (\<lambda>(b, _).
     res_bind (PushData (Some (map Some (enc_le 8 (unat (pos t))))) 8 b) (\<lambda>(b, _).
     res_bind (PushData (Some (tmpBuffer t)) (pos t) b) (\<lambda>(b, _). Inr b)))"

definition flush_store :: "nat \<Rightarrow> uint \<Rightarrow> Tls \<Rightarrow> Logger \<Rightarrow> Logger res" where
  "flush_store me level t lg =
     (case map_of (buffers lg) me of
        None \<Rightarrow> Inl NullDeref
      | Some info \<Rightarrow>
          res_bind (flush_push level t (blog info)) (\<lambda>b.
            Inr (lg\<lparr>buffers := smap_put me (info\<lparr>blog := b\<rparr>) (buffers lg)\<rparr>)))"

text \<open>The buffer is released; the flag asks for \<open>LogManager::AddBusyLog\<close>.\<close>

definition flush_leave :: "nat \<Rightarrow> Logger \<Rightarrow> (Logger \<times> bool) res" where
  "flush_leave me lg =
     (case map_of (buffers lg) me of
        None \<Rightarrow> Inl NullDeref
      | Some info \<Rightarrow>
          Inr (lg\<lparr>buffers := smap_put me (info\<lparr>inuse := False\<rparr>) (buffers lg)\<rparr>,
               kFlushThreshold < ReadableSize (blog info)))"

definition Logger_Flush ::
  "(int \<Rightarrow> tm) \<Rightarrow> nat \<Rightarrow> byte list \<Rightarrow> uint \<Rightarrow> Tls \<Rightarrow> Logger \<Rightarrow> World \<Rightarrow>
   (Tls \<times> Logger \<times> World \<times> bool) res" where
  "Logger_Flush lt me str level t lg w =
     (let (c, w') = read_clock w in
      res_bind (flush_format lt (llevel lg) level str (Time_new c garbage_tm) (statics w) t)
        (\<lambda>(line, st, t).
         if \<not> line then Inr (t, lg, w, False)
         else
           let w = w'\<lparr>statics := st\<rparr> in
           res_bind (flush_enter me lg) (\<lambda>entry.
             case entry of
               Stopped \<Rightarrow>
                 res_bind (c_string (tmpBuffer t)) (\<lambda>s. Inr (t, lg, w\<lparr>cout := cout w @ s\<rparr>, False))
             | Entered lg \<Rightarrow>
                 res_bind (flush_store me level t lg) (\<lambda>lg.
                 res_bind (flush_leave me lg) (\<lambda>(lg, busy). Inr (log_Reset t, lg, w, busy))))))"

section \<open>\<open>Update\<close>\<close>

text \<open>Under the lock: buffers not in use are taken out, in key order; the others stay.\<close>

fun take_buffers :: "(nat \<times> BufferInfo) list \<Rightarrow> (nat \<times> BufferInfo) list \<times> Buffer list \<times> bool" where
  "take_buffers [] = ([], [], False)"
| "take_buffers ((k, info) # m) =
     (let (keep, taken, todo) = take_buffers m in
      if inuse info then ((k, info) # keep, taken, True) else (keep, blog info # taken, todo))"

definition update_enter :: "Logger \<Rightarrow> Logger \<times> Buffer list \<times> bool" where
  "update_enter lg =
     (let (keep, taken, todo) = take_buffers (buffers lg) in (lg\<lparr>buffers := keep\<rparr>, taken, todo))"

definition update_write :: "(int \<Rightarrow> tm) \<Rightarrow> Buffer \<Rightarrow> Logger \<times> World \<Rightarrow> (Logger \<times> World) res" where
  "update_write lt b x =
     (let data = (case ReadAddr b of None \<Rightarrow> [] | Some m \<Rightarrow> take (unat (ReadableSize b)) m);
          n = ReadableSize b in
      res_bind (Logger_Log lt data n x) (\<lambda>(x, nWritten).
        check (nWritten = n) AssertFail (Inr x)))"

definition update_sync :: "Logger \<times> World \<Rightarrow> Logger \<times> World" where
  "update_sync x =
     (let (f, s, _) = Sync (logfile (fst x)) (kern (snd x)) in
      ((fst x)\<lparr>logfile := f\<rparr>, (snd x)\<lparr>kern := s\<rparr>))"

definition Logger_Update :: "(int \<Rightarrow> tm) \<Rightarrow> Logger \<Rightarrow> World \<Rightarrow> (Logger \<times> World \<times> bool) res" where
  "Logger_Update lt lg w =
     (let (lg, tmpBufs, todo) = update_enter lg in
      res_bind (res_fold (update_write lt) tmpBufs (lg, w)) (\<lambda>x.
        let (lg, w) = update_sync x in Inr (lg, w, todo)))"

end
