(* ===== verification/LogRecords.thy ===== *)
theory LogRecords
  imports Logger
begin

text \<open>
  The record pipeline of the logger: what \<open>Flush\<close> stores is a sequence of encoded records, the
  loop of \<open>_Log\<close> decodes exactly these, and \<open>Update\<close> writes the records of every buffer that is
  not in use, in the order of the thread ids, each thread's in the order of its flushes.
\<close>

section \<open>The thread map\<close>

lemma map_of_smap_put: "map_of (smap_put k v m) = (map_of m)(k \<mapsto> v)"
  by (induction m) (auto simp: fun_eq_iff)

lemma set_fst_smap_put: "fst ` set (smap_put k v m) = insert k (fst ` set m)"
  by (induction m) auto

definition smap_ok :: "(nat \<times> 'v) list \<Rightarrow> bool" where
  "smap_ok m \<longleftrightarrow> sorted_wrt (<) (map fst m)"

lemma smap_ok_put: "smap_ok m \<Longrightarrow> smap_ok (smap_put k v m)"
proof (induction m)
  case (Cons x m)
  then show ?case using set_fst_smap_put [of k v m] by (auto simp: smap_ok_def)
qed (simp add: smap_ok_def)

lemma smap_ok_distinct: "smap_ok m \<Longrightarrow> distinct (map fst m)"
  by (auto simp: smap_ok_def strict_sorted_iff)

section \<open>Encoding and decoding records\<close>

type_synonym rec = "uint \<times> byte list"

definition enc_record :: "rec \<Rightarrow> byte list" where
  "enc_record r = enc_le 4 (unat (fst r)) @ enc_le 8 (length (snd r)) @ snd r"

definition enc_records :: "rec list \<Rightarrow> byte list" where
  "enc_records rs = concat (map enc_record rs)"

abbreviation write_records ::
  "(int \<Rightarrow> tm) \<Rightarrow> rec list \<Rightarrow> Logger \<times> World \<Rightarrow> (Logger \<times> World) res" where
  "write_records lt \<equiv> res_fold (\<lambda>r. WriteLog lt (fst r) (snd r))"

lemma length_enc_record [simp]: "length (enc_record r) = 12 + length (snd r)"
  by (simp add: enc_record_def)

lemma those_map_Some [simp]: "those (map Some xs) = Some xs"
  by (induction xs) auto

lemma cells_bytes_Some [simp]: "cells_bytes (map Some bs) = Inr bs"
  by (simp add: cells_bytes_def)

lemma load_le_at:
  assumes "data = P @ map Some (enc_le k n) @ Q" "n < 256 ^ k"
  shows "load_le k data (length P) = Inr n"
  using assms by (simp add: load_le_def dec_enc_le)

lemma minLogSize_unat [simp]: "unat minLogSize = 12"
  by (simp add: minLogSize_def)

text \<open>One record of the loop.\<close>

lemma log_loop_step:
  fixes r :: rec and P Q :: "cell list"
  defines "data \<equiv> P @ map Some (enc_record r) @ Q"
  assumes len: "length data < 2 ^ 63" and ne: "snd r \<noteq> []"
  shows "log_loop lt data (of_nat (length data)) (of_nat (length P)) x =
    (case WriteLog lt (fst r) (snd r) x of
       Inl e \<Rightarrow> Some (Inl e)
     | Inr x \<Rightarrow> log_loop lt data (of_nat (length data)) (of_nat (length (P @ map Some (enc_record r)))) x)"
proof -
  obtain l s where r: "r = (l, s)" by fastforce
  let ?p = "length P"
  have total: "length data = ?p + 12 + length s + length Q" by (simp add: data_def r)
  have up: "unat (of_nat ?p :: size_t) = ?p" using len total by (intro unat_of_nat64) simp
  have us: "unat (of_nat (length s) :: size_t) = length s" using len total by (intro unat_of_nat64) simp
  have ud: "unat (of_nat (length data) :: size_t) = length data" using len by (intro unat_of_nat64) simp
  have u12: "unat (of_nat ?p + minLogSize) = ?p + 12" using len total up by (simp add: unat_simps)
  have u12s: "unat (of_nat ?p + minLogSize + of_nat (length s)) = ?p + 12 + length s"
    using len total u12 us by (simp add: unat_simps)
  have ls: "length s < 2 ^ 63" using len total by simp
  have "load_le 4 data (length P) = Inr (unat l)"
    using unsigned_less [of l] by (intro load_le_at) (simp_all add: data_def r enc_record_def)
  moreover have "load_le 8 data (length (P @ map Some (enc_le 4 (unat l)))) = Inr (length s)"
    using ls by (intro load_le_at) (simp_all add: data_def r enc_record_def)
  ultimately have hd: "log_header data (of_nat ?p) = Inr (l, of_nat (length s))"
    by (simp add: log_header_def up)
  have "drop (?p + 12) data = map Some s @ Q" by (simp add: data_def r enc_record_def)
  then have rec: "log_record lt data (of_nat ?p) l (of_nat (length s)) x = WriteLog lt l s x"
    unfolding log_record_def Let_def u12 us using total by simp
  have "\<not> of_nat (length data) < of_nat ?p + minLogSize + (of_nat (length s) :: size_t)"
    unfolding less64_iff u12s ud using total by simp
  moreover have "of_nat ?p + minLogSize < (of_nat (length data) :: size_t)"
    unfolding less64_iff u12 ud using total ne r by simp
  ultimately have step: "log_loop lt data (of_nat (length data)) (of_nat ?p) x =
    (case WriteLog lt l s x of
       Inl e \<Rightarrow> Some (Inl e)
     | Inr x \<Rightarrow> log_loop lt data (of_nat (length data)) (of_nat ?p + (minLogSize + of_nat (length s))) x)"
    using hd rec by (subst log_loop.simps) (simp split: sum.split)
  have off: "of_nat ?p + (minLogSize + of_nat (length s)) =
      (of_nat (length (P @ map Some (enc_record r))) :: size_t)"
    by (simp add: r minLogSize_def)
  show ?thesis using step unfolding off unfolding r fst_conv snd_conv .
qed

text \<open>The whole loop: it returns, having written every record, in order.\<close>

lemma log_loop_records:
  assumes "length P + length (enc_records rs) < 2 ^ 63" "\<forall>r \<in> set rs. snd r \<noteq> []"
  shows "log_loop lt (P @ map Some (enc_records rs)) (of_nat (length P + length (enc_records rs)))
      (of_nat (length P)) x =
    Some (res_bind (write_records lt rs x) (\<lambda>x. Inr (x, of_nat (length P + length (enc_records rs)))))"
  using assms
proof (induction rs arbitrary: P x)
  case Nil
  then have "unat (of_nat (length P) :: size_t) = length P" by (intro unat_of_nat64) simp
  moreover from this Nil have "unat (of_nat (length P) + minLogSize) = length P + 12"
    by (simp add: enc_records_def unat_simps)
  ultimately show ?case by (subst log_loop.simps) (simp add: enc_records_def less64_iff)
next
  case (Cons r rs)
  let ?data = "P @ map Some (enc_records (r # rs))"
  let ?P = "P @ map Some (enc_record r)"
  have data: "?data = P @ map Some (enc_record r) @ map Some (enc_records rs)"
    by (simp add: enc_records_def)
  have data': "?data = ?P @ map Some (enc_records rs)" by (simp add: enc_records_def)
  have len: "length P + length (enc_records (r # rs)) = length ?data"
    "length ?P + length (enc_records rs) = length ?data"
    by (simp_all add: enc_records_def)
  have small: "length ?data < 2 ^ 63" using Cons.prems(1) unfolding len .
  have ne: "snd r \<noteq> []" using Cons.prems(2) by simp
  have step: "log_loop lt ?data (of_nat (length ?data)) (of_nat (length P)) x =
    (case WriteLog lt (fst r) (snd r) x of
       Inl e \<Rightarrow> Some (Inl e)
     | Inr x \<Rightarrow> log_loop lt ?data (of_nat (length ?data)) (of_nat (length ?P)) x)"
    using log_loop_step [of P r "map Some (enc_records rs)" lt x] small ne
    unfolding data by simp
  show ?case
  proof (cases "WriteLog lt (fst r) (snd r) x")
    case (Inl e)
    with step show ?thesis unfolding len by simp
  next
    case (Inr x1)
    have "log_loop lt (?P @ map Some (enc_records rs)) (of_nat (length ?data)) (of_nat (length ?P)) x1 =
      Some (res_bind (write_records lt rs x1) (\<lambda>x. Inr (x, of_nat (length ?data))))"
      using Cons.IH [of ?P x1] small Cons.prems(2) unfolding len by simp
    with step Inr show ?thesis unfolding len data' [symmetric] by simp
  qed
qed

lemma Logger_Log_records:
  assumes "length (enc_records rs) < 2 ^ 63" "\<forall>r \<in> set rs. snd r \<noteq> []"
  shows "Logger_Log lt (map Some (enc_records rs)) (of_nat (length (enc_records rs))) x =
    res_bind (write_records lt rs x) (\<lambda>x. Inr (x, of_nat (length (enc_records rs))))"
  using log_loop_records [of "[]" rs lt x] assms by (simp add: Logger_Log_def)

section \<open>What a buffer holds\<close>

definition holds :: "Buffer \<Rightarrow> rec list \<Rightarrow> bool" where
  "holds b rs \<longleftrightarrow> buffer_inv b \<and> contents b = map Some (enc_records rs) \<and> (\<forall>r \<in> set rs. snd r \<noteq> [])"

lemma holds_empty: "holds Buffer_default []"
  by (simp add: holds_def buffer_inv_default enc_records_def)

text \<open>Storing a finished line appends one record.\<close>

lemma flush_push_record:
  assumes b: "holds b rs" and t: "tls_inv t" and line: "take (unat (pos t)) (tmpBuffer t) = map Some line"
    and room: "length (enc_records rs) + 12 + unat (pos t) < 2 ^ 63 - 1"
  shows "\<exists>b'. flush_push level t b = Inr b' \<and> holds b' (rs @ [(level, line)])"
proof -
  let ?l = "map Some (enc_le 4 (unat level)) :: cell list"
  let ?n = "map Some (enc_le 8 (unat (pos t))) :: cell list"
  have inv: "buffer_inv b" and c: "contents b = map Some (enc_records rs)"
    using b by (auto simp: holds_def)
  have p: "length (tmpBuffer t) = 2048" "33 \<le> unat (pos t)" "unat (pos t) \<le> 2048"
    using t by (auto simp: tls_inv_def)
  have "length (take (unat (pos t)) (tmpBuffer t)) = unat (pos t)" using p by simp
  then have ll: "length line = unat (pos t)" unfolding line by simp
  from PushData_appends [OF inv, of 4 ?l] c room obtain b1 where
    b1: "PushData (Some ?l) 4 b = Inr (b1, 4)" "buffer_inv b1" "contents b1 = contents b @ ?l" by auto
  from PushData_appends [OF b1(2), of 8 ?n] b1(3) c room obtain b2 where
    b2: "PushData (Some ?n) 8 b1 = Inr (b2, 8)" "buffer_inv b2" "contents b2 = contents b @ ?l @ ?n" by auto
  have "length (contents b2) + unat (pos t) < 2 ^ 63 - 1" using b2(3) c room by simp
  from PushData_appends [OF b2(2) _ this, of "tmpBuffer t"] p obtain b3 where
    b3: "PushData (Some (tmpBuffer t)) (pos t) b2 = Inr (b3, pos t)" "buffer_inv b3"
      "contents b3 = contents b @ ?l @ ?n @ map Some line"
    using b2(3) line by auto
  have "flush_push level t b = Inr b3" using b1 b2 b3 by (simp add: flush_push_def)
  moreover have "line \<noteq> []" using ll p by auto
  then have "holds b3 (rs @ [(level, line)])"
    using b3(2,3) b c ll by (auto simp: holds_def enc_records_def enc_record_def)
  ultimately show ?thesis by blast
qed

lemma update_write_records:
  assumes "holds b rs" "length (enc_records rs) < 2 ^ 63"
  shows "update_write lt b x = write_records lt rs x"
proof -
  have inv: "buffer_inv b" and c: "contents b = map Some (enc_records rs)"
    and ne: "\<forall>r \<in> set rs. snd r \<noteq> []" using assms by (auto simp: holds_def)
  have rs: "unat (ReadableSize b) = length (enc_records rs)"
    using unat_ReadableSize [OF inv] c by simp
  then have n: "ReadableSize b = of_nat (length (enc_records rs))"
    by (metis word_unat_eq_iff unat_of_nat64 unat_bound64)
  have "(case ReadAddr b of None \<Rightarrow> [] | Some m \<Rightarrow> take (unat (ReadableSize b)) m) = contents b"
    using rs c inv unat_ReadableSize [OF inv]
    by (auto simp: ReadAddr_def contents_def ReadableSize_def buffer_inv_def unat_simps split: option.splits)
  then have "update_write lt b x =
      res_bind (Logger_Log lt (map Some (enc_records rs)) (of_nat (length (enc_records rs))) x)
        (\<lambda>(x, nWritten). check (nWritten = of_nat (length (enc_records rs))) AssertFail (Inr x))"
    unfolding update_write_def Let_def c n by simp
  also have "\<dots> = write_records lt rs x"
    unfolding Logger_Log_records [OF assms(2) ne]
    by (cases "write_records lt rs x") simp_all
  finally show ?thesis .
qed

lemma flush_pushes:
  assumes "holds b rs" "list_all (\<lambda>(_, t, line). tls_inv t \<and> take (unat (pos t)) (tmpBuffer t) = map Some line) xs"
    and "length (enc_records rs) + 2060 * length xs < 2 ^ 62"
  shows "\<exists>b'. res_fold (\<lambda>(level, t, _). flush_push level t) xs b = Inr b' \<and>
    holds b' (rs @ map (\<lambda>(level, _, line). (level, line)) xs) \<and>
    length (enc_records (rs @ map (\<lambda>(level, _, line). (level, line)) xs)) < 2 ^ 62"
  using assms
proof (induction xs arbitrary: b rs)
  case (Cons x xs)
  obtain level t line where x: "x = (level, t, line)" by (cases x)
  have t: "tls_inv t" "take (unat (pos t)) (tmpBuffer t) = map Some line"
    using Cons.prems(2) x by simp_all
  then have p: "unat (pos t) \<le> 2048" "length (tmpBuffer t) = 2048" by (simp_all add: tls_inv_def)
  have "length line = length (take (unat (pos t)) (tmpBuffer t))" unfolding t(2) by simp
  then have len: "length line \<le> 2048" using p by simp
  from flush_push_record [OF Cons.prems(1) t, of level] Cons.prems(3) p obtain b1 where
    b1: "flush_push level t b = Inr b1" "holds b1 (rs @ [(level, line)])" by auto
  have "length (enc_records (rs @ [(level, line)])) + 2060 * length xs < 2 ^ 62"
    using Cons.prems(3) len by (simp add: enc_records_def)
  with Cons.IH [OF b1(2)] Cons.prems(2) b1(1) x show ?case by simp
qed simp

text \<open>C17: The two ends of the record format agree: whatever finished lines \<open>Flush\<close> pushes into a buffer one
  after the other, through every growth of the buffer, the loop of \<open>_Log\<close> takes out the same levels and
  lines in the same order, and nothing is left over.\<close>

theorem records_roundtrip:
  assumes "list_all (\<lambda>(_, t, line). tls_inv t \<and> take (unat (pos t)) (tmpBuffer t) = map Some line) xs"
    and "length xs < 2 ^ 50"
  shows "\<exists>b. res_fold (\<lambda>(level, t, _). flush_push level t) xs Buffer_default = Inr b \<and>
    update_write lt b x = res_fold (\<lambda>(level, _, line). WriteLog lt level line) xs x"
proof -
  let ?rs = "map (\<lambda>(level, _, line). (level, line)) xs"
  have "length (enc_records []) + 2060 * length xs < 2 ^ 62" using assms(2) by (simp add: enc_records_def)
  from flush_pushes [OF holds_empty assms(1) this] obtain b where
    b: "res_fold (\<lambda>(level, t, _). flush_push level t) xs Buffer_default = Inr b" "holds b ?rs"
      "length (enc_records ?rs) < 2 ^ 62" by auto
  have "write_records lt (map (\<lambda>(level, _, line). (level, line)) ys) x =
      res_fold (\<lambda>(level, _, line). WriteLog lt level line) ys x" for ys :: "(uint \<times> Tls \<times> byte list) list"
    by (induction ys arbitrary: x) (auto intro!: arg_cong2 [of _ _ _ _ res_bind])
  with b update_write_records [OF b(2), of lt x] show ?thesis by auto
qed

definition demo_lines :: "(uint \<times> Tls \<times> byte list) list" where
  "demo_lines = [(1, Tls_start, replicate 33 (CHR 0x00)), (8, Tls_start, replicate 33 (CHR 0x00))]"

theorem records_roundtrip_witness:
  "\<forall>lt x. \<exists>b. res_fold (\<lambda>(level, t, _). flush_push level t) demo_lines Buffer_default = Inr b \<and>
    update_write lt b x = res_fold (\<lambda>(level, _, line). WriteLog lt level line) demo_lines x"
proof (intro allI records_roundtrip)
  show "list_all (\<lambda>(_, t, line). tls_inv t \<and> take (unat (pos t)) (tmpBuffer t) = map Some line) demo_lines"
    using tls_inv_start(1) by (simp add: demo_lines_def Tls_start_def)
qed (simp add: demo_lines_def)

section \<open>\<open>Update\<close>\<close>

text \<open>The records waiting in the thread map, thread by thread.\<close>

definition pending :: "(nat \<times> BufferInfo) list \<Rightarrow> rec list list \<Rightarrow> bool" where
  "pending m rss \<longleftrightarrow> list_all2 (\<lambda>x rs. holds (blog (snd x)) rs) m rss \<and>
     (\<forall>rs \<in> set rss. length (enc_records rs) < 2 ^ 63)"

definition idle_records :: "(nat \<times> BufferInfo) list \<Rightarrow> rec list list \<Rightarrow> rec list" where
  "idle_records m rss = concat (map snd (filter (\<lambda>x. \<not> inuse (snd (fst x))) (zip m rss)))"

lemma take_buffers_spec:
  "take_buffers m = (filter (\<lambda>x. inuse (snd x)) m, map (blog \<circ> snd) (filter (\<lambda>x. \<not> inuse (snd x)) m),
     \<exists>x \<in> set m. inuse (snd x))"
  by (induction m) auto

lemma update_writes:
  assumes "pending m rss"
  shows "res_fold (update_write lt) (map (blog \<circ> snd) (filter (\<lambda>x. \<not> inuse (snd x)) m)) x =
    write_records lt (idle_records m rss) x"
  using assms
proof (induction m arbitrary: rss x)
  case Nil
  then show ?case by (simp add: pending_def idle_records_def)
next
  case (Cons i m)
  from Cons.prems obtain rs rss' where rss: "rss = rs # rss'" and i: "holds (blog (snd i)) rs"
    "length (enc_records rs) < 2 ^ 63" and p: "pending m rss'"
    by (auto simp: pending_def list_all2_Cons1)
  show ?case
  proof (cases "inuse (snd i)")
    case True
    with Cons.IH [OF p] rss show ?thesis by (simp add: idle_records_def)
  next
    case False
    have split: "idle_records (i # m) rss = rs @ idle_records m rss'"
      using False rss by (simp add: idle_records_def)
    have "res_fold (update_write lt) (map (blog \<circ> snd) (filter (\<lambda>x. \<not> inuse (snd x)) m)) =
        write_records lt (idle_records m rss')"
      by (rule ext) (rule Cons.IH [OF p])
    then show ?thesis
      using False unfolding split res_fold_append
      by (simp add: update_write_records [OF i] comp_def)
  qed
qed

text \<open>
  \<open>Update\<close> writes exactly the records of the idle buffers, keeps the buffers in use, syncs the
  file, and asks to be called again as long as some buffer was in use.
\<close>

lemma Logger_Update_writes:
  assumes "pending (buffers lg) rss"
  shows "Logger_Update lt lg w =
    res_bind (write_records lt (idle_records (buffers lg) rss)
        (lg\<lparr>buffers := filter (\<lambda>x. inuse (snd x)) (buffers lg)\<rparr>, w)) (\<lambda>x.
      Inr (fst (update_sync x), snd (update_sync x), \<exists>x \<in> set (buffers lg). inuse (snd x)))"
  using update_writes [OF assms]
  by (simp add: Logger_Update_def update_enter_def take_buffers_spec split_beta Let_def)

end
