(* ===== verification/LogFiles.thy ===== *)
theory LogFiles
  imports LogRecords
begin

text \<open>
  The log files of netbridge/Logger.cc: \<open>_MakeFileName\<close>, the rotation loop of \<open>_WriteLog\<close> and
  what the files hold afterwards. The abstract value of the whole sequence of files is
  \<open>log_bytes\<close>, the concatenation of what was written to each of them; a record is appended to
  it whether or not it caused a rotation, and no file grows beyond the limit.
\<close>

section \<open>File names\<close>

definition tm_at :: "(int \<Rightarrow> tm) \<Rightarrow> int \<Rightarrow> tm" where
  "tm_at lt c = tmv (UpdateTm lt (Time_new c garbage_tm))"

definition stamp_at :: "(int \<Rightarrow> tm) \<Rightarrow> int \<Rightarrow> byte list" where
  "stamp_at lt c = stamp_text (tm_at lt c) (MicroSeconds (Time_new c garbage_tm) mod 1000000)"

definition log_name :: "(int \<Rightarrow> tm) \<Rightarrow> byte list \<Rightarrow> nat \<Rightarrow> int \<Rightarrow> uint \<Rightarrow> byte list" where
  "log_name lt dir p c n =
     dir @ ''/'' @ stamp_at lt c @ ''@'' @ dec_nat p @ ''-'' @ dec_nat (unat n) @ ''.log''"

lemma digit_char_nz: "d < 16 \<Longrightarrow> digit_char d \<noteq> CHR 0x00"
proof -
  assume "d < 16"
  have "\<forall>d \<in> set [0..<16]. digit_char d \<noteq> CHR 0x00"
    by (simp add: upt_rec digit_char_def)
  with \<open>d < 16\<close> show ?thesis by simp
qed

lemma set_digits_of: "2 \<le> b \<Longrightarrow> c \<in> set (digits_of b n) \<Longrightarrow> \<exists>d < b. c = digit_char d"
proof (induction b n rule: digits_of.induct)
  case (1 b n)
  have digit: "\<exists>d < b. digit_char (n mod b) = digit_char d"
    using 1 by (intro exI [of _ "n mod b"]) simp
  show ?case
  proof (cases "n < b")
    case True
    with 1 show ?thesis by (subst (asm) (2) digits_of.simps) auto
  next
    case False
    with 1 have "c \<in> set (digits_of b (n div b)) \<or> c = digit_char (n mod b)"
      by (subst (asm) (2) digits_of.simps) auto
    with 1 False digit show ?thesis by auto
  qed
qed

lemma nul_dec_nat: "CHR 0x00 \<notin> set (dec_nat n)"
proof
  assume "CHR 0x00 \<in> set (dec_nat n)"
  then obtain d where "d < 10" "digit_char d = CHR 0x00"
    using set_digits_of [of 10 "CHR 0x00" n] unfolding dec_nat_def by auto
  then show False using digit_char_nz [of d] by simp
qed

lemma nul_fmt_int0: "0 \<le> z \<Longrightarrow> CHR 0x00 \<notin> set (fmt_int0 k z)"
  using nul_dec_nat [of "nat z"] by (simp add: fmt_int0_def pad_zero_def)

lemma nul_stamp: "tm_ok m \<Longrightarrow> 0 \<le> u \<Longrightarrow> CHR 0x00 \<notin> set (stamp_text m u)"
  by (simp add: stamp_text_def tm_ok_def nul_fmt_int0)

lemma length_stamp_at: "tm_ok (tm_at lt c) \<Longrightarrow> length (stamp_at lt c) = 27"
  by (simp add: stamp_at_def length_stamp_text)

lemma dec_nat_inj: "dec_nat m = dec_nat n \<Longrightarrow> m = n"
  by (metis read_dec_nat)

lemma log_name_inj:
  assumes "log_name lt d p c n = log_name lt d p c' n'" "tm_ok (tm_at lt c)" "tm_ok (tm_at lt c')"
  shows "n = n'"
proof -
  have "stamp_at lt c @ (''@'' @ dec_nat p @ ''-'' @ dec_nat (unat n) @ ''.log'') =
        stamp_at lt c' @ (''@'' @ dec_nat p @ ''-'' @ dec_nat (unat n') @ ''.log'')"
    using assms(1) by (simp add: log_name_def)
  moreover have "length (stamp_at lt c) = length (stamp_at lt c')"
    using assms by (simp add: length_stamp_at)
  ultimately have "''@'' @ dec_nat p @ ''-'' @ dec_nat (unat n) @ ''.log'' =
        ''@'' @ dec_nat p @ ''-'' @ dec_nat (unat n') @ ''.log''"
    by (metis append_eq_append_conv)
  then have "dec_nat (unat n) = dec_nat (unat n')" by simp
  then show ?thesis by (intro word_unat_eq_iff [THEN iffD2] dec_nat_inj)
qed

lemma c_string_terminated:
  "CHR 0x00 \<notin> set s \<Longrightarrow> c_string (map Some s @ Some (CHR 0x00) # rest) = Inr s"
proof -
  assume s: "CHR 0x00 \<notin> set s"
  then have "takeWhile (\<lambda>c. c \<noteq> Some (CHR 0x00)) (map Some s @ Some (CHR 0x00) # rest) = map Some s"
    by (subst takeWhile_append2) auto
  then show ?thesis by (simp add: c_string_def)
qed

lemma MakeFileName_makes:
  assumes st: "statics_ok (statics w)"
    and c: "0 \<le> clock w (ticks w)" "tm_ok (tm_at lt (clock w (ticks w)))"
  shows "MakeFileName lt lg w =
    Inr (lg\<lparr>fileName := log_name lt (directory lg) (pid w) (clock w (ticks w)) (seq w + 1)\<rparr>,
         w\<lparr>ticks := Suc (ticks w), statics := call_once_Init (statics w), seq := seq w + 1\<rparr>)"
proof -
  let ?t = "Time_new (clock w (ticks w)) garbage_tm"
  let ?s = "stamp_at lt (clock w (ticks w))"
  have now: "now ?t = clock w (ticks w)" by (simp add: Time_new_def Now_def)
  have len: "length ?s = 27" using c by (simp add: length_stamp_at)
  have fmt: "FormatTime lt (statics w) ?t (fresh_block 32) =
      Inr (call_once_Init (statics w), UpdateTm lt ?t,
           map Some ?s @ Some (CHR 0x00) # drop 28 (fresh_block 32), 27)"
    using FormatTime_writes [OF st, of lt ?t "fresh_block 32"] c now
    by (simp add: stamp_at_def tm_at_def)
  have "put_at (map Some ?s @ Some (CHR 0x00) # drop 28 (fresh_block 32)) 27 [CHR 0x00] =
      Inr (map Some ?s @ Some (CHR 0x00) # drop 28 (fresh_block 32))"
    using len by simp
  moreover have "c_string (map Some ?s @ Some (CHR 0x00) # drop 28 (fresh_block 32)) = Inr ?s"
    using c by (intro c_string_terminated) (simp add: stamp_at_def nul_stamp)
  ultimately show ?thesis
    using fmt by (simp add: MakeFileName_def read_clock_def log_name_def Let_def)
qed

section \<open>The files of a logger\<close>

text \<open>
  What the logger needs of its surroundings: a clock inside the tables of \<open>FormatTime\<close>, a
  kernel whose answers are descriptors, successes and fresh addresses, and no file yet under
  one of the names to come.
\<close>

definition good_world :: "(int \<Rightarrow> tm) \<Rightarrow> byte list \<Rightarrow> World \<Rightarrow> bool" where
  "good_world lt dir w \<longleftrightarrow> statics_ok (statics w) \<and>
     (\<forall>i \<ge> ticks w. 0 \<le> clock w i \<and> tm_ok (tm_at lt (clock w i))) \<and>
     (\<forall>i \<ge> asked w. open_ret (answers w i) \<noteq> kInvalidFile \<and> ftruncate_ok (answers w i) \<and>
        (\<exists>a. mmap_ret (answers w i) = Some a \<and> maps (kern w) a = None)) \<and>
     inj_on (\<lambda>i. mmap_ret (answers w i)) {asked w..} \<and>
     (\<forall>i \<ge> ticks w. \<forall>n. unat (seq w) < unat n \<longrightarrow>
        disk (kern w) (log_name lt dir (pid w) (clock w i) n) = None)"

text \<open>\<open>ns\<close> are the names of the files opened so far, the last one is being written.\<close>

definition files_ok :: "byte list list \<Rightarrow> Logger \<Rightarrow> World \<Rightarrow> bool" where
  "files_ok ns lg w \<longleftrightarrow>
     (if ns = [] then logfile lg = OMmapFile_new
      else mm_inv (last ns) (logfile lg) (kern w) \<and> distinct ns \<and>
           unat (offset (logfile lg)) \<le> 2 ^ 25 \<and>
           (\<forall>n \<in> set (butlast ns). \<exists>c. disk (kern w) n = Some c \<and> length c \<le> 2 ^ 25))"

definition closed_bytes :: "byte list list \<Rightarrow> os \<Rightarrow> byte list" where
  "closed_bytes ns s = concat (map (\<lambda>n. the (disk s n)) ns)"

definition log_bytes :: "byte list list \<Rightarrow> Logger \<Rightarrow> World \<Rightarrow> byte list" where
  "log_bytes ns lg w =
     (if ns = [] then []
      else closed_bytes (butlast ns) (kern w) @ mm_value (logfile lg) (kern w))"

lemma closed_bytes_snoc: "ns \<noteq> [] \<Longrightarrow> closed_bytes ns s = closed_bytes (butlast ns) s @ the (disk s (last ns))"
  by (induction ns rule: rev_induct) (simp_all add: closed_bytes_def)

lemma closed_bytes_cong:
  "(\<And>n. n \<in> set ns \<Longrightarrow> disk s n = disk s' n) \<Longrightarrow> closed_bytes ns s = closed_bytes ns s'"
  unfolding closed_bytes_def by (metis (no_types, lifting) map_eq_conv)

lemma files_ok_Nil: "files_ok [] lg w \<longleftrightarrow> logfile lg = OMmapFile_new"
  by (simp add: files_ok_def)

lemma files_ok_open:
  "ns \<noteq> [] \<Longrightarrow> files_ok ns lg w \<longleftrightarrow>
     mm_inv (last ns) (logfile lg) (kern w) \<and> distinct ns \<and> unat (offset (logfile lg)) \<le> 2 ^ 25 \<and>
     (\<forall>n \<in> set (butlast ns). \<exists>c. disk (kern w) n = Some c \<and> length c \<le> 2 ^ 25)"
  by (simp add: files_ok_def)

lemma files_ok_cong:
  assumes "logfile lg = logfile lg'" "kern w = kern w'"
  shows "files_ok ns lg w = files_ok ns lg' w'" "log_bytes ns lg w = log_bytes ns lg' w'"
  using assms by (simp_all add: files_ok_def log_bytes_def)

lemma last_notin_butlast: "distinct ns \<Longrightarrow> ns \<noteq> [] \<Longrightarrow> last ns \<notin> set (butlast ns)"
  by (induction ns rule: rev_induct) auto

lemma kDefaultLog_unat [simp]: "unat kDefaultLogSize = 33554432"
  by (simp add: kDefaultLogSize_def)

lemma CheckChangeFile_iff:
  assumes "mm_inv p (logfile lg) s" "unat (offset (logfile lg)) \<le> 2 ^ 25"
  shows "CheckChangeFile lg \<longleftrightarrow> 2 ^ 25 < unat (offset (logfile lg)) + 2048"
proof -
  have "IsOpen (logfile lg)" using assms(1) by (simp add: mm_inv_def IsOpen_def)
  moreover have "unat (offset (logfile lg) + kMaxCharPerLog) = unat (offset (logfile lg)) + 2048"
    using assms(2) by (simp add: unat_simps)
  ultimately show ?thesis by (simp add: CheckChangeFile_def less64_iff)
qed

text \<open>Closing the current file leaves its bytes on disk and every other file alone.\<close>

lemma CloseLogFile_keeps:
  assumes ok: "files_ok ns lg w"
  shows "\<exists>s. CloseLogFile lg w = (lg\<lparr>logfile := OMmapFile_new\<rparr>, w\<lparr>kern := s\<rparr>) \<and>
    closed_bytes ns s = log_bytes ns lg w \<and>
    (\<forall>n \<in> set ns. \<exists>c. disk s n = Some c \<and> length c \<le> 2 ^ 25) \<and>
    (\<forall>q. q \<notin> set ns \<longrightarrow> disk s q = disk (kern w) q) \<and>
    (\<forall>a. maps (kern w) a = None \<longrightarrow> maps s a = None)"
proof (cases "ns = []")
  case True
  with ok have lf: "logfile lg = OMmapFile_new" by (simp add: files_ok_def)
  then have "\<not> IsOpen (logfile lg)" by (simp add: OMmapFile_new_def IsOpen_def)
  then have "CloseLogFile lg w = (lg\<lparr>logfile := logfile lg\<rparr>, w\<lparr>kern := kern w\<rparr>)"
    by (simp add: CloseLogFile_def mf_Close_closed)
  with True lf show ?thesis
    by (intro exI [of _ "kern w"]) (simp add: closed_bytes_def log_bytes_def)
next
  case False
  let ?f = "logfile lg" and ?p = "last ns"
  define s where "s = snd (mf_Close ?f (kern w))"
  from ok False have inv: "mm_inv ?p ?f (kern w)" and d: "distinct ns"
    and small: "unat (offset ?f) \<le> 2 ^ 25"
    and old: "\<forall>n \<in> set (butlast ns). \<exists>c. disk (kern w) n = Some c \<and> length c \<le> 2 ^ 25"
    by (simp_all add: files_ok_def)
  have ns: "ns = butlast ns @ [?p]" using False by simp
  have notin: "?p \<notin> set (butlast ns)" using d False by (rule last_notin_butlast)
  note cuts = mf_Close_cuts [OF inv]
  have p: "disk s ?p = Some (mm_value ?f (kern w))" unfolding s_def by (rule cuts)
  have q: "\<And>q. q \<noteq> ?p \<Longrightarrow> disk s q = disk (kern w) q" unfolding s_def by (rule cuts)
  have "CloseLogFile lg w = (lg\<lparr>logfile := OMmapFile_new\<rparr>, w\<lparr>kern := s\<rparr>)"
    using cuts(2) by (simp add: CloseLogFile_def s_def split_beta Let_def)
  moreover have "closed_bytes (butlast ns) s = closed_bytes (butlast ns) (kern w)"
    using q notin by (intro closed_bytes_cong) metis
  then have "closed_bytes ns s = log_bytes ns lg w"
    using p False by (simp add: closed_bytes_snoc log_bytes_def)
  moreover have "\<exists>c. disk s n = Some c \<and> length c \<le> 2 ^ 25" if "n \<in> set ns" for n
  proof (cases "n = ?p")
    case True
    with p small length_mm_value [OF inv] show ?thesis by simp
  next
    case False
    with that have "n \<in> set (butlast ns)" by (subst (asm) ns) simp
    with old q False show ?thesis by auto
  qed
  moreover have "disk s n = disk (kern w) n" if "n \<notin> set ns" for n
    using that False by (intro q) auto
  moreover have "maps s a = None" if "maps (kern w) a = None" for a
    using that cuts(4) by (simp add: s_def)
  ultimately show ?thesis by blast
qed

text \<open>One round of rotation: the current file is closed, the next one is new, empty and open.\<close>

lemma rotate_once_opens:
  assumes ok: "files_ok ns lg w" and good: "good_world lt (directory lg) w"
    and room: "unat (seq w) + 1 < 2 ^ 32"
  shows "\<exists>f n w'. rotate_once lt (lg, w) = Inr ((lg\<lparr>fileName := n, logfile := f\<rparr>, w'), True) \<and>
    files_ok (ns @ [n]) (lg\<lparr>fileName := n, logfile := f\<rparr>) w' \<and> offset f = 0 \<and>
    log_bytes (ns @ [n]) (lg\<lparr>fileName := n, logfile := f\<rparr>) w' = log_bytes ns lg w \<and>
    good_world lt (directory lg) w' \<and> unat (seq w') = unat (seq w) + 1 \<and> cout w' = cout w"
proof -
  from CloseLogFile_keeps [OF ok] obtain s where
    s: "CloseLogFile lg w = (lg\<lparr>logfile := OMmapFile_new\<rparr>, w\<lparr>kern := s\<rparr>)"
      "closed_bytes ns s = log_bytes ns lg w"
      "\<forall>n \<in> set ns. \<exists>c. disk s n = Some c \<and> length c \<le> 2 ^ 25"
      "\<forall>q. q \<notin> set ns \<longrightarrow> disk s q = disk (kern w) q"
      "\<forall>a. maps (kern w) a = None \<longrightarrow> maps s a = None" by blast
  let ?c = "clock w (ticks w)" and ?e = "answers w (asked w)"
  let ?n = "log_name lt (directory lg) (pid w) ?c (seq w + 1)"
  have st: "statics_ok (statics w)" and c: "0 \<le> ?c" "tm_ok (tm_at lt ?c)"
    using good by (auto simp: good_world_def)
  have e: "open_ret ?e \<noteq> kInvalidFile" "ftruncate_ok ?e" using good by (auto simp: good_world_def)
  from good obtain a where a: "mmap_ret ?e = Some a" "maps (kern w) a = None"
    by (auto simp: good_world_def)
  have seq1: "unat (seq w + 1) = unat (seq w) + 1"
    using room by (simp add: unat_word_ariths)
  then have new: "disk (kern w) ?n = None" using good by (simp add: good_world_def)
  have old_some: "\<exists>c. disk (kern w) n = Some c" if "n \<in> set ns" for n
  proof -
    have "ns \<noteq> []" using that by auto
    then have "ns = butlast ns @ [last ns]" by simp
    then have "n \<in> set (butlast ns) \<or> n = last ns" using that by (metis Un_iff empty_iff empty_set insert_iff list.simps(15) set_append)
    with ok \<open>ns \<noteq> []\<close> show ?thesis by (auto simp: files_ok_def mm_inv_def)
  qed
  have notin: "?n \<notin> set ns" using new old_some [of ?n] by auto
  let ?lg = "lg\<lparr>fileName := ?n, logfile := OMmapFile_new\<rparr>"
  let ?w = "w\<lparr>kern := s, ticks := Suc (ticks w), statics := call_once_Init (statics w), seq := seq w + 1\<rparr>"
  have mk: "MakeFileName lt (lg\<lparr>logfile := OMmapFile_new\<rparr>) (w\<lparr>kern := s\<rparr>) = Inr (?lg, ?w)"
    using MakeFileName_makes [of "w\<lparr>kern := s\<rparr>" lt "lg\<lparr>logfile := OMmapFile_new\<rparr>"] st c by simp
  have closed: "\<not> IsOpen OMmapFile_new" by (simp add: IsOpen_def OMmapFile_new_def)
  have fresh: "[] = (case disk s ?n of None \<Rightarrow> [] | Some c \<Rightarrow> c)" using s(4) notin new by simp
  from mf_Open_append [OF closed e a(1) _ fresh] obtain f t where
    f: "mf_Open ?e ?n True OMmapFile_new s = Inr (f, t, True)" "mm_inv ?n f t" "mm_value f t = []"
      "maps t = (maps s)(a \<mapsto> (?n, unat (fsize f)))" "\<forall>q. q \<noteq> ?n \<longrightarrow> disk t q = disk s q"
    by auto
  have off: "unat (offset f) = 0" using length_mm_value [OF f(2)] f(3) by simp
  let ?lg' = "lg\<lparr>fileName := ?n, logfile := f\<rparr>" and ?w' = "?w\<lparr>asked := Suc (asked w), kern := t\<rparr>"
  have "rotate_once lt (lg, w) = Inr ((?lg', ?w'), True)"
    using s(1) mk f(1) by (simp add: rotate_once_def OpenLogFile_def next_env_def)
  moreover have keep: "disk t q = disk s q" if "q \<in> set ns" for q
    using f(5) notin that by metis
  have "distinct ns" using ok by (auto simp: files_ok_def split: if_splits)
  then have "files_ok (ns @ [?n]) ?lg' ?w'"
    using f(2) off s(3) notin keep by (simp add: files_ok_open)
  moreover have "closed_bytes ns t = closed_bytes ns s"
    by (intro closed_bytes_cong keep)
  then have "log_bytes (ns @ [?n]) ?lg' ?w' = log_bytes ns lg w"
    using f(3) s(2) by (simp add: log_bytes_def)
  moreover have "good_world lt (directory lg) ?w'"
    unfolding good_world_def
  proof (intro conjI allI impI)
    fix i assume "asked ?w' \<le> i"
    then have i: "asked w \<le> i" "i \<noteq> asked w" by auto
    then have "mmap_ret (answers w i) \<noteq> mmap_ret ?e"
      using good inj_onD [of "\<lambda>i. mmap_ret (answers w i)" "{asked w..}" i "asked w"]
      by (auto simp: good_world_def)
    with good i(1) a s(5) f(4) show "\<exists>a. mmap_ret (answers ?w' i) = Some a \<and> maps (kern ?w') a = None"
      by (auto simp: good_world_def) (metis option.inject)
  next
    fix i and n :: uint assume "ticks ?w' \<le> i" "unat (seq ?w') < unat n"
    then have i: "ticks w \<le> i" "unat (seq w) < unat n" "n \<noteq> seq w + 1" using seq1 by auto
    let ?m = "log_name lt (directory lg) (pid w) (clock w i) n"
    have "tm_ok (tm_at lt (clock w i))" using good i by (simp add: good_world_def)
    then have "?m \<noteq> ?n" using log_name_inj [of lt "directory lg" "pid w" "clock w i" n ?c "seq w + 1"] c i by auto
    moreover have "disk (kern w) ?m = None" using good i by (simp add: good_world_def)
    moreover from this have "?m \<notin> set ns" using old_some [of ?m] by auto
    ultimately show "disk (kern ?w') (log_name lt (directory lg) (pid ?w') (clock ?w' i) n) = None"
      using f(5) s(4) by simp
  qed (use good call_once_Init_ok in \<open>auto simp: good_world_def inj_on_def\<close>)
  moreover have "offset f = 0" using off by (simp add: unat_eq_0)
  ultimately show ?thesis using seq1 by (intro exI [of _ f] exI [of _ ?n] exI [of _ ?w']) simp
qed

text \<open>The rotation loop ends after at most one round: the new file has room for a line.\<close>

lemma rotate_loop_room:
  assumes ok: "files_ok ns lg w" and good: "good_world lt (directory lg) w"
    and room: "unat (seq w) + 1 < 2 ^ 32"
  shows "\<exists>f n ms w'. rotate_loop lt (lg, w) = Some (Inr (lg\<lparr>fileName := n, logfile := f\<rparr>, w')) \<and>
    files_ok (ns @ ms) (lg\<lparr>fileName := n, logfile := f\<rparr>) w' \<and> ns @ ms \<noteq> [] \<and>
    unat (offset f) + 2048 \<le> 2 ^ 25 \<and>
    log_bytes (ns @ ms) (lg\<lparr>fileName := n, logfile := f\<rparr>) w' = log_bytes ns lg w \<and>
    good_world lt (directory lg) w' \<and> unat (seq w') \<le> unat (seq w) + 1 \<and> cout w' = cout w"
proof (cases "CheckChangeFile lg")
  case False
  have "ns \<noteq> []"
  proof
    assume "ns = []"
    with ok have "logfile lg = OMmapFile_new" by (simp add: files_ok_def)
    with False show False by (simp add: CheckChangeFile_def IsOpen_def OMmapFile_new_def)
  qed
  with ok have "unat (offset (logfile lg)) + 2048 \<le> 2 ^ 25"
    using False CheckChangeFile_iff [of "last ns" lg "kern w"] by (auto simp: files_ok_def)
  with False ok good \<open>ns \<noteq> []\<close> show ?thesis
    by (intro exI [of _ "logfile lg"] exI [of _ "fileName lg"] exI [of _ "[]"] exI [of _ w])
      (simp add: rotate_loop.simps)
next
  case True
  from rotate_once_opens [OF ok good room] obtain f n w' where
    r: "rotate_once lt (lg, w) = Inr ((lg\<lparr>fileName := n, logfile := f\<rparr>, w'), True)"
      "files_ok (ns @ [n]) (lg\<lparr>fileName := n, logfile := f\<rparr>) w'" "offset f = 0"
      "log_bytes (ns @ [n]) (lg\<lparr>fileName := n, logfile := f\<rparr>) w' = log_bytes ns lg w"
      "good_world lt (directory lg) w'" "unat (seq w') = unat (seq w) + 1" "cout w' = cout w" by blast
  let ?lg = "lg\<lparr>fileName := n, logfile := f\<rparr>"
  have inv: "mm_inv n f (kern w')" using r(2) by (simp add: files_ok_def)
  then have "\<not> CheckChangeFile ?lg"
    using CheckChangeFile_iff [of n ?lg "kern w'"] r(3) by simp
  then have "rotate_loop lt (lg, w) = Some (Inr (?lg, w'))"
    using True r(1) by (simp add: rotate_loop.simps)
  with r show ?thesis
    by (intro exI [of _ f] exI [of _ n] exI [of _ "[n]"] exI [of _ w']) simp
qed

text \<open>Writing a line of at most 2048 bytes appends it to the sequence of files.\<close>

lemma write_file_appends:
  assumes ok: "files_ok ns lg w" and good: "good_world lt (directory lg) w"
    and room: "unat (seq w) + 1 < 2 ^ 32" and len: "length data \<le> 2048"
  shows "\<exists>f n ms w'. write_file lt data (lg, w) = Inr (lg\<lparr>fileName := n, logfile := f\<rparr>, w') \<and>
    files_ok (ns @ ms) (lg\<lparr>fileName := n, logfile := f\<rparr>) w' \<and>
    log_bytes (ns @ ms) (lg\<lparr>fileName := n, logfile := f\<rparr>) w' = log_bytes ns lg w @ data \<and>
    good_world lt (directory lg) w' \<and> unat (seq w') \<le> unat (seq w) + 1 \<and> cout w' = cout w"
proof -
  from rotate_loop_room [OF ok good room] obtain f n ms w1 where
    r: "rotate_loop lt (lg, w) = Some (Inr (lg\<lparr>fileName := n, logfile := f\<rparr>, w1))"
      "files_ok (ns @ ms) (lg\<lparr>fileName := n, logfile := f\<rparr>) w1" "ns @ ms \<noteq> []"
      "unat (offset f) + 2048 \<le> 2 ^ 25"
      "log_bytes (ns @ ms) (lg\<lparr>fileName := n, logfile := f\<rparr>) w1 = log_bytes ns lg w"
      "good_world lt (directory lg) w1" "unat (seq w1) \<le> unat (seq w) + 1" "cout w1 = cout w" by blast
  define ns' where "ns' = ns @ ms"
  note r = r [folded ns'_def]
  let ?p = "last ns'" and ?e = "answers w1 (asked w1)"
  have inv: "mm_inv ?p f (kern w1)" and d: "distinct ns'"
    and old: "\<forall>n \<in> set (butlast ns'). \<exists>c. disk (kern w1) n = Some c \<and> length c \<le> 2 ^ 25"
    using r(2) unfolding files_ok_open [OF r(3)] by simp_all
  have notin: "?p \<notin> set (butlast ns')"
    using d r(3) by (rule last_notin_butlast)
  have open_f: "IsOpen f" using inv by (simp add: mm_inv_def IsOpen_def)
  have envs: "good_envs [?e] (kern w1)" using r(6) by (auto simp: good_world_def good_envs_def)
  from r(6) obtain a where a: "mmap_ret ?e = Some a" "maps (kern w1) a = None"
    by (auto simp: good_world_def)
  have "unat (offset f) + length data \<le> 2 ^ 61" using r(4) len by simp
  from mf_Write_appends [OF inv envs this] obtain g t where
    g: "mf_Write ?e data f (kern w1) = Inr (g, t)" "mm_inv ?p g t"
      "mm_value g t = mm_value f (kern w1) @ data" "unat (offset g) = unat (offset f) + length data"
      "\<forall>q. q \<noteq> ?p \<longrightarrow> disk t q = disk (kern w1) q"
      "if unat (offset f) + length data \<le> unat (fsize f) then maps t = maps (kern w1)
       else memory g = mmap_ret ?e \<and> maps t = (maps (kern w1))(the (mmap_ret ?e) \<mapsto> (?p, unat (fsize g)))"
    by blast
  have maps: "maps t b = maps (kern w1) b" if "b \<noteq> a" for b
    using g(6) a that by (auto split: if_splits)
  let ?lg = "lg\<lparr>fileName := n, logfile := g\<rparr>"
  let ?w = "w1\<lparr>asked := Suc (asked w1), kern := t\<rparr>"
  have "write_file lt data (lg, w) = Inr (?lg, ?w)"
    using r(1) open_f g(1) by (simp add: write_file_def next_env_def)
  moreover have keep: "disk t q = disk (kern w1) q" if "q \<in> set (butlast ns')" for q
    using g(5) notin that by metis
  have "files_ok ns' ?lg ?w"
    using r(3,4) g(2,4) len old keep d by (simp add: files_ok_open)
  moreover have "closed_bytes (butlast ns') t = closed_bytes (butlast ns') (kern w1)"
    by (intro closed_bytes_cong keep)
  then have "log_bytes ns' ?lg ?w = log_bytes ns lg w @ data"
    using r(3) g(3) unfolding r(5) [symmetric] by (simp add: log_bytes_def)
  moreover have "good_world lt (directory lg) ?w"
    unfolding good_world_def
  proof (intro conjI allI impI)
    fix i assume "asked ?w \<le> i"
    then have i: "asked w1 \<le> i" "i \<noteq> asked w1" by auto
    then have "mmap_ret (answers w1 i) \<noteq> mmap_ret ?e"
      using r(6) inj_onD [of "\<lambda>i. mmap_ret (answers w1 i)" "{asked w1..}" i "asked w1"]
      by (auto simp: good_world_def)
    with r(6) i(1) a maps show "\<exists>a. mmap_ret (answers ?w i) = Some a \<and> maps (kern ?w) a = None"
      by (auto simp: good_world_def)
  next
    fix i and m :: uint assume "ticks ?w \<le> i" "unat (seq ?w) < unat m"
    then have "disk (kern w1) (log_name lt (directory lg) (pid w1) (clock w1 i) m) = None"
      using r(6) by (simp add: good_world_def)
    moreover from inv this have "log_name lt (directory lg) (pid w1) (clock w1 i) m \<noteq> ?p"
      by (auto simp: mm_inv_def)
    ultimately show "disk (kern ?w) (log_name lt (directory lg) (pid ?w) (clock ?w i) m) = None"
      using g(5) by simp
  qed (use r(6) in \<open>auto simp: good_world_def inj_on_def\<close>)
  ultimately show ?thesis using r(7,8) unfolding ns'_def
    by (intro exI [of _ g] exI [of _ n] exI [of _ ms] exI [of _ ?w]) simp
qed

text \<open>One record: the console gets its coloured text, the files its bytes.\<close>

definition console_text :: "rec \<Rightarrow> byte list" where
  "console_text r = color_string (level_color (fst r)) @ takeWhile (\<lambda>c. c \<noteq> CHR 0x00) (snd r) @
     color_string Normal"

definition console_out :: "Logger \<Rightarrow> rec list \<Rightarrow> byte list" where
  "console_out lg rs = (if (dest lg AND logConsole) \<noteq> 0 then concat (map console_text rs) else [])"

definition line_ok :: "rec \<Rightarrow> bool" where
  "line_ok r \<longleftrightarrow> snd r \<noteq> [] \<and> length (snd r) \<le> 2048"

lemma files_ok_cout [simp]:
  "files_ok ns lg (w\<lparr>cout := c\<rparr>) = files_ok ns lg w"
  "log_bytes ns lg (w\<lparr>cout := c\<rparr>) = log_bytes ns lg w"
  "good_world lt d (w\<lparr>cout := c\<rparr>) = good_world lt d w"
  by (simp_all add: files_ok_def log_bytes_def good_world_def)

lemma WriteLog_file:
  assumes ok: "files_ok ns lg w" and good: "good_world lt (directory lg) w"
    and room: "unat (seq w) + 1 < 2 ^ 32" and r: "line_ok r" and d: "(dest lg AND logFile) \<noteq> 0"
  shows "\<exists>f n ms w'. WriteLog lt (fst r) (snd r) (lg, w) = Inr (lg\<lparr>fileName := n, logfile := f\<rparr>, w') \<and>
    files_ok (ns @ ms) (lg\<lparr>fileName := n, logfile := f\<rparr>) w' \<and>
    log_bytes (ns @ ms) (lg\<lparr>fileName := n, logfile := f\<rparr>) w' = log_bytes ns lg w @ snd r \<and>
    good_world lt (directory lg) w' \<and> unat (seq w') \<le> unat (seq w) + 1 \<and>
    cout w' = cout w @ console_out lg [r]"
proof -
  let ?w = "if (dest lg AND logConsole) \<noteq> 0 then write_console (fst r) (snd r) w else w"
  have w: "?w = w\<lparr>cout := cout w @ console_out lg [r]\<rparr>"
    by (simp add: write_console_def console_text_def console_out_def)
  have "WriteLog lt (fst r) (snd r) (lg, w) = write_file lt (snd r) (lg, ?w)"
    using r d by (simp add: WriteLog_def line_ok_def)
  also have "\<dots> = write_file lt (snd r) (lg, w\<lparr>cout := cout w @ console_out lg [r]\<rparr>)"
    unfolding w ..
  finally show ?thesis
    using write_file_appends [of ns lg "w\<lparr>cout := cout w @ console_out lg [r]\<rparr>" lt "snd r"]
      ok good room r by (simp add: line_ok_def)
qed

lemma write_records_files:
  assumes "files_ok ns lg w" "good_world lt (directory lg) w" "unat (seq w) + length rs < 2 ^ 32"
    and "list_all line_ok rs" "(dest lg AND logFile) \<noteq> 0"
  shows "\<exists>f n ms w'. write_records lt rs (lg, w) = Inr (lg\<lparr>fileName := n, logfile := f\<rparr>, w') \<and>
    files_ok (ns @ ms) (lg\<lparr>fileName := n, logfile := f\<rparr>) w' \<and>
    log_bytes (ns @ ms) (lg\<lparr>fileName := n, logfile := f\<rparr>) w' = log_bytes ns lg w @ concat (map snd rs) \<and>
    good_world lt (directory lg) w' \<and> unat (seq w') \<le> unat (seq w) + length rs \<and>
    cout w' = cout w @ console_out lg rs"
  using assms
proof (induction rs arbitrary: ns lg w)
  case Nil
  then show ?case
    by (intro exI [of _ "logfile lg"] exI [of _ "fileName lg"] exI [of _ "[]"] exI [of _ w])
      (simp add: console_out_def)
next
  case (Cons r rs)
  have "unat (seq w) + 1 < 2 ^ 32" "line_ok r" using Cons.prems by auto
  from WriteLog_file [OF Cons.prems(1,2) this Cons.prems(5)] obtain f n ms w1 where
    a: "WriteLog lt (fst r) (snd r) (lg, w) = Inr (lg\<lparr>fileName := n, logfile := f\<rparr>, w1)"
      "files_ok (ns @ ms) (lg\<lparr>fileName := n, logfile := f\<rparr>) w1"
      "log_bytes (ns @ ms) (lg\<lparr>fileName := n, logfile := f\<rparr>) w1 = log_bytes ns lg w @ snd r"
      "good_world lt (directory lg) w1" "unat (seq w1) \<le> unat (seq w) + 1"
      "cout w1 = cout w @ console_out lg [r]" by blast
  let ?lg = "lg\<lparr>fileName := n, logfile := f\<rparr>"
  have prems: "good_world lt (directory ?lg) w1" "unat (seq w1) + length rs < 2 ^ 32"
    "list_all line_ok rs" "(dest ?lg AND logFile) \<noteq> 0" using Cons.prems a(4,5) by simp_all
  from Cons.IH [OF a(2) prems] obtain f' n' ms' w' where
    b: "write_records lt rs (?lg, w1) = Inr (?lg\<lparr>fileName := n', logfile := f'\<rparr>, w')"
      "files_ok ((ns @ ms) @ ms') (?lg\<lparr>fileName := n', logfile := f'\<rparr>) w'"
      "log_bytes ((ns @ ms) @ ms') (?lg\<lparr>fileName := n', logfile := f'\<rparr>) w' =
         log_bytes (ns @ ms) ?lg w1 @ concat (map snd rs)"
      "good_world lt (directory ?lg) w'" "unat (seq w') \<le> unat (seq w1) + length rs"
      "cout w' = cout w1 @ console_out ?lg rs" by blast
  with a show ?case
    by (intro exI [of _ f'] exI [of _ n'] exI [of _ "ms @ ms'"] exI [of _ w'])
      (simp add: console_out_def)
qed

section \<open>\<open>Update\<close> and the files\<close>

lemma mm_inv_sync: "mm_inv p f s \<Longrightarrow> mm_inv p (fst (Sync f s)) (fst (snd (Sync f s)))"
  by (auto simp: Sync_def sys_msync_def mm_inv_def split: option.splits)

lemma Sync_keeps:
  "disk (fst (snd (Sync f s))) = disk s" "fds (fst (snd (Sync f s))) = fds s"
  "maps (fst (snd (Sync f s))) = maps s" "offset (fst (Sync f s)) = offset f" "fd (fst (Sync f s)) = fd f"
  "f = OMmapFile_new \<Longrightarrow> fst (Sync f s) = OMmapFile_new"
  by (auto simp: Sync_def sys_msync_def OMmapFile_new_def split: option.splits)

lemma Sync_file_of: "file_of (fst (snd (Sync f s))) d = file_of s d"
  unfolding file_of_def Sync_keeps ..

lemma update_sync_keeps:
  assumes "update_sync (lg, w) = (lg', w')"
  shows "files_ok ns lg w \<Longrightarrow> files_ok ns lg' w'" "log_bytes ns lg' w' = log_bytes ns lg w"
    "good_world lt d w' = good_world lt d w" "cout w' = cout w" "seq w' = seq w"
    "lg' = lg\<lparr>logfile := logfile lg'\<rparr>"
proof -
  let ?f = "fst (Sync (logfile lg) (kern w))" and ?s = "fst (snd (Sync (logfile lg) (kern w)))"
  have e: "lg' = lg\<lparr>logfile := ?f\<rparr>" "w' = w\<lparr>kern := ?s\<rparr>"
    using assms by (simp_all add: update_sync_def split_beta Let_def)
  show "files_ok ns lg w \<Longrightarrow> files_ok ns lg' w'"
    using e mm_inv_sync [of "last ns" "logfile lg" "kern w"]
    by (simp add: files_ok_def Sync_keeps split: if_splits)
  show "log_bytes ns lg' w' = log_bytes ns lg w"
    using e by (simp add: log_bytes_def closed_bytes_def mm_value_def Sync_keeps Sync_file_of)
  show "good_world lt d w' = good_world lt d w" "cout w' = cout w" "seq w' = seq w"
    "lg' = lg\<lparr>logfile := logfile lg'\<rparr>"
    using e by (simp_all add: good_world_def Sync_keeps)
qed

text \<open>
  One \<open>Update\<close> of a logger to files: the records of the idle buffers are appended to the files
  in order, the buffers in use stay, and the result tells whether there are any.
\<close>

lemma Logger_Update_files:
  assumes ok: "files_ok ns lg w" and good: "good_world lt (directory lg) w"
    and p: "pending (buffers lg) rss" and d: "(dest lg AND logFile) \<noteq> 0"
    and lines: "list_all line_ok (idle_records (buffers lg) rss)"
    and room: "unat (seq w) + length (idle_records (buffers lg) rss) < 2 ^ 32"
  shows "\<exists>lg' w' ms. Logger_Update lt lg w = Inr (lg', w', \<exists>x \<in> set (buffers lg). inuse (snd x)) \<and>
    files_ok (ns @ ms) lg' w' \<and> good_world lt (directory lg') w' \<and>
    log_bytes (ns @ ms) lg' w' =
      log_bytes ns lg w @ concat (map snd (idle_records (buffers lg) rss)) \<and>
    cout w' = cout w @ console_out lg (idle_records (buffers lg) rss) \<and>
    buffers lg' = filter (\<lambda>x. inuse (snd x)) (buffers lg) \<and>
    unat (seq w') \<le> unat (seq w) + length (idle_records (buffers lg) rss) \<and>
    directory lg' = directory lg \<and> dest lg' = dest lg \<and> shutdown lg' = shutdown lg \<and> llevel lg' = llevel lg"
proof -
  let ?lg = "lg\<lparr>buffers := filter (\<lambda>x. inuse (snd x)) (buffers lg)\<rparr>"
  have lb: "files_ok ns ?lg w" "log_bytes ns ?lg w = log_bytes ns lg w"
    using ok files_ok_cong [of ?lg lg w w ns] by simp_all
  have prems: "good_world lt (directory ?lg) w" "(dest ?lg AND logFile) \<noteq> 0" using good d by simp_all
  from write_records_files [OF lb(1) prems(1) room lines prems(2)] obtain f n ms w1 where
    a: "write_records lt (idle_records (buffers lg) rss) (?lg, w) = Inr (?lg\<lparr>fileName := n, logfile := f\<rparr>, w1)"
      "files_ok (ns @ ms) (?lg\<lparr>fileName := n, logfile := f\<rparr>) w1"
      "log_bytes (ns @ ms) (?lg\<lparr>fileName := n, logfile := f\<rparr>) w1 =
        log_bytes ns lg w @ concat (map snd (idle_records (buffers lg) rss))"
      "good_world lt (directory ?lg) w1" "unat (seq w1) \<le> unat (seq w) + length (idle_records (buffers lg) rss)"
      "cout w1 = cout w @ console_out ?lg (idle_records (buffers lg) rss)"
    unfolding lb(2) by blast
  obtain lg' w' where s: "update_sync (?lg\<lparr>fileName := n, logfile := f\<rparr>, w1) = (lg', w')" by fastforce
  note k = update_sync_keeps [OF s]
  have fields: "buffers lg' = buffers ?lg" "directory lg' = directory lg" "dest lg' = dest lg"
    "shutdown lg' = shutdown lg" "llevel lg' = llevel lg" by (subst k(6), simp)+
  have "Logger_Update lt lg w = Inr (lg', w', \<exists>x \<in> set (buffers lg). inuse (snd x))"
    unfolding Logger_Update_writes [OF p] a(1) res_bind_simps s by simp
  with a k fields show ?thesis
    by (intro exI [of _ lg'] exI [of _ w'] exI [of _ ms]) (simp add: console_out_def)
qed

section \<open>Properties\<close>

definition demo_world :: World where
  "demo_world = \<lparr>kern = \<lparr>disk = (\<lambda>_. None), fds = (\<lambda>_. None), maps = (\<lambda>_. None), stable = (\<lambda>_ _. None)\<rparr>,
     answers = demo_env, asked = 0, clock = (\<lambda>_. 1706745598000123456), ticks = 0, cout = [], cerr = [],
     seq = 0, statics = TimeStatics_start, pid = 42\<rparr>"

definition demo_logger :: Logger where
  "demo_logger = \<lparr>buffers = [], shutdown = False, llevel = 15, directory = ''.'', dest = 3, fileName = [],
     logfile = OMmapFile_new\<rparr>"

lemma demo_world_good: "good_world (\<lambda>_. demo_tm) d demo_world"
proof -
  have "tm_at (\<lambda>_. demo_tm) c = demo_tm" for c
    by (simp add: tm_at_def UpdateTm_def Time_new_def Now_def)
  moreover have "tm_ok demo_tm" by (simp add: tm_ok_def demo_tm_def)
  ultimately show ?thesis
    by (simp add: good_world_def demo_world_def demo_env_def kInvalidFile_def statics_ok_start inj_on_def)
qed

text \<open>C2: Writing any sequence of records of at most 2048 bytes returns, appends their bytes in order
  to the sequence of log files, opening new files as needed, and prints their text on the console
  when asked to; closed, no file exceeds 32 MB.\<close>

theorem log_rotation_lossless:
  assumes "files_ok ns lg w" "good_world lt (directory lg) w" "unat (seq w) + length rs < 2 ^ 32"
    and "list_all line_ok rs" "(dest lg AND logFile) \<noteq> 0"
  shows "\<exists>lg' w' ns' s. write_records lt rs (lg, w) = Inr (lg', w') \<and>
    CloseLogFile lg' w' = (lg'\<lparr>logfile := OMmapFile_new\<rparr>, w'\<lparr>kern := s\<rparr>) \<and>
    closed_bytes (ns @ ns') s = log_bytes ns lg w @ concat (map snd rs) \<and>
    cout w' = cout w @ console_out lg rs \<and>
    (\<forall>n \<in> set (ns @ ns'). \<exists>c. disk s n = Some c \<and> length c \<le> 2 ^ 25)"
proof -
  from write_records_files [OF assms] obtain f n ms w' where
    a: "write_records lt rs (lg, w) = Inr (lg\<lparr>fileName := n, logfile := f\<rparr>, w')"
      "files_ok (ns @ ms) (lg\<lparr>fileName := n, logfile := f\<rparr>) w'"
      "log_bytes (ns @ ms) (lg\<lparr>fileName := n, logfile := f\<rparr>) w' = log_bytes ns lg w @ concat (map snd rs)"
      "cout w' = cout w @ console_out lg rs" by blast
  from CloseLogFile_keeps [OF a(2)] obtain s where
    "CloseLogFile (lg\<lparr>fileName := n, logfile := f\<rparr>) w' =
       (lg\<lparr>fileName := n, logfile := f\<rparr>\<lparr>logfile := OMmapFile_new\<rparr>, w'\<lparr>kern := s\<rparr>)"
    "closed_bytes (ns @ ms) s = log_bytes (ns @ ms) (lg\<lparr>fileName := n, logfile := f\<rparr>) w'"
    "\<forall>n \<in> set (ns @ ms). \<exists>c. disk s n = Some c \<and> length c \<le> 2 ^ 25" by blast
  with a show ?thesis
    by (intro exI [of _ "lg\<lparr>fileName := n, logfile := f\<rparr>"] exI [of _ w'] exI [of _ ms] exI [of _ s]) simp
qed

theorem log_rotation_lossless_witness:
  "\<exists>lg' w' ns s. write_records (\<lambda>_. demo_tm) [(1, ''ab''), (2, ''c'')] (demo_logger, demo_world) = Inr (lg', w') \<and>
    CloseLogFile lg' w' = (lg'\<lparr>logfile := OMmapFile_new\<rparr>, w'\<lparr>kern := s\<rparr>) \<and>
    closed_bytes ns s = ''abc''"
proof -
  let ?rs = "[(1, ''ab''), (2, ''c'')] :: rec list"
  have "files_ok [] demo_logger demo_world" by (simp add: files_ok_Nil demo_logger_def)
  moreover have "unat (seq demo_world) + length ?rs < 2 ^ 32" by (simp add: demo_world_def)
  moreover have "list_all line_ok ?rs" by (simp add: line_ok_def)
  moreover have "(dest demo_logger AND logFile) \<noteq> 0" by (simp add: demo_logger_def logFile_def)
  moreover have "log_bytes [] demo_logger demo_world @ concat (map snd ?rs) = ''abc''"
    by (simp add: log_bytes_def)
  ultimately show ?thesis
    using log_rotation_lossless [OF _ demo_world_good, of "[]" demo_logger ?rs] by auto
qed

end
