(* ===== verification/LogFlush.thy ===== *)
theory LogFlush
  imports LogFiles
begin

text \<open>
  The shared thread map of a logger as an abstract state: which records wait for each thread
  (\<open>stages\<close>) and which threads are inside \<open>Flush\<close> (\<open>in_use\<close>). Every critical section of
  \<open>Flush\<close> and \<open>Update\<close> is one operation on the two; composed, they are \<open>Flush\<close> itself.
\<close>

section \<open>The abstract state\<close>

definition stages :: "Logger \<Rightarrow> (nat \<Rightarrow> rec list) \<Rightarrow> bool" where
  "stages lg R \<longleftrightarrow> smap_ok (buffers lg) \<and>
     (\<forall>k. map_of (buffers lg) k = None \<longrightarrow> R k = []) \<and>
     (\<forall>k i. map_of (buffers lg) k = Some i \<longrightarrow> holds (blog i) (R k))"

definition in_use :: "Logger \<Rightarrow> nat set" where
  "in_use lg = {k. \<exists>i. map_of (buffers lg) k = Some i \<and> inuse i}"

lemma stages_new: "stages Logger_new (\<lambda>_. [])" "in_use Logger_new = {}"
  by (simp_all add: stages_def in_use_def Logger_new_def smap_ok_def)

lemma stages_None: "stages lg R \<Longrightarrow> map_of (buffers lg) k = None \<Longrightarrow> R k = []"
  by (simp add: stages_def)

lemma stages_Some: "stages lg R \<Longrightarrow> map_of (buffers lg) k = Some i \<Longrightarrow> holds (blog i) (R k)"
  by (simp add: stages_def)

lemma stages_put:
  assumes "stages lg R" "holds (blog i) rs"
  shows "stages (lg\<lparr>buffers := smap_put k i (buffers lg)\<rparr>) (R(k := rs))"
  using assms by (auto simp: stages_def smap_ok_put map_of_smap_put)

lemma in_use_put:
  "in_use (lg\<lparr>buffers := smap_put k i (buffers lg)\<rparr>) =
     (if inuse i then insert k (in_use lg) else in_use lg - {k})"
  by (auto simp: in_use_def map_of_smap_put split: if_splits)

section \<open>The critical sections\<close>

lemma flush_enter_ok:
  assumes st: "stages lg R" and up: "\<not> shutdown lg" and me: "me \<notin> in_use lg"
  shows "\<exists>m. flush_enter me lg = Inr (Entered (lg\<lparr>buffers := m\<rparr>)) \<and> stages (lg\<lparr>buffers := m\<rparr>) R \<and>
    in_use (lg\<lparr>buffers := m\<rparr>) = insert me (in_use lg)"
proof -
  define i where "i = (case map_of (buffers lg) me of None \<Rightarrow> BufferInfo_new | Some i \<Rightarrow> i)"
  have free: "\<not> inuse i" using me
    by (auto simp: i_def in_use_def BufferInfo_new_def split: option.splits)
  have "holds (blog i) (R me)"
  proof (cases "map_of (buffers lg) me")
    case None
    with stages_None [OF st] holds_empty show ?thesis by (simp add: i_def BufferInfo_new_def)
  next
    case (Some j)
    with stages_Some [OF st] show ?thesis by (simp add: i_def)
  qed
  then have "stages (lg\<lparr>buffers := smap_put me (i\<lparr>inuse := True\<rparr>) (buffers lg)\<rparr>) (R(me := R me))"
    by (intro stages_put st) simp
  then show ?thesis using up free
    by (intro exI [of _ "smap_put me (i\<lparr>inuse := True\<rparr>) (buffers lg)"])
      (simp add: flush_enter_def in_use_put i_def [symmetric])
qed

lemma flush_enter_stopped: "shutdown lg \<Longrightarrow> flush_enter me lg = Inr Stopped"
  by (simp add: flush_enter_def)

text \<open>A thread that is inside may not enter again: the assertion on \<open>inuse_\<close>.\<close>

lemma flush_enter_twice: "\<not> shutdown lg \<Longrightarrow> me \<in> in_use lg \<Longrightarrow> flush_enter me lg = Inl AssertFail"
  by (auto simp: flush_enter_def in_use_def Let_def)

lemma flush_store_ok:
  assumes st: "stages lg R" and me: "me \<in> in_use lg"
    and t: "tls_inv t" "take (unat (pos t)) (tmpBuffer t) = map Some line"
    and room: "length (enc_records (R me)) + 12 + unat (pos t) < 2 ^ 63 - 1"
  shows "\<exists>m. flush_store me level t lg = Inr (lg\<lparr>buffers := m\<rparr>) \<and>
    stages (lg\<lparr>buffers := m\<rparr>) (R(me := R me @ [(level, line)])) \<and>
    in_use (lg\<lparr>buffers := m\<rparr>) = in_use lg"
proof -
  from me obtain i where i: "map_of (buffers lg) me = Some i" "inuse i" by (auto simp: in_use_def)
  from flush_push_record [OF stages_Some [OF st i(1)] t room] obtain b where
    b: "flush_push level t (blog i) = Inr b" "holds b (R me @ [(level, line)])" by blast
  let ?m = "smap_put me (i\<lparr>blog := b\<rparr>) (buffers lg)"
  have "stages (lg\<lparr>buffers := ?m\<rparr>) (R(me := R me @ [(level, line)]))"
    using b by (intro stages_put st) simp
  then show ?thesis using i b me
    by (intro exI [of _ ?m]) (auto simp: flush_store_def in_use_put)
qed

lemma flush_leave_ok:
  assumes st: "stages lg R" and me: "me \<in> in_use lg" and room: "length (enc_records (R me)) < 2 ^ 63"
  shows "\<exists>m. flush_leave me lg = Inr (lg\<lparr>buffers := m\<rparr>, 2097152 < length (enc_records (R me))) \<and>
    stages (lg\<lparr>buffers := m\<rparr>) R \<and> in_use (lg\<lparr>buffers := m\<rparr>) = in_use lg - {me}"
proof -
  from me obtain i where i: "map_of (buffers lg) me = Some i" by (auto simp: in_use_def)
  have h: "holds (blog i) (R me)" by (rule stages_Some [OF st i])
  then have "unat (ReadableSize (blog i)) = length (enc_records (R me))"
    by (simp add: holds_def unat_ReadableSize)
  then have busy: "kFlushThreshold < ReadableSize (blog i) \<longleftrightarrow> 2097152 < length (enc_records (R me))"
    by (simp add: less64_iff kFlushThreshold_def)
  have "stages (lg\<lparr>buffers := smap_put me (i\<lparr>inuse := False\<rparr>) (buffers lg)\<rparr>) (R(me := R me))"
    using h by (intro stages_put st) simp
  with i busy show ?thesis
    by (intro exI [of _ "smap_put me (i\<lparr>inuse := False\<rparr>) (buffers lg)"])
      (simp add: flush_leave_def in_use_put)
qed

text \<open>Taking the idle buffers out: their threads, in order, and what each buffer holds.\<close>

definition idle_threads :: "Logger \<Rightarrow> nat list" where
  "idle_threads lg = map fst (filter (\<lambda>x. \<not> inuse (snd x)) (buffers lg))"

lemma map_of_filter_value:
  "distinct (map fst m) \<Longrightarrow>
   map_of (filter (\<lambda>x. P (snd x)) m) k =
     (case map_of m k of None \<Rightarrow> None | Some v \<Rightarrow> if P v then Some v else None)"
proof (induction m)
  case (Cons x m)
  moreover have "map_of m (fst x) = None" using Cons.prems by (simp add: map_of_eq_None_iff)
  ultimately show ?case by (auto split: option.splits)
qed simp

lemma update_enter_ok:
  assumes st: "stages lg R"
  shows "\<exists>m bufs. update_enter lg = (lg\<lparr>buffers := m\<rparr>, bufs, in_use lg \<noteq> {}) \<and>
    stages (lg\<lparr>buffers := m\<rparr>) (\<lambda>k. if k \<in> in_use lg then R k else []) \<and>
    in_use (lg\<lparr>buffers := m\<rparr>) = in_use lg \<and>
    list_all2 (\<lambda>k b. holds b (R k)) (idle_threads lg) bufs"
proof -
  let ?m = "filter (\<lambda>x. inuse (snd x)) (buffers lg)"
  let ?bufs = "map (blog \<circ> snd) (filter (\<lambda>x. \<not> inuse (snd x)) (buffers lg))"
  have ok: "smap_ok (buffers lg)" using st by (simp add: stages_def)
  then have d: "distinct (map fst (buffers lg))" by (rule smap_ok_distinct)
  note look = map_of_filter_value [OF d, of inuse]
  have some: "map_of (buffers lg) k = Some i" if "(k, i) \<in> set (buffers lg)" for k i
    using that d by simp
  have todo: "(\<exists>x \<in> set (buffers lg). inuse (snd x)) \<longleftrightarrow> in_use lg \<noteq> {}"
    using some by (force simp: in_use_def dest: map_of_SomeD)
  have e: "update_enter lg = (lg\<lparr>buffers := ?m\<rparr>, ?bufs, in_use lg \<noteq> {})"
    using todo by (simp add: update_enter_def take_buffers_spec)
  have "smap_ok ?m" using ok by (auto simp: smap_ok_def sorted_wrt_map sorted_wrt_filter)
  moreover have "in_use (lg\<lparr>buffers := ?m\<rparr>) = in_use lg"
    by (auto simp: in_use_def look split: option.splits if_splits)
  moreover have "(if k \<in> in_use lg then R k else []) = []" if "map_of ?m k = None" for k
    using that by (auto simp: look in_use_def split: option.splits if_splits)
  moreover have "holds (blog i) (if k \<in> in_use lg then R k else [])" if "map_of ?m k = Some i" for k i
    using that stages_Some [OF st, of k] by (auto simp: look in_use_def split: option.splits if_splits)
  ultimately have "stages (lg\<lparr>buffers := ?m\<rparr>) (\<lambda>k. if k \<in> in_use lg then R k else [])"
    "in_use (lg\<lparr>buffers := ?m\<rparr>) = in_use lg" by (simp_all add: stages_def)
  moreover have "list_all2 (\<lambda>k b. holds b (R k)) (idle_threads lg) ?bufs"
    using some stages_Some [OF st]
    by (auto simp: idle_threads_def list_all2_map1 list_all2_map2 list_all2_same)
  ultimately show ?thesis using e by blast
qed

section \<open>Lines are made of bytes\<close>

text \<open>
  The thread-local arrays start zeroed and only ever receive bytes, so the cells of a line are
  never indeterminate.
\<close>

definition full :: "Tls \<Rightarrow> bool" where
  "full t \<longleftrightarrow> tls_inv t \<and> None \<notin> set (tmpBuffer t) \<and> None \<notin> set (tid t)"

definition bytes_of :: "cell list \<Rightarrow> byte list" where
  "bytes_of cs = map the cs"

lemma map_Some_bytes_of: "None \<notin> set cs \<Longrightarrow> map Some (bytes_of cs) = cs"
  by (induction cs) (auto simp: bytes_of_def)

lemma bytes_of_Some [simp]: "bytes_of (map Some bs) = bs"
  by (simp add: bytes_of_def comp_def)

lemma full_start: "full Tls_start"
  using tls_inv_start by (simp add: full_def Tls_start_def)

lemma memcpy_full:
  "memcpy_at d i s j n = Inr m \<Longrightarrow> None \<notin> set d \<Longrightarrow> None \<notin> set s \<Longrightarrow> None \<notin> set m"
  by (auto simp: memcpy_at_Inr dest: in_set_takeD in_set_dropD)

lemma put_full: "put_at b i bs = Inr m \<Longrightarrow> None \<notin> set b \<Longrightarrow> None \<notin> set m"
  unfolding put_at_def by (erule memcpy_full) auto

lemma snprintf_full: "snprintf_at b i n s = Inr (m, k) \<Longrightarrow> None \<notin> set b \<Longrightarrow> None \<notin> set m"
  by (auto simp: snprintf_at_def res_bind_Inr split: if_splits dest: put_full)

lemma stream_fmt_full:
  "stream_fmt lv room s t = Inr t' \<Longrightarrow> None \<notin> set (tmpBuffer t) \<Longrightarrow> None \<notin> set (tmpBuffer t')"
  "stream_fmt lv room s t = Inr t' \<Longrightarrow> tid t' = tid t \<and> tidLen t' = tidLen t"
  by (auto simp: stream_fmt_def res_bind_Inr split: if_splits dest: snprintf_full)

lemma stream_cstr_full:
  "stream_cstr lv s t = Inr t' \<Longrightarrow> None \<notin> set (tmpBuffer t) \<Longrightarrow> None \<notin> set (tmpBuffer t')"
  "stream_cstr lv s t = Inr t' \<Longrightarrow> tid t' = tid t \<and> tidLen t' = tidLen t"
  by (auto simp: stream_cstr_def res_bind_Inr Let_def split: if_splits dest: memcpy_full)

lemmas stream_full = stream_fmt_full stream_cstr_full

lemma stream_arg_full:
  assumes "stream_arg lv a t = Inr t'"
  shows "None \<notin> set (tmpBuffer t) \<Longrightarrow> None \<notin> set (tmpBuffer t')" "tid t' = tid t \<and> tidLen t' = tidLen t"
  using assms
  by (cases a; simp add: stream_string_def stream_ptr_def stream_uchar_def stream_char_def
      stream_ushort_def stream_short_def stream_uint_def stream_int_def stream_ulong_def
      stream_long_def stream_ulonglong_def stream_longlong_def stream_double_def stream_full)+

lemma stream_args_full:
  "res_fold (stream_arg lv) args t = Inr t' \<Longrightarrow>
   (None \<notin> set (tmpBuffer t) \<longrightarrow> None \<notin> set (tmpBuffer t')) \<and> tid t' = tid t \<and> tidLen t' = tidLen t"
proof (induction args arbitrary: t)
  case (Cons a args)
  then show ?case using stream_arg_full [of lv a t] by (auto simp: res_bind_Inr)
qed simp

text \<open>With a clock inside the tables the time prefix is always written.\<close>

definition good_time :: "(int \<Rightarrow> tm) \<Rightarrow> int \<Rightarrow> bool" where
  "good_time lt c \<longleftrightarrow> 0 \<le> c \<and> tm_ok (tm_at lt c)"

lemma flush_time_ok:
  assumes t: "full t" and st: "statics_ok st" and c: "good_time lt c"
  shows "\<exists>st' t1. flush_time lt st (Time_new c garbage_tm) t = Inr (st', t1) \<and> same_line t t1 \<and>
    statics_ok st' \<and> full t1"
proof -
  let ?T = "Time_new c garbage_tm"
  have inv: "tls_inv t" and len: "length (tmpBuffer t) = 2048" and f: "None \<notin> set (tmpBuffer t)"
    using t by (auto simp: full_def tls_inv_def)
  have now: "now ?T = c" by (simp add: Time_new_def Now_def)
  have m: "tm_ok (tmv (UpdateTm lt ?T))" "0 \<le> now ?T"
    using c now by (simp_all add: good_time_def tm_at_def)
  consider "MilliSeconds ?T sdiv 1000 \<noteq> lastLogSecond t"
    | "MilliSeconds ?T sdiv 1000 = lastLogSecond t" "MicroSeconds ?T smod 1000000 \<noteq> lastLogMSecond t"
    | "MilliSeconds ?T sdiv 1000 = lastLogSecond t" "MicroSeconds ?T smod 1000000 = lastLogMSecond t"
    by blast
  then obtain st' t1 where r: "flush_time lt st ?T t = Inr (st', t1)" "same_line t t1"
      "statics_ok st'" "None \<notin> set (tmpBuffer t1)"
  proof cases
    case 1
    from flush_time_new_second [OF inv st m 1] obtain t1 where
      t1: "flush_time lt st ?T t = Inr (call_once_Init st, t1)" "same_line t t1" by blast
    moreover have "None \<notin> set (tmpBuffer t1)"
      using t1(1) 1 FormatTime_writes [OF st m, of "tmpBuffer t"] len f
      by (auto simp: flush_time_def dest: in_set_dropD)
    ultimately show ?thesis using that call_once_Init_ok(1) [OF st] by blast
  next
    case 2
    from flush_time_same_second [OF inv m(2) 2, of lt st] obtain t1 where
      t1: "flush_time lt st ?T t = Inr (st, t1)" "same_line t t1" by blast
    moreover have "None \<notin> set (tmpBuffer t1)"
      using t1(1) 2 f by (auto simp: flush_time_def res_bind_Inr Let_def dest: put_full snprintf_full)
    ultimately show ?thesis using that st by blast
  next
    case 3
    have "flush_time lt st ?T t = Inr (st, t)" using flush_time_unchanged [OF 3] .
    then show ?thesis using that [of st t] st f by (simp add: same_line_def)
  qed
  moreover have "full t1" using r(2,4) t by (simp add: full_def tls_inv_def same_line_def)
  ultimately show ?thesis by blast
qed

lemma tid_text_bytes: "full t \<Longrightarrow> None \<notin> set (tid_text str t)"
  by (auto simp: full_def tid_text_def dest: in_set_takeD)

lemma body_bytes: "full t \<Longrightarrow> None \<notin> set (body t)"
  by (auto simp: full_def body_def dest: in_set_takeD in_set_dropD)

text \<open>
  A ready line that fits is finished: time stamp, level tag, text, thread id, line end. The
  thread id is that of the first line of the thread.
\<close>

lemma flush_tid_full:
  "flush_tid str t = Inr t' \<Longrightarrow> None \<notin> set (tid t) \<Longrightarrow>
   None \<notin> set (tid t') \<and> tmpBuffer t' = tmpBuffer t \<and> pos t' = pos t"
  by (auto simp: flush_tid_def res_bind_Inr Let_def split: if_splits dest!: memcpy_full put_full)

lemma flush_tail_full:
  "flush_tail t = Inr t' \<Longrightarrow> None \<notin> set (tid t) \<Longrightarrow> None \<notin> set (tmpBuffer t) \<Longrightarrow>
   None \<notin> set (tmpBuffer t') \<and> tid t' = tid t"
  by (auto simp: flush_tail_def res_bind_Inr Let_def dest!: memcpy_full put_full)

lemma flush_format_full:
  assumes "flush_format lt lv level str tp st t = Inr (True, st', t')" "ready lv level t"
    and "flush_time lt st tp t = Inr (st1, t1)" "same_line t t1" "full t" "full t1"
  shows "None \<notin> set (tmpBuffer t') \<and> None \<notin> set (tid t')"
proof -
  from assms(1) obtain b t2 where b: "put_at (tmpBuffer t1) (unat kPrefixTimeLen) (level_tag level) = Inr b"
    "flush_tid str (t1\<lparr>tmpBuffer := b\<rparr>) = Inr t2" "flush_tail t2 = Inr t'"
    unfolding flush_format_ready [OF assms(2)] assms(3) by (auto simp: res_bind_Inr)
  have "None \<notin> set b" using put_full [OF b(1)] assms(6) by (simp add: full_def)
  moreover have "None \<notin> set (tid t2)" "tmpBuffer t2 = b"
    using flush_tid_full [OF b(2)] assms(6) by (simp_all add: full_def)
  ultimately show ?thesis using flush_tail_full [OF b(3)] by simp
qed

text \<open>The thread id of a thread's lines is fixed by the first one.\<close>

lemma flush_format_tid:
  assumes "flush_format lt lv level str tp st t = Inr (True, st', t')" "ready lv level t"
    and "flush_time lt st tp t = Inr (st1, t1)" "same_line t t1" "tls_inv t1"
    and str: "tidLen t = 0 \<longrightarrow> length str \<le> 15"
  shows "tid_text str t' = tid_text str t"
proof -
  from assms(1) obtain b t2 where b: "put_at (tmpBuffer t1) (unat kPrefixTimeLen) (level_tag level) = Inr b"
    "flush_tid str (t1\<lparr>tmpBuffer := b\<rparr>) = Inr t2" "flush_tail t2 = Inr t'"
    unfolding flush_format_ready [OF assms(2)] assms(3) by (auto simp: res_bind_Inr)
  have "length b = 2048" using b(1) assms(5) by (auto simp: tls_inv_def)
  then have inv2: "tls_inv (t1\<lparr>tmpBuffer := b\<rparr>)" using assms(5) by (simp add: tls_inv_def)
  have same: "tidLen t1 = tidLen t" "tid t1 = tid t" using assms(4) by (simp_all add: same_line_def)
  from flush_tid_ok [OF inv2, of str] str same b(2) obtain d n where
    d: "t2 = t1\<lparr>tmpBuffer := b, tid := d, tidLen := n\<rparr>" "1 \<le> n"
      "take (nat n) d = tid_text str (t1\<lparr>tmpBuffer := b\<rparr>)" by auto
  have "tid t' = d" "tidLen t' = n"
    using b(3) d(1) by (auto simp: flush_tail_def res_bind_Inr Let_def)
  then show ?thesis using d(2,3) same by (simp add: tid_text_def)
qed

text \<open>A ready line that fits is finished: time stamp, level tag, text, thread id, line end.\<close>

definition line_text :: "byte list \<Rightarrow> uint \<Rightarrow> byte list \<Rightarrow> Tls \<Rightarrow> byte list" where
  "line_text stamp level str t =
     stamp @ level_tag level @ bytes_of (body t) @ bytes_of (tid_text str t) @ [CHR 0x0A]"

lemma flush_format_line:
  assumes t: "full t" and ready: "ready lv level t" and fits: "line_fits str t"
    and st: "statics_ok st" and c: "good_time lt c"
  shows "\<exists>st' t' stamp. flush_format lt lv level str (Time_new c garbage_tm) st t = Inr (True, st', t') \<and>
    full t' \<and> statics_ok st' \<and> length stamp = 27 \<and>
    take (unat (pos t')) (tmpBuffer t') = map Some (line_text stamp level str t) \<and>
    tmpBuffer t' ! unat (pos t') = Some (CHR 0x00) \<and>
    unat (pos t') = unat (pos t) + length (tid_text str t) + 1 \<and>
    tid_text str t' = tid_text str t \<and> curLevel t' = curLevel t"
proof -
  let ?T = "Time_new c garbage_tm"
  from flush_time_ok [OF t st c] obtain st' t1 where
    t1: "flush_time lt st ?T t = Inr (st', t1)" "same_line t t1" "statics_ok st'" "full t1" by blast
  have inv: "tls_inv t" using t by (simp add: full_def)
  from flush_finish [OF inv ready fits t1(1,2)] obtain t' where
    t': "flush_format lt lv level str ?T st t = Inr (True, st', t')" "tls_inv t'"
      "take (unat (pos t')) (tmpBuffer t') =
        prefix_time t1 @ map Some (level_tag level) @ body t @ tid_text str t @ [Some (CHR 0x0A)]"
      "unat (pos t') = unat (pos t) + length (tid_text str t) + 1"
      "tmpBuffer t' ! unat (pos t') = Some (CHR 0x00)" "curLevel t' = curLevel t" by blast
  have "tls_inv t1" "tidLen t = 0 \<longrightarrow> length str \<le> 15"
    using t1(4) fits by (simp_all add: full_def line_fits_def)
  from flush_format_tid [OF t'(1) ready t1(1,2) this] have tid: "tid_text str t' = tid_text str t" .
  have "full t'" using flush_format_full [OF t'(1) ready t1(1,2) t t1(4)] t'(2) by (simp add: full_def)
  moreover have "None \<notin> set (prefix_time t1)"
    using t1(4) by (auto simp: full_def prefix_time_def dest: in_set_takeD)
  moreover have "length (bytes_of (prefix_time t1)) = 27"
    using t1(4) by (simp add: full_def tls_inv_def prefix_time_def bytes_of_def)
  ultimately show ?thesis
    using t' tid t1(3) map_Some_bytes_of [OF body_bytes [OF t]] map_Some_bytes_of [OF tid_text_bytes [OF t, of str]]
    by (intro exI [of _ st'] exI [of _ t'] exI [of _ "bytes_of (prefix_time t1)"])
      (simp add: line_text_def map_Some_bytes_of)
qed

section \<open>\<open>Flush\<close>\<close>

text \<open>What a thread may be asked to flush, and the room its buffer and the line have.\<close>

definition can_stage :: "byte list \<Rightarrow> Tls \<Rightarrow> rec list \<Rightarrow> bool" where
  "can_stage str t rs \<longleftrightarrow> full t \<and> line_fits str t \<and> length (enc_records rs) < 2 ^ 62"

lemma Logger_Flush_stages:
  assumes can: "can_stage str t (R me)" and ready: "ready (llevel lg) level t"
    and st: "stages lg R" and up: "\<not> shutdown lg" and me: "me \<notin> in_use lg"
    and w: "statics_ok (statics w)" "good_time lt (clock w (ticks w))"
  shows "\<exists>t' m st' stamp.
    Logger_Flush lt me str level t lg w =
      Inr (t', lg\<lparr>buffers := m\<rparr>, w\<lparr>ticks := Suc (ticks w), statics := st'\<rparr>,
           2097152 < length (enc_records (R me @ [(level, line_text stamp level str t)]))) \<and>
    stages (lg\<lparr>buffers := m\<rparr>) (R(me := R me @ [(level, line_text stamp level str t)])) \<and>
    in_use (lg\<lparr>buffers := m\<rparr>) = in_use lg \<and> full t' \<and> body t' = [] \<and> statics_ok st' \<and> length stamp = 27 \<and>
    tid_text str t' = tid_text str t"
proof -
  have t: "full t" "line_fits str t" and small: "length (enc_records (R me)) < 2 ^ 62"
    using can by (simp_all add: can_stage_def)
  from flush_format_line [OF t(1) ready t(2) w] obtain st' t1 stamp where
    f: "flush_format lt (llevel lg) level str (Time_new (clock w (ticks w)) garbage_tm) (statics w) t =
        Inr (True, st', t1)" "full t1" "statics_ok st'" "length stamp = 27"
      "take (unat (pos t1)) (tmpBuffer t1) = map Some (line_text stamp level str t)"
      "tid_text str t1 = tid_text str t" by blast
  let ?line = "line_text stamp level str t" and ?w = "w\<lparr>ticks := Suc (ticks w), statics := st'\<rparr>"
  have inv1: "tls_inv t1" using f(2) by (simp add: full_def)
  then have p: "unat (pos t1) \<le> 2048" "length (tmpBuffer t1) = 2048" by (simp_all add: tls_inv_def)
  then have "length (take (unat (pos t1)) (tmpBuffer t1)) = unat (pos t1)" by simp
  then have ll: "length ?line = unat (pos t1)" unfolding f(5) by simp
  from flush_enter_ok [OF st up me] obtain m1 where
    m1: "flush_enter me lg = Inr (Entered (lg\<lparr>buffers := m1\<rparr>))" "stages (lg\<lparr>buffers := m1\<rparr>) R"
      "in_use (lg\<lparr>buffers := m1\<rparr>) = insert me (in_use lg)" by blast
  have "me \<in> in_use (lg\<lparr>buffers := m1\<rparr>)" using m1(3) by simp
  moreover have "length (enc_records (R me)) + 12 + unat (pos t1) < 2 ^ 63 - 1" using small p by simp
  ultimately obtain m2 where m2: "flush_store me level t1 (lg\<lparr>buffers := m1\<rparr>) = Inr (lg\<lparr>buffers := m2\<rparr>)"
      "stages (lg\<lparr>buffers := m2\<rparr>) (R(me := R me @ [(level, ?line)]))"
      "in_use (lg\<lparr>buffers := m2\<rparr>) = insert me (in_use lg)"
    using flush_store_ok [OF m1(2) _ inv1 f(5), of me level] m1(3) by auto
  have "me \<in> in_use (lg\<lparr>buffers := m2\<rparr>)" using m2(3) by simp
  moreover have "length (enc_records ((R(me := R me @ [(level, ?line)])) me)) < 2 ^ 63"
    using small ll p by (simp add: enc_records_def)
  ultimately obtain m3 where m3: "flush_leave me (lg\<lparr>buffers := m2\<rparr>) = Inr (lg\<lparr>buffers := m3\<rparr>,
        2097152 < length (enc_records (R me @ [(level, ?line)])))"
      "stages (lg\<lparr>buffers := m3\<rparr>) (R(me := R me @ [(level, ?line)]))"
      "in_use (lg\<lparr>buffers := m3\<rparr>) = in_use lg"
    using flush_leave_ok [OF m2(2), of me] m2(3) me by auto
  have "Logger_Flush lt me str level t lg w = Inr (log_Reset t1, lg\<lparr>buffers := m3\<rparr>, ?w,
        2097152 < length (enc_records (R me @ [(level, ?line)])))"
    using f(1) m1(1) m2(1) m3(1) by (simp add: Logger_Flush_def read_clock_def)
  moreover have "full (log_Reset t1)" "body (log_Reset t1) = []"
    using f(2) tls_inv_Reset [OF inv1] by (simp_all add: full_def log_Reset_def)
  moreover have "tid_text str (log_Reset t1) = tid_text str t"
    unfolding f(6) [symmetric] by (simp add: tid_text_def log_Reset_def)
  ultimately show ?thesis using m3(2,3) f(3,4) by blast
qed

text \<open>After \<open>Shutdown\<close> the finished line goes to the standard output, but the thread's
  position is left behind it: the next statement of the thread appends to the same line.\<close>

theorem Logger_Flush_stopped:
  assumes t: "full t" "line_fits str t" and ready: "ready (llevel lg) level t" and down: "shutdown lg"
    and w: "statics_ok (statics w)" "good_time lt (clock w (ticks w))"
  shows "\<exists>t' st' out. Logger_Flush lt me str level t lg w =
      Inr (t', lg, w\<lparr>ticks := Suc (ticks w), statics := st', cout := cout w @ out\<rparr>, False) \<and>
    body t' = body t @ tid_text str t @ [Some (CHR 0x0A)] \<and> curLevel t' = curLevel t \<and>
    full t' \<and> statics_ok st' \<and> tid_text str t' = tid_text str t"
proof -
  from flush_format_line [OF t(1) ready t(2) w] obtain st' t' stamp where
    f: "flush_format lt (llevel lg) level str (Time_new (clock w (ticks w)) garbage_tm) (statics w) t =
        Inr (True, st', t')" "full t'" "statics_ok st'" "length stamp = 27"
      "take (unat (pos t')) (tmpBuffer t') = map Some (line_text stamp level str t)"
      "tmpBuffer t' ! unat (pos t') = Some (CHR 0x00)"
      "unat (pos t') = unat (pos t) + length (tid_text str t) + 1"
      "tid_text str t' = tid_text str t" "curLevel t' = curLevel t" by blast
  have len: "length (tmpBuffer t') = 2048" "unat (pos t') < 2048" and ft: "None \<notin> set (tmpBuffer t')"
    using f(2,7) t(2) by (simp_all add: full_def tls_inv_def line_fits_def)
  then have "Some (CHR 0x00) \<in> set (tmpBuffer t')" using f(6) nth_mem [of "unat (pos t')" "tmpBuffer t'"] by simp
  then obtain out where out: "c_string (tmpBuffer t') = Inr out"
    using map_Some_bytes_of [of "takeWhile (\<lambda>c. c \<noteq> Some (CHR 0x00)) (tmpBuffer t')"] ft
    by (metis cells_bytes_Some c_string_def set_takeWhileD)
  have "body t' = drop 33 (take (unat (pos t')) (tmpBuffer t'))" by (simp add: body_def drop_take)
  also have "\<dots> = body t @ tid_text str t @ [Some (CHR 0x0A)]"
    unfolding f(5) using f(4) map_Some_bytes_of [OF body_bytes [OF t(1)]]
      map_Some_bytes_of [OF tid_text_bytes [OF t(1), of str]] by (simp add: line_text_def)
  finally show ?thesis using f(1-3,8,9) out flush_enter_stopped [OF down, of me]
    by (intro exI [of _ t'] exI [of _ st'] exI [of _ out]) (simp add: Logger_Flush_def read_clock_def)
qed

section \<open>The statement \<open>LOG_XXX(x) << ...\<close>\<close>

text \<open>
  The macro of Logger.h: for a null pointer or a forbidden level the operands belong to the
  branch not taken and nothing is evaluated; otherwise \<open>SetCurLevel\<close>, the operands, \<open>Flush\<close>.
\<close>

definition LogHelper_assign ::
  "(int \<Rightarrow> tm) \<Rightarrow> nat \<Rightarrow> byte list \<Rightarrow> uint \<Rightarrow> Tls \<Rightarrow> Logger \<Rightarrow> World \<Rightarrow> (Tls \<times> Logger \<times> World \<times> bool) res" where
  "LogHelper_assign lt me str level t lg w = Logger_Flush lt me str level t lg w"

definition LOG ::
  "(int \<Rightarrow> tm) \<Rightarrow> nat \<Rightarrow> byte list \<Rightarrow> uint \<Rightarrow> log_arg list \<Rightarrow> Tls \<Rightarrow> Logger option \<Rightarrow> World \<Rightarrow>
   (Tls \<times> Logger option \<times> World \<times> bool) res" where
  "LOG lt me str level args t x w =
     (case x of
        None \<Rightarrow> Inr (t, None, w, False)
      | Some lg \<Rightarrow>
          if IsLevelForbid (llevel lg) level then Inr (t, Some lg, w, False)
          else
            res_bind (res_fold (stream_arg (llevel lg)) args (SetCurLevel level t)) (\<lambda>t.
            res_bind (LogHelper_assign lt me str level t lg w) (\<lambda>(t, lg, w, busy).
              Inr (t, Some lg, w, busy))))"

definition args_text :: "log_arg list \<Rightarrow> byte list" where
  "args_text args = concat (map arg_text args)"

lemma LOG_forbidden:
  "IsLevelForbid (llevel lg) level \<Longrightarrow> LOG lt me str level args t (Some lg) w = Inr (t, Some lg, w, False)"
  "LOG lt me str level args t None w = Inr (t, None, w, False)"
  by (simp_all add: LOG_def)

text \<open>Between statements a thread's line is empty, and its id is the text of the id.\<close>

definition thread_ok :: "byte list \<Rightarrow> Tls \<Rightarrow> bool" where
  "thread_ok str t \<longleftrightarrow> full t \<and> body t = [] \<and> length str \<le> 15 \<and> tid_text str t = map Some (''|'' @ str)"

definition stmt_ok :: "uint \<Rightarrow> uint \<Rightarrow> log_arg list \<Rightarrow> bool" where
  "stmt_ok lv level args \<longleftrightarrow> list_all arg_ok args \<and> args_text args \<noteq> [] \<and>
     length (args_text args) \<le> 1990 \<and> \<not> IsLevelForbid lv level \<and> level \<noteq> 0"

lemma thread_ok_start: "length str \<le> 15 \<Longrightarrow> thread_ok str Tls_start"
  using full_start tls_inv_start by (simp add: thread_ok_def tid_text_def Tls_start_def)

text \<open>A thread whose line already holds the text \<open>p\<close>; the operands go behind it.\<close>

definition carries :: "byte list \<Rightarrow> byte list \<Rightarrow> Tls \<Rightarrow> bool" where
  "carries str p t \<longleftrightarrow> full t \<and> body t = map Some p \<and> length str \<le> 15 \<and> tid_text str t = map Some (''|'' @ str)"

lemma thread_ok_carries: "thread_ok str t \<longleftrightarrow> carries str [] t"
  by (simp add: thread_ok_def carries_def)

lemma operands_streamed:
  assumes t: "carries str p t" and ok: "list_all arg_ok args" "\<not> IsLevelForbid lv level" "level \<noteq> 0"
    and room: "p @ args_text args \<noteq> []" "length (p @ args_text args) \<le> 1990"
  shows "\<exists>t1. res_fold (stream_arg lv) args (SetCurLevel level t) = Inr t1 \<and>
    carries str (p @ args_text args) t1 \<and> line_fits str t1 \<and> ready lv level t1"
proof -
  let ?t = "SetCurLevel level t"
  have t0: "full t" "body t = map Some p" "length str \<le> 15" "tid_text str t = map Some (''|'' @ str)"
    using t by (simp_all add: carries_def)
  have inv: "tls_inv ?t" "body ?t = map Some p" using t0 by (simp_all add: tls_inv_SetCurLevel full_def)
  have p: "unat (pos ?t) = 33 + length p" using inv length_body [of ?t] by (simp add: tls_inv_def)
  have cl: "curLevel ?t = level" by (simp add: SetCurLevel_def)
  from stream_args_append [OF inv(1) ok(1), of lv] cl ok room(2) p obtain t1 where
    t1: "res_fold (stream_arg lv) args ?t = Inr t1" "tls_inv t1"
      "body t1 = map Some (p @ args_text args)" "curLevel t1 = level"
    unfolding args_text_def [symmetric] inv(2) by auto
  have keep: "tid t1 = tid t" "tidLen t1 = tidLen t" "None \<notin> set (tmpBuffer t1)"
    using stream_args_full [OF t1(1)] t0(1) by (auto simp: full_def SetCurLevel_def)
  have full1: "full t1" using t1(2) keep t0(1) by (simp add: full_def)
  have tt: "tid_text str t1 = map Some (''|'' @ str)"
    using keep unfolding t0(4) [symmetric] by (simp add: tid_text_def)
  have p1: "unat (pos t1) = 33 + length (p @ args_text args)"
    using length_body [OF t1(2)] t1(2,3) by (simp add: tls_inv_def)
  have "line_fits str t1" using tt p1 room(2) t0(3) by (simp add: line_fits_def)
  moreover have "ready lv level t1" using t1(4) ok room(1) p1 by (auto simp: ready_def)
  ultimately show ?thesis using t1(1,3) full1 tt t0(3) by (auto simp: carries_def)
qed

lemma stmt_streamed:
  assumes "thread_ok str t" "stmt_ok lv level args"
  shows "\<exists>t1. res_fold (stream_arg lv) args (SetCurLevel level t) = Inr t1 \<and> full t1 \<and>
    body t1 = map Some (args_text args) \<and> tid_text str t1 = map Some (''|'' @ str) \<and>
    line_fits str t1 \<and> ready lv level t1"
  using operands_streamed [of str "[]" t args lv level] assms
  by (auto simp: thread_ok_carries stmt_ok_def carries_def)

text \<open>C16: A log statement whose text fits the line stages exactly one record for the calling
  thread: time stamp, level tag, the text of the operands in order, the thread id and a line
  end. The thread's line is empty again, other threads' records are untouched.\<close>

theorem LOG_stages:
  assumes t: "thread_ok str t" and s: "stmt_ok (llevel lg) level args"
    and small: "length (enc_records (R me)) < 2 ^ 62"
    and st: "stages lg R" and up: "\<not> shutdown lg" and me: "me \<notin> in_use lg"
    and w: "statics_ok (statics w)" "good_time lt (clock w (ticks w))"
  shows "\<exists>t' m st' stamp line busy.
    LOG lt me str level args t (Some lg) w =
      Inr (t', Some (lg\<lparr>buffers := m\<rparr>), w\<lparr>ticks := Suc (ticks w), statics := st'\<rparr>, busy) \<and>
    length stamp = 27 \<and>
    line = stamp @ level_tag level @ args_text args @ ''|'' @ str @ [CHR 0x0A] \<and>
    line_ok (level, line) \<and>
    stages (lg\<lparr>buffers := m\<rparr>) (R(me := R me @ [(level, line)])) \<and>
    in_use (lg\<lparr>buffers := m\<rparr>) = in_use lg \<and> thread_ok str t' \<and> statics_ok st'"
proof -
  from stmt_streamed [OF t s] obtain t1 where
    t1: "res_fold (stream_arg (llevel lg)) args (SetCurLevel level t) = Inr t1" "full t1"
      "body t1 = map Some (args_text args)" and tt: "tid_text str t1 = map Some (''|'' @ str)"
      and fits: "line_fits str t1" and ready: "ready (llevel lg) level t1" by blast
  have s0: "length (args_text args) \<le> 1990" "length str \<le> 15" "\<not> IsLevelForbid (llevel lg) level"
    using s t by (simp_all add: stmt_ok_def thread_ok_def)
  have can: "can_stage str t1 (R me)" using t1(2) fits small by (simp add: can_stage_def)
  from Logger_Flush_stages [OF can ready st up me w] obtain t' m st' stamp where
    f: "Logger_Flush lt me str level t1 lg w =
      Inr (t', lg\<lparr>buffers := m\<rparr>, w\<lparr>ticks := Suc (ticks w), statics := st'\<rparr>,
           2097152 < length (enc_records (R me @ [(level, line_text stamp level str t1)])))"
      "stages (lg\<lparr>buffers := m\<rparr>) (R(me := R me @ [(level, line_text stamp level str t1)]))"
      "in_use (lg\<lparr>buffers := m\<rparr>) = in_use lg" "full t'" "body t' = []" "statics_ok st'" "length stamp = 27"
      "tid_text str t' = tid_text str t1"
    by blast
  have line: "line_text stamp level str t1 =
      stamp @ level_tag level @ args_text args @ ''|'' @ str @ [CHR 0x0A]"
    unfolding line_text_def tt bytes_of_Some t1(3) by simp
  have "line_ok (level, line_text stamp level str t1)"
    using f(7) s0(1,2) unfolding line by (simp add: line_ok_def)
  moreover have "thread_ok str t'" using f(4,5,8) tt s0(2) by (simp add: thread_ok_def)
  moreover have "\<exists>busy. LOG lt me str level args t (Some lg) w =
      Inr (t', Some (lg\<lparr>buffers := m\<rparr>), w\<lparr>ticks := Suc (ticks w), statics := st'\<rparr>, busy)"
    using f(1) t1(1) s0(3) by (simp add: LOG_def LogHelper_assign_def)
  ultimately show ?thesis using f(2,3,6,7) line by metis
qed

section \<open>Instances\<close>

lemma demo_stmt_ok: "stmt_ok 15 1 [ACstr ''n='', AInt 5]"
  by (simp add: stmt_ok_def args_text_def IsLevelForbid_def fmt_eval)

lemma demo_clock: "statics_ok (statics demo_world)" "good_time (\<lambda>_. demo_tm) (clock demo_world (ticks demo_world))"
  using demo_world_good [of "[]"] by (simp_all add: good_world_def good_time_def)

theorem LOG_stages_witness:
  "\<exists>t' m st' stamp line busy.
    LOG (\<lambda>_. demo_tm) 7 ''140'' 1 [ACstr ''n='', AInt 5] Tls_start (Some demo_logger) demo_world =
      Inr (t', Some (demo_logger\<lparr>buffers := m\<rparr>), demo_world\<lparr>ticks := 1, statics := st'\<rparr>, busy) \<and>
    line = stamp @ ''[INFO]n=5|140'' @ [CHR 0x0A] \<and>
    stages (demo_logger\<lparr>buffers := m\<rparr>) ((\<lambda>_. [])(7 := [(1, line)]))"
proof -
  have "thread_ok ''140'' Tls_start" by (rule thread_ok_start) simp
  moreover have "stmt_ok (llevel demo_logger) 1 [ACstr ''n='', AInt 5]"
    using demo_stmt_ok by (simp add: demo_logger_def)
  moreover have "length (enc_records ((\<lambda>_. []) (7::nat))) < 2 ^ 62" by (simp add: enc_records_def)
  moreover have "stages demo_logger (\<lambda>_. [])" "\<not> shutdown demo_logger" "7 \<notin> in_use demo_logger"
    by (simp_all add: stages_def in_use_def smap_ok_def demo_logger_def)
  moreover have "level_tag 1 @ args_text [ACstr ''n='', AInt 5] @ ''|'' @ ''140'' @ [CHR 0x0A] =
      ''[INFO]n=5|140'' @ [CHR 0x0A]"
    by (simp add: level_tag_def logINFO_def args_text_def fmt_eval)
  moreover have "ticks demo_world = 0" by (simp add: demo_world_def)
  ultimately show ?thesis
    using LOG_stages [of "''140''" Tls_start demo_logger 1 "[ACstr ''n='', AInt 5]" "\<lambda>_. []" 7 demo_world
        "\<lambda>_. demo_tm"] demo_clock by (metis One_nat_def append_Nil)
qed

definition demo_text :: Tls where
  "demo_text = Tls_start\<lparr>tmpBuffer := (tmpBuffer Tls_start)[33 := Some CHR ''x''], pos := 34, curLevel := 1\<rparr>"

theorem Logger_Flush_stopped_witness:
  "\<exists>t' st' out. Logger_Flush (\<lambda>_. demo_tm) 7 ''140'' 1 demo_text (demo_logger\<lparr>shutdown := True\<rparr>) demo_world =
      Inr (t', demo_logger\<lparr>shutdown := True\<rparr>, demo_world\<lparr>ticks := 1, statics := st', cout := out\<rparr>, False) \<and>
    body t' = map Some ''x|140'' @ [Some (CHR 0x0A)]"
proof -
  have body: "body demo_text = map Some ''x''"
    by (simp add: body_def demo_text_def Tls_start_def drop_update_swap take_Suc hd_conv_nth)
  have tt: "tid_text ''140'' demo_text = map Some ''|140''"
    by (simp add: tid_text_def demo_text_def Tls_start_def)
  have "tls_inv demo_text" using tls_inv_start by (simp add: tls_inv_def demo_text_def)
  then have f: "full demo_text"
    using full_start by (auto simp: full_def demo_text_def dest: in_set_takeD set_update_subset_insert [THEN subsetD])
  have fits: "line_fits ''140'' demo_text" unfolding line_fits_def tt by (simp add: demo_text_def)
  have r: "ready (llevel (demo_logger\<lparr>shutdown := True\<rparr>)) 1 demo_text"
    by (simp add: ready_def demo_text_def demo_logger_def IsLevelForbid_def)
  have c: "ticks demo_world = 0" "cout demo_world = []" by (simp_all add: demo_world_def)
  show ?thesis
    using Logger_Flush_stopped [OF f fits r _ demo_clock, of 7] unfolding body tt c by auto
qed

end
