(* ===== verification/LogConc.thy ===== *)
theory LogConc
  imports LogFlush "HOL-Library.Sublist" "HOL-Library.Multiset"
begin

text \<open>
  The logger under concurrency: any number of threads executing log statements while another one
  executes \<open>Update\<close>, as a step relation. A step is what a thread does between two operations on
  \<open>mutex_\<close> or on the flag \<open>inuse_\<close>: formatting into its thread-local line, the critical section of \<open>Flush\<close>,
  storing the record outside it, releasing the buffer; the critical section of \<open>Update\<close>, writing
  one buffer, the final sync. The steps are the definitions of Logger, LogStream and LogFlush. A thread
  starts a statement with an empty line and a text that fits it; one that has logged to the logger after
  \<open>Shutdown\<close> has no empty line. What becomes of it, and of other statements, is in LogStopped and LogFaults.
\<close>

section \<open>States and steps\<close>

text \<open>Where a thread is in its statement; where the thread in \<open>Update\<close> is.\<close>

datatype fphase = FIdle | FEnter uint "log_arg list" | FStore uint "log_arg list" | FLeave
datatype uphase = UIdle | UWrite "Buffer list" bool

text \<open>
  The last five fields are ghosts: the records stored, in the order of storing; the operands of
  each thread's stored statements; the records waiting for each thread; the threads and records
  of the buffers \<open>Update\<close> has taken; the records written.
\<close>

record log_sys =
  lgr :: Logger
  wld :: World
  tls :: "nat \<Rightarrow> Tls"
  fph :: "nat \<Rightarrow> fphase"
  uph :: uphase
  order :: "(nat \<times> rec) list"
  said :: "nat \<Rightarrow> (uint \<times> log_arg list) list"
  stg :: "nat \<Rightarrow> rec list"
  tkn :: "(nat \<times> rec list) list"
  outp :: "(nat \<times> rec) list"

definition log_start :: "Logger \<Rightarrow> World \<Rightarrow> log_sys" where
  "log_start lg w = \<lparr>lgr = lg, wld = w, tls = (\<lambda>_. Tls_start), fph = (\<lambda>_. FIdle), uph = UIdle, order = [],
     said = (\<lambda>_. []), stg = (\<lambda>_. []), tkn = [], outp = []\<rparr>"

text \<open>The thread-local part of a statement: the operands, then \<open>Flush\<close> up to the lock.\<close>

definition log_format ::
  "(int \<Rightarrow> tm) \<Rightarrow> byte list \<Rightarrow> uint \<Rightarrow> log_arg list \<Rightarrow> Tls \<Rightarrow> Logger \<Rightarrow> World \<Rightarrow> (bool \<times> Tls \<times> World) res" where
  "log_format lt str level args t lg w =
     (let (c, w) = read_clock w in
      res_bind (res_fold (stream_arg (llevel lg)) args (SetCurLevel level t)) (\<lambda>t.
      res_bind (flush_format lt (llevel lg) level str (Time_new c garbage_tm) (statics w) t) (\<lambda>(line, st, t).
        Inr (line, t, w\<lparr>statics := st\<rparr>))))"

definition line_stored :: "Tls \<Rightarrow> byte list" where
  "line_stored t = bytes_of (take (unat (pos t)) (tmpBuffer t))"

inductive log_step :: "(int \<Rightarrow> tm) \<Rightarrow> (nat \<Rightarrow> byte list) \<Rightarrow> log_sys \<Rightarrow> log_sys \<Rightarrow> bool" for lt ids where
  s_format: "fph s k = FIdle \<Longrightarrow> thread_ok (ids k) (tls s k) \<Longrightarrow> stmt_ok (llevel (lgr s)) level args \<Longrightarrow>
    log_format lt (ids k) level args (tls s k) (lgr s) (wld s) = Inr (True, t, w) \<Longrightarrow>
    log_step lt ids s (s\<lparr>wld := w, tls := (tls s)(k := t), fph := (fph s)(k := FEnter level args)\<rparr>)"
| s_stopped: "fph s k = FEnter level args \<Longrightarrow> flush_enter k (lgr s) = Inr Stopped \<Longrightarrow>
    c_string (tmpBuffer (tls s k)) = Inr text \<Longrightarrow>
    log_step lt ids s (s\<lparr>wld := (wld s)\<lparr>cout := cout (wld s) @ text\<rparr>, fph := (fph s)(k := FIdle)\<rparr>)"
| s_enter: "fph s k = FEnter level args \<Longrightarrow> flush_enter k (lgr s) = Inr (Entered lg) \<Longrightarrow>
    log_step lt ids s (s\<lparr>lgr := lg, fph := (fph s)(k := FStore level args)\<rparr>)"
| s_store: "fph s k = FStore level args \<Longrightarrow> flush_store k level (tls s k) (lgr s) = Inr lg \<Longrightarrow>
    r = (level, line_stored (tls s k)) \<Longrightarrow>
    log_step lt ids s (s\<lparr>lgr := lg, tls := (tls s)(k := log_Reset (tls s k)), fph := (fph s)(k := FLeave),
      order := order s @ [(k, r)], said := (said s)(k := said s k @ [(level, args)]),
      stg := (stg s)(k := stg s k @ [r])\<rparr>)"
| s_leave: "fph s k = FLeave \<Longrightarrow> flush_leave k (lgr s) = Inr (lg, busy) \<Longrightarrow>
    log_step lt ids s (s\<lparr>lgr := lg, fph := (fph s)(k := FIdle)\<rparr>)"
| s_shutdown: "Logger_Shutdown addr (lgr s) (wld s) = (lg, w) \<Longrightarrow> log_step lt ids s (s\<lparr>lgr := lg, wld := w\<rparr>)"
| u_enter: "uph s = UIdle \<Longrightarrow> update_enter (lgr s) = (lg, bufs, todo) \<Longrightarrow>
    log_step lt ids s (s\<lparr>lgr := lg, uph := UWrite bufs todo,
      stg := (\<lambda>k. if k \<in> in_use (lgr s) then stg s k else []),
      tkn := map (\<lambda>k. (k, stg s k)) (idle_threads (lgr s))\<rparr>)"
| u_write: "uph s = UWrite (b # bufs) todo \<Longrightarrow> tkn s = (k, rs) # rest \<Longrightarrow>
    update_write lt b (lgr s, wld s) = Inr (lg, w) \<Longrightarrow>
    log_step lt ids s (s\<lparr>lgr := lg, wld := w, uph := UWrite bufs todo, tkn := rest,
      outp := outp s @ map (Pair k) rs\<rparr>)"
| u_sync: "uph s = UWrite [] todo \<Longrightarrow> update_sync (lgr s, wld s) = (lg, w) \<Longrightarrow>
    log_step lt ids s (s\<lparr>lgr := lg, wld := w, uph := UIdle\<rparr>)"

inductive log_reach :: "(int \<Rightarrow> tm) \<Rightarrow> (nat \<Rightarrow> byte list) \<Rightarrow> Logger \<Rightarrow> World \<Rightarrow> log_sys \<Rightarrow> bool" for lt ids lg w where
  start: "log_reach lt ids lg w (log_start lg w)"
| step: "log_reach lt ids lg w s \<Longrightarrow> log_step lt ids s s' \<Longrightarrow> log_reach lt ids lg w s'"

section \<open>The invariant\<close>

definition recs_of :: "nat \<Rightarrow> (nat \<times> rec) list \<Rightarrow> rec list" where
  "recs_of k xs = map snd (filter (\<lambda>x. fst x = k) xs)"

definition flat :: "(nat \<times> rec list) list \<Rightarrow> (nat \<times> rec) list" where
  "flat xs = concat (map (\<lambda>(k, rs). map (Pair k) rs) xs)"

text \<open>What a stored line says.\<close>

definition says :: "(nat \<Rightarrow> byte list) \<Rightarrow> nat \<Rightarrow> uint \<times> log_arg list \<Rightarrow> rec \<Rightarrow> bool" where
  "says ids k x r \<longleftrightarrow> fst r = fst x \<and> line_ok r \<and> (\<exists>stamp. length stamp = 27 \<and>
     snd r = stamp @ level_tag (fst x) @ args_text (snd x) @ ''|'' @ ids k @ [CHR 0x0A])"

definition busy_phase :: "fphase \<Rightarrow> bool" where
  "busy_phase p = (case p of FStore _ _ \<Rightarrow> True | FLeave \<Rightarrow> True | _ \<Rightarrow> False)"

definition holds_line :: "(nat \<Rightarrow> byte list) \<Rightarrow> nat \<Rightarrow> Tls \<Rightarrow> uint \<Rightarrow> log_arg list \<Rightarrow> bool" where
  "holds_line ids k t level args \<longleftrightarrow> tls_inv t \<and>
     take (unat (pos t)) (tmpBuffer t) = map Some (line_stored t) \<and>
     says ids k (level, args) (level, line_stored t) \<and> thread_ok (ids k) (log_Reset t) \<and>
     Some (CHR 0x00) \<in> set (tmpBuffer t)"

definition phase_fits :: "(nat \<Rightarrow> byte list) \<Rightarrow> nat \<Rightarrow> bool \<Rightarrow> fphase \<Rightarrow> Tls \<Rightarrow> bool" where
  "phase_fits ids k down p t = (case p of
       FEnter level args \<Rightarrow> holds_line ids k t level args
     | FStore level args \<Rightarrow> holds_line ids k t level args
     | _ \<Rightarrow> \<not> down \<longrightarrow> thread_ok (ids k) t)"

definition phases_fit :: "(nat \<Rightarrow> byte list) \<Rightarrow> log_sys \<Rightarrow> bool" where
  "phases_fit ids s \<longleftrightarrow> (\<forall>k. phase_fits ids k (shutdown (lgr s)) (fph s k) (tls s k))"

definition taken_fit :: "log_sys \<Rightarrow> bool" where
  "taken_fit s \<longleftrightarrow>
     (case uph s of UIdle \<Rightarrow> tkn s = [] | UWrite bufs _ \<Rightarrow> list_all2 (\<lambda>x b. holds b (snd x)) (tkn s) bufs)"

definition counts_fit :: "(nat \<Rightarrow> byte list) \<Rightarrow> log_sys \<Rightarrow> bool" where
  "counts_fit ids s \<longleftrightarrow>
     (\<forall>k. recs_of k (outp s) @ recs_of k (flat (tkn s)) @ stg s k = recs_of k (order s)) \<and>
     (\<forall>k. list_all2 (says ids k) (said s k) (recs_of k (order s)))"

definition written_fit :: "(int \<Rightarrow> tm) \<Rightarrow> World \<Rightarrow> log_sys \<Rightarrow> bool" where
  "written_fit lt w0 s \<longleftrightarrow>
     (\<exists>ns. files_ok ns (lgr s) (wld s) \<and> log_bytes ns (lgr s) (wld s) = concat (map (snd \<circ> snd) (outp s))) \<and>
     good_world lt (directory (lgr s)) (wld s) \<and> unat (seq (wld s)) \<le> unat (seq w0) + length (outp s) \<and>
     (dest (lgr s) AND logFile) \<noteq> 0"

definition log_inv :: "(int \<Rightarrow> tm) \<Rightarrow> (nat \<Rightarrow> byte list) \<Rightarrow> World \<Rightarrow> log_sys \<Rightarrow> bool" where
  "log_inv lt ids w0 s \<longleftrightarrow> stages (lgr s) (stg s) \<and> in_use (lgr s) = {k. busy_phase (fph s k)} \<and>
     phases_fit ids s \<and> taken_fit s \<and> counts_fit ids s \<and> written_fit lt w0 s"

lemma busy_phase_simps [simp]:
  "\<not> busy_phase FIdle" "\<not> busy_phase (FEnter l a)" "busy_phase (FStore l a)" "busy_phase FLeave"
  by (simp_all add: busy_phase_def)

lemma recs_of_simps [simp]:
  "recs_of k [] = []" "recs_of k (xs @ ys) = recs_of k xs @ recs_of k ys"
  "recs_of k [(j, r)] = (if j = k then [r] else [])"
  "recs_of k (map (Pair j) rs) = (if j = k then rs else [])"
proof -
  show "recs_of k (map (Pair j) rs) = (if j = k then rs else [])"
    by (induction rs) (auto simp: recs_of_def)
qed (simp_all add: recs_of_def)

lemma flat_simps [simp]: "flat [] = []" "flat ((k, rs) # xs) = map (Pair k) rs @ flat xs"
  by (simp_all add: flat_def)

lemma recs_of_flat_distinct:
  "distinct ks \<Longrightarrow> recs_of k (flat (map (\<lambda>k. (k, R k)) ks)) = (if k \<in> set ks then R k else [])"
  by (induction ks) auto

text \<open>No more records have been written or taken than were stored.\<close>

lemma count_recs_of: "count (mset xs) (k, r) = count (mset (recs_of k xs)) r"
  by (induction xs) (auto simp: recs_of_def)

lemma written_le:
  assumes "counts_fit ids s"
  shows "length (outp s @ flat (tkn s)) \<le> length (order s)" "length (stg s k) \<le> length (order s)"
proof -
  have e: "recs_of k (outp s @ flat (tkn s)) @ stg s k = recs_of k (order s)" for k
    using assms by (simp add: counts_fit_def)
  have "count (mset (outp s @ flat (tkn s))) x \<le> count (mset (order s)) x" for x
  proof -
    obtain k r where x: "x = (k, r)" by (rule prod.exhaust)
    show ?thesis unfolding x count_recs_of e [of k, symmetric] by simp
  qed
  then have "mset (outp s @ flat (tkn s)) \<subseteq># mset (order s)" by (simp add: mset_subset_eqI del: mset_append)
  from size_mset_mono [OF this] show "length (outp s @ flat (tkn s)) \<le> length (order s)" by simp
  have "length (stg s k) \<le> length (recs_of k (order s))" using arg_cong [OF e [of k], of length] by simp
  also have "\<dots> \<le> length (order s)" by (simp add: recs_of_def)
  finally show "length (stg s k) \<le> length (order s)" .
qed

lemma lines_stored_ok:
  assumes "counts_fit ids s"
  shows "\<forall>r \<in> set (recs_of k (order s)). line_ok r"
proof -
  have "list_all2 (says ids k) (said s k) (recs_of k (order s))" using assms by (simp add: counts_fit_def)
  then show ?thesis by (induction rule: list_all2_induct) (auto simp: says_def)
qed

lemma lines_small: "\<forall>r \<in> set rs. line_ok r \<Longrightarrow> length (enc_records rs) \<le> 2060 * length rs"
  by (induction rs) (auto simp: enc_records_def line_ok_def)

lemma staged_small:
  assumes c: "counts_fit ids s" and n: "length (order s) < 2 ^ 32"
  shows "length (enc_records (stg s k)) < 2 ^ 60"
proof -
  have "recs_of k (outp s) @ recs_of k (flat (tkn s)) @ stg s k = recs_of k (order s)"
    using c by (simp add: counts_fit_def)
  then have "set (stg s k) \<subseteq> set (recs_of k (order s))" by (metis Un_upper2 le_supI2 set_append)
  then have "length (enc_records (stg s k)) \<le> 2060 * length (stg s k)"
    using lines_stored_ok [OF c] lines_small by blast
  then show ?thesis using written_le(2) [OF c, of k] n by simp
qed

section \<open>Every step keeps the invariant\<close>

text \<open>A statement of a thread whose line is empty can always be formatted.\<close>

lemma log_format_ok:
  assumes t: "thread_ok (ids k) t" and s: "stmt_ok (llevel lg) level args"
    and w: "statics_ok (statics w)" "good_time lt (clock w (ticks w))"
  shows "\<exists>t' st'. log_format lt (ids k) level args t lg w =
      Inr (True, t', w\<lparr>ticks := Suc (ticks w), statics := st'\<rparr>) \<and> statics_ok st' \<and> holds_line ids k t' level args"
proof -
  from stmt_streamed [OF t s] obtain t1 where
    t1: "res_fold (stream_arg (llevel lg)) args (SetCurLevel level t) = Inr t1" "full t1"
      "body t1 = map Some (args_text args)" and tt: "tid_text (ids k) t1 = map Some (''|'' @ ids k)"
      and fits: "line_fits (ids k) t1" and ready: "ready (llevel lg) level t1" by blast
  from flush_format_line [OF t1(2) ready fits w] obtain st' t' stamp where
    f: "flush_format lt (llevel lg) level (ids k) (Time_new (clock w (ticks w)) garbage_tm) (statics w) t1 =
        Inr (True, st', t')" "full t'" "statics_ok st'" "length stamp = 27"
      "take (unat (pos t')) (tmpBuffer t') = map Some (line_text stamp level (ids k) t1)"
      "tmpBuffer t' ! unat (pos t') = Some (CHR 0x00)"
      "unat (pos t') = unat (pos t1) + length (tid_text (ids k) t1) + 1"
      "tid_text (ids k) t' = tid_text (ids k) t1" by blast
  have line: "line_text stamp level (ids k) t1 =
      stamp @ level_tag level @ args_text args @ ''|'' @ ids k @ [CHR 0x0A]"
    unfolding line_text_def tt bytes_of_Some t1(3) by simp
  have stored: "line_stored t' = line_text stamp level (ids k) t1"
    unfolding line_stored_def f(5) by simp
  have short: "length (ids k) \<le> 15" "length (args_text args) \<le> 1990"
    using t s by (simp_all add: thread_ok_def stmt_ok_def)
  have inv: "tls_inv t'" using f(2) by (simp add: full_def)
  have "says ids k (level, args) (level, line_stored t')"
    unfolding says_def stored line using f(4) short by (auto simp: line_ok_def)
  moreover have "thread_ok (ids k) (log_Reset t')"
  proof -
    have "full (log_Reset t')" "body (log_Reset t') = []"
      using f(2) tls_inv_Reset [OF inv] by (simp_all add: full_def log_Reset_def)
    moreover have "tid_text (ids k) (log_Reset t') = map Some (''|'' @ ids k)"
      unfolding tt [symmetric] f(8) [symmetric] by (simp add: tid_text_def log_Reset_def)
    ultimately show ?thesis using short by (simp add: thread_ok_def)
  qed
  moreover have "unat (pos t') < length (tmpBuffer t')"
    using f(7) fits inv by (simp add: line_fits_def tls_inv_def)
  then have "Some (CHR 0x00) \<in> set (tmpBuffer t')" using f(6) nth_mem by metis
  ultimately have "holds_line ids k t' level args"
    unfolding holds_line_def using inv f(5) stored by simp
  then show ?thesis using f(1,3) t1(1)
    by (intro exI [of _ t'] exI [of _ st']) (simp add: log_format_def read_clock_def)
qed

lemma log_invD:
  assumes "log_inv lt ids w0 s"
  shows "stages (lgr s) (stg s)" "in_use (lgr s) = {k. busy_phase (fph s k)}" "phases_fit ids s"
    "taken_fit s" "counts_fit ids s" "written_fit lt w0 s"
  using assms by (simp_all add: log_inv_def)

lemma log_invI:
  "stages (lgr s) (stg s) \<Longrightarrow> in_use (lgr s) = {k. busy_phase (fph s k)} \<Longrightarrow> phases_fit ids s \<Longrightarrow>
   taken_fit s \<Longrightarrow> counts_fit ids s \<Longrightarrow> written_fit lt w0 s \<Longrightarrow> log_inv lt ids w0 s"
  by (simp add: log_inv_def)

lemma written_world:
  assumes "written_fit lt w0 s"
  shows "statics_ok (statics (wld s))" "good_time lt (clock (wld s) (ticks (wld s)))"
    "good_world lt (directory (lgr s)) (wld s)"
  using assms by (simp_all add: written_fit_def good_world_def good_time_def)

text \<open>Steps that change neither the files nor what the logger knows of them.\<close>

lemma written_same:
  assumes w: "written_fit lt w0 s" and "good_world lt (directory (lgr s)) (wld s')"
    and "logfile (lgr s') = logfile (lgr s)" "dest (lgr s') = dest (lgr s)"
      "directory (lgr s') = directory (lgr s)" "kern (wld s') = kern (wld s)" "seq (wld s') = seq (wld s)"
      "outp s' = outp s"
  shows "written_fit lt w0 s'"
  using w assms(2-) files_ok_cong [of "lgr s'" "lgr s" "wld s'" "wld s"] by (auto simp: written_fit_def)

lemma phase_fits_simps [simp]:
  "phase_fits ids k d (FEnter level args) t = holds_line ids k t level args"
  "phase_fits ids k d (FStore level args) t = holds_line ids k t level args"
  "phase_fits ids k d FIdle t = (\<not> d \<longrightarrow> thread_ok (ids k) t)"
  "phase_fits ids k d FLeave t = (\<not> d \<longrightarrow> thread_ok (ids k) t)"
  by (simp_all add: phase_fits_def)

lemma phase_fits_down: "phase_fits ids k d p t \<Longrightarrow> d \<longrightarrow> d' \<Longrightarrow> phase_fits ids k d' p t"
  by (cases p) auto

lemma phase_at: "phases_fit ids s \<Longrightarrow> phase_fits ids k (shutdown (lgr s)) (fph s k) (tls s k)"
  by (simp add: phases_fit_def)

lemma phases_fit_upd:
  assumes "phases_fit ids s" "fph s' = (fph s)(k := p)" "tls s' = (tls s)(k := t)"
      "shutdown (lgr s) \<longrightarrow> shutdown (lgr s')" "phase_fits ids k (shutdown (lgr s')) p t"
  shows "phases_fit ids s'"
  using assms phase_fits_down [OF phase_at [OF assms(1)]] by (simp add: phases_fit_def)

lemma phases_fit_world:
  assumes "phases_fit ids s" "fph s' = fph s" "tls s' = tls s" "shutdown (lgr s) \<longrightarrow> shutdown (lgr s')"
  shows "phases_fit ids s'"
  using assms phase_fits_down [OF phase_at [OF assms(1)]] by (simp add: phases_fit_def)

lemma taken_same: "taken_fit s \<Longrightarrow> uph s' = uph s \<Longrightarrow> tkn s' = tkn s \<Longrightarrow> taken_fit s'"
  by (cases "uph s") (simp_all add: taken_fit_def)

lemma counts_same:
  "counts_fit ids s \<Longrightarrow> outp s' = outp s \<Longrightarrow> tkn s' = tkn s \<Longrightarrow> stg s' = stg s \<Longrightarrow> order s' = order s \<Longrightarrow>
   said s' = said s \<Longrightarrow> counts_fit ids s'"
  by (simp add: counts_fit_def)

lemma s_format_inv:
  assumes i: "log_inv lt ids w0 s" and f: "fph s k = FIdle" "thread_ok (ids k) (tls s k)"
      "stmt_ok (llevel (lgr s)) level args"
      "log_format lt (ids k) level args (tls s k) (lgr s) (wld s) = Inr (True, t, w)"
  shows "log_inv lt ids w0 (s\<lparr>wld := w, tls := (tls s)(k := t), fph := (fph s)(k := FEnter level args)\<rparr>)"
    (is "log_inv lt ids w0 ?s")
proof (rule log_invI)
  note inv = log_invD [OF i]
  note w = written_world [OF inv(6)]
  from log_format_ok [where lt = lt and w = "wld s" and ids = ids and k = k, OF f(2,3) w(1,2)] f(4) obtain st where
    st: "w = (wld s)\<lparr>ticks := Suc (ticks (wld s)), statics := st\<rparr>" "statics_ok st" "holds_line ids k t level args"
    by auto
  have "good_world lt (directory (lgr s)) w" using w(3) st(1,2) by (simp add: good_world_def)
  then show "written_fit lt w0 ?s" by (intro written_same [OF inv(6)]) (simp_all add: st(1))
  show "phases_fit ids ?s" using st(3) by (intro phases_fit_upd [OF inv(3), of _ k "FEnter level args" t]) simp_all
  show "in_use (lgr ?s) = {k. busy_phase (fph ?s k)}" using inv(2) f(1) by auto
  show "taken_fit ?s" by (rule taken_same [OF inv(4)]) simp_all
  show "counts_fit ids ?s" by (rule counts_same [OF inv(5)]) simp_all
qed (use log_invD(1) [OF i] in simp)

lemma s_stopped_inv:
  assumes i: "log_inv lt ids w0 s" and f: "fph s k = FEnter level args" "flush_enter k (lgr s) = Inr Stopped"
  shows "log_inv lt ids w0 (s\<lparr>wld := (wld s)\<lparr>cout := text\<rparr>, fph := (fph s)(k := FIdle)\<rparr>)"
    (is "log_inv lt ids w0 ?s")
proof (rule log_invI)
  note inv = log_invD [OF i]
  have down: "shutdown (lgr s)" using f(2) by (auto simp: flush_enter_def Let_def check_Inr split: if_splits option.splits)
  show "written_fit lt w0 ?s" using written_world(3) [OF inv(6)]
    by (intro written_same [OF inv(6)]) simp_all
  show "phases_fit ids ?s" using down by (intro phases_fit_upd [OF inv(3), of _ k FIdle "tls s k"]) simp_all
  show "in_use (lgr ?s) = {k. busy_phase (fph ?s k)}" using inv(2) f(1) by auto
  show "taken_fit ?s" by (rule taken_same [OF inv(4)]) simp_all
  show "counts_fit ids ?s" by (rule counts_same [OF inv(5)]) simp_all
qed (use log_invD(1) [OF i] in simp)

lemma s_enter_inv:
  assumes i: "log_inv lt ids w0 s" and f: "fph s k = FEnter level args" "flush_enter k (lgr s) = Inr (Entered lg)"
  shows "log_inv lt ids w0 (s\<lparr>lgr := lg, fph := (fph s)(k := FStore level args)\<rparr>)" (is "log_inv lt ids w0 ?s")
proof (rule log_invI)
  note inv = log_invD [OF i]
  have up: "\<not> shutdown (lgr s)" using f(2) by (auto simp: flush_enter_def)
  have "k \<notin> in_use (lgr s)" unfolding inv(2) using f(1) by simp
  from flush_enter_ok [OF inv(1) up this] f(2) obtain m where
    m: "lg = (lgr s)\<lparr>buffers := m\<rparr>" "stages lg (stg s)" "in_use lg = insert k (in_use (lgr s))" by auto
  show "stages (lgr ?s) (stg ?s)" using m(2) by simp
  show "in_use (lgr ?s) = {k. busy_phase (fph ?s k)}" using m(3) inv(2) by auto
  show "written_fit lt w0 ?s" using written_world(3) [OF inv(6)]
    by (intro written_same [OF inv(6)]) (simp_all add: m(1))
  show "phases_fit ids ?s" using phase_at [OF inv(3), of k] f(1)
    by (intro phases_fit_upd [OF inv(3), of _ k "FStore level args" "tls s k"]) (simp_all add: m(1))
  show "taken_fit ?s" by (rule taken_same [OF inv(4)]) simp_all
  show "counts_fit ids ?s" by (rule counts_same [OF inv(5)]) simp_all
qed

lemma flush_store_at:
  assumes i: "log_inv lt ids w0 s" and f: "fph s k = FStore level args" and n: "length (order s) < 2 ^ 32"
  shows "\<exists>m. flush_store k level (tls s k) (lgr s) = Inr ((lgr s)\<lparr>buffers := m\<rparr>) \<and>
    stages ((lgr s)\<lparr>buffers := m\<rparr>) ((stg s)(k := stg s k @ [(level, line_stored (tls s k))])) \<and>
    in_use ((lgr s)\<lparr>buffers := m\<rparr>) = in_use (lgr s)"
proof -
  note inv = log_invD [OF i]
  have h: "holds_line ids k (tls s k) level args" using phase_at [OF inv(3), of k] f by simp
  then have t: "tls_inv (tls s k)" "take (unat (pos (tls s k))) (tmpBuffer (tls s k)) = map Some (line_stored (tls s k))"
    by (simp_all add: holds_line_def)
  have "k \<in> in_use (lgr s)" unfolding inv(2) using f by simp
  moreover have "length (enc_records (stg s k)) + 12 + unat (pos (tls s k)) < 2 ^ 63 - 1"
    using staged_small [OF inv(5) n, of k] t(1) by (simp add: tls_inv_def)
  ultimately show ?thesis using flush_store_ok [OF inv(1) _ t] by blast
qed

lemma s_store_inv:
  assumes i: "log_inv lt ids w0 s" and f: "fph s k = FStore level args"
      "flush_store k level (tls s k) (lgr s) = Inr lg" "r = (level, line_stored (tls s k))"
    and n: "length (order s) < 2 ^ 32"
  shows "log_inv lt ids w0 (s\<lparr>lgr := lg, tls := (tls s)(k := log_Reset (tls s k)), fph := (fph s)(k := FLeave),
      order := order s @ [(k, r)], said := (said s)(k := said s k @ [(level, args)]),
      stg := (stg s)(k := stg s k @ [r])\<rparr>)" (is "log_inv lt ids w0 ?s")
proof (rule log_invI)
  note inv = log_invD [OF i]
  from flush_store_at [OF i f(1) n] f(2) obtain m where
    m: "lg = (lgr s)\<lparr>buffers := m\<rparr>" "stages lg ((stg s)(k := stg s k @ [r]))" "in_use lg = in_use (lgr s)"
    unfolding f(3) by auto
  have h: "holds_line ids k (tls s k) level args" using phase_at [OF inv(3), of k] f(1) by simp
  show "stages (lgr ?s) (stg ?s)" using m(2) by simp
  show "in_use (lgr ?s) = {k. busy_phase (fph ?s k)}" using m(3) inv(2) f(1) by auto
  show "written_fit lt w0 ?s" using written_world(3) [OF inv(6)]
    by (intro written_same [OF inv(6)]) (simp_all add: m(1))
  show "phases_fit ids ?s" using h
    by (intro phases_fit_upd [OF inv(3), of _ k FLeave "log_Reset (tls s k)"]) (simp_all add: m(1) holds_line_def)
  show "taken_fit ?s" by (rule taken_same [OF inv(4)]) simp_all
  have "says ids k (level, args) r" using h f(3) by (simp add: holds_line_def)
  moreover have "list_all2 (says ids k) (said s k) (recs_of k (order s))" using inv(5) by (simp add: counts_fit_def)
  ultimately have "list_all2 (says ids k) (said s k @ [(level, args)]) (recs_of k (order s) @ [r])"
    by (simp add: list_all2_appendI)
  moreover have "recs_of k (outp s) @ recs_of k (flat (tkn s)) @ stg s k @ [r] = recs_of k (order s) @ [r]"
    using inv(5) unfolding counts_fit_def by (metis append_assoc)
  ultimately show "counts_fit ids ?s" using inv(5) by (simp add: counts_fit_def)
qed

lemma s_leave_inv:
  assumes i: "log_inv lt ids w0 s" and f: "fph s k = FLeave" "flush_leave k (lgr s) = Inr (lg, busy)"
    and n: "length (order s) < 2 ^ 32"
  shows "log_inv lt ids w0 (s\<lparr>lgr := lg, fph := (fph s)(k := FIdle)\<rparr>)" (is "log_inv lt ids w0 ?s")
proof (rule log_invI)
  note inv = log_invD [OF i]
  have "k \<in> in_use (lgr s)" unfolding inv(2) using f(1) by simp
  moreover have "length (enc_records (stg s k)) < 2 ^ 63" using staged_small [OF inv(5) n, of k] by simp
  ultimately obtain m where
    m: "lg = (lgr s)\<lparr>buffers := m\<rparr>" "stages lg (stg s)" "in_use lg = in_use (lgr s) - {k}"
    using flush_leave_ok [OF inv(1), of k] f(2) by auto
  show "stages (lgr ?s) (stg ?s)" using m(2) by simp
  show "in_use (lgr ?s) = {k. busy_phase (fph ?s k)}" using m(3) inv(2) by auto
  show "written_fit lt w0 ?s" using written_world(3) [OF inv(6)]
    by (intro written_same [OF inv(6)]) (simp_all add: m(1))
  show "phases_fit ids ?s" using phase_at [OF inv(3), of k] f(1)
    by (intro phases_fit_upd [OF inv(3), of _ k FIdle "tls s k"]) (simp_all add: m(1))
  show "taken_fit ?s" by (rule taken_same [OF inv(4)]) simp_all
  show "counts_fit ids ?s" by (rule counts_same [OF inv(5)]) simp_all
qed

lemma s_shutdown_inv:
  assumes i: "log_inv lt ids w0 s" and f: "Logger_Shutdown addr (lgr s) (wld s) = (lg, w)"
  shows "log_inv lt ids w0 (s\<lparr>lgr := lg, wld := w\<rparr>)" (is "log_inv lt ids w0 ?s")
proof -
  note inv = log_invD [OF i]
  have e: "buffers lg = buffers (lgr s)" "logfile lg = logfile (lgr s)" "dest lg = dest (lgr s)"
    "directory lg = directory (lgr s)" "shutdown (lgr s) \<longrightarrow> shutdown lg"
    using f by (auto simp: Logger_Shutdown_def split: if_splits)
  have "\<exists>c. w = (wld s)\<lparr>cout := c\<rparr>"
    using f by (cases "shutdown (lgr s)") (auto simp: Logger_Shutdown_def intro: exI [of _ "cout (wld s)"])
  then obtain c where w: "w = (wld s)\<lparr>cout := c\<rparr>" by blast
  show ?thesis
  proof (rule log_invI)
    show "stages (lgr ?s) (stg ?s)" "in_use (lgr ?s) = {k. busy_phase (fph ?s k)}"
      using inv(1,2) by (simp_all add: stages_def in_use_def e(1))
    have "good_world lt (directory (lgr s)) w" using written_world(3) [OF inv(6)] by (simp add: w)
    then show "written_fit lt w0 ?s" by (intro written_same [OF inv(6)]) (simp_all add: e(1-4) w)
    show "phases_fit ids ?s" by (rule phases_fit_world [OF inv(3)]) (simp_all add: e(5))
    show "taken_fit ?s" by (rule taken_same [OF inv(4)]) simp_all
    show "counts_fit ids ?s" by (rule counts_same [OF inv(5)]) simp_all
  qed
qed

lemma u_enter_inv:
  assumes i: "log_inv lt ids w0 s" and f: "uph s = UIdle" "update_enter (lgr s) = (lg, bufs, todo)"
  shows "log_inv lt ids w0 (s\<lparr>lgr := lg, uph := UWrite bufs todo,
      stg := (\<lambda>k. if k \<in> in_use (lgr s) then stg s k else []),
      tkn := map (\<lambda>k. (k, stg s k)) (idle_threads (lgr s))\<rparr>)" (is "log_inv lt ids w0 ?s")
proof -
  note inv = log_invD [OF i]
  from update_enter_ok [OF inv(1)] f(2) obtain m where
    m: "lg = (lgr s)\<lparr>buffers := m\<rparr>" "stages lg (\<lambda>k. if k \<in> in_use (lgr s) then stg s k else [])"
      "in_use lg = in_use (lgr s)" "list_all2 (\<lambda>k b. holds b (stg s k)) (idle_threads (lgr s)) bufs" by auto
  have d: "distinct (map fst (buffers (lgr s)))"
    using inv(1) by (intro smap_ok_distinct) (simp add: stages_def)
  have idle: "distinct (idle_threads (lgr s))"
    unfolding idle_threads_def using d by (simp add: distinct_map_filter)
  have others: "stg s k = []" if "k \<notin> in_use (lgr s)" "k \<notin> set (idle_threads (lgr s))" for k
  proof (rule stages_None [OF inv(1)])
    show "map_of (buffers (lgr s)) k = None"
    proof (rule ccontr)
      assume "map_of (buffers (lgr s)) k \<noteq> None"
      then obtain b where b: "map_of (buffers (lgr s)) k = Some b" by blast
      with that(1) have "\<not> inuse b" by (auto simp: in_use_def)
      with map_of_SomeD [OF b] that(2) show False by (force simp: idle_threads_def)
    qed
  qed
  have disj: "k \<notin> set (idle_threads (lgr s))" if "k \<in> in_use (lgr s)" for k
    using that d by (auto simp: idle_threads_def in_use_def dest: eq_key_imp_eq_value)
  have none: "tkn s = []" using inv(4) f(1) by (simp add: taken_fit_def)
  show ?thesis
  proof (rule log_invI)
    show "stages (lgr ?s) (stg ?s)" using m(2) by simp
    show "in_use (lgr ?s) = {k. busy_phase (fph ?s k)}" using m(3) inv(2) by simp
    show "phases_fit ids ?s" by (rule phases_fit_world [OF inv(3)]) (simp_all add: m(1))
    show "taken_fit ?s" using m(4) by (simp add: taken_fit_def list_all2_map1)
    have "recs_of k (flat (tkn ?s)) @ stg ?s k = stg s k" for k
      using recs_of_flat_distinct [OF idle, of k "stg s"] others [of k] disj [of k] by simp
    then show "counts_fit ids ?s" using inv(5) none by (simp add: counts_fit_def)
    show "written_fit lt w0 ?s" using written_world(3) [OF inv(6)]
      by (intro written_same [OF inv(6)]) (simp_all add: m(1))
  qed
qed

text \<open>Writing a buffer that \<open>Update\<close> has taken succeeds and appends its records to the files.\<close>

lemma u_write_at:
  assumes i: "log_inv lt ids w0 s" and f: "uph s = UWrite (b # bufs) todo"
    and n: "unat (seq w0) + length (order s) < 2 ^ 32" and ns: "files_ok ns (lgr s) (wld s)"
  shows "\<exists>k rs rest nm g ms w. tkn s = (k, rs) # rest \<and>
    update_write lt b (lgr s, wld s) = Inr ((lgr s)\<lparr>fileName := nm, logfile := g\<rparr>, w) \<and>
    files_ok (ns @ ms) ((lgr s)\<lparr>fileName := nm, logfile := g\<rparr>) w \<and>
    log_bytes (ns @ ms) ((lgr s)\<lparr>fileName := nm, logfile := g\<rparr>) w =
      log_bytes ns (lgr s) (wld s) @ concat (map snd rs) \<and>
    good_world lt (directory (lgr s)) w \<and> unat (seq w) \<le> unat (seq (wld s)) + length rs"
proof -
  note inv = log_invD [OF i]
  from inv(4) f obtain k rs rest where t: "tkn s = (k, rs) # rest" "holds b rs"
    by (auto simp: taken_fit_def list_all2_Cons2)
  have len: "length (outp s) + length rs \<le> length (order s)" using written_le(1) [OF inv(5)] t(1) by simp
  have "recs_of k (outp s) @ recs_of k (flat (tkn s)) @ stg s k = recs_of k (order s)"
    using inv(5) by (simp add: counts_fit_def)
  then have "recs_of k (outp s) @ (rs @ recs_of k (flat rest)) @ stg s k = recs_of k (order s)"
    unfolding t(1) by simp
  then have "set rs \<subseteq> set (recs_of k (order s))" by (metis Un_upper1 le_supI1 le_supI2 set_append)
  then have lines: "\<forall>r \<in> set rs. line_ok r" using lines_stored_ok [OF inv(5), of k] by blast
  have "length (order s) < 2 ^ 32" using n by linarith
  then have "length (enc_records rs) < 2 ^ 63" using lines_small [OF lines] len by simp
  note w = update_write_records [OF t(2) this]
  have wf: "good_world lt (directory (lgr s)) (wld s)" "unat (seq (wld s)) \<le> unat (seq w0) + length (outp s)"
    "(dest (lgr s) AND logFile) \<noteq> 0" using inv(6) by (simp_all add: written_fit_def)
  have "unat (seq (wld s)) + length rs < 2 ^ 32" using wf(2) len n by linarith
  from write_records_files [OF ns wf(1) this _ wf(3)] lines t(1) show ?thesis
    unfolding w by (simp add: list_all_iff) blast
qed

lemma u_write_inv:
  assumes i: "log_inv lt ids w0 s" and f: "uph s = UWrite (b # bufs) todo" "tkn s = (k, rs) # rest"
      "update_write lt b (lgr s, wld s) = Inr (lg, w)"
    and n: "unat (seq w0) + length (order s) < 2 ^ 32"
  shows "log_inv lt ids w0 (s\<lparr>lgr := lg, wld := w, uph := UWrite bufs todo, tkn := rest,
      outp := outp s @ map (Pair k) rs\<rparr>)" (is "log_inv lt ids w0 ?s")
proof -
  note inv = log_invD [OF i]
  from inv(6) obtain ns where ns: "files_ok ns (lgr s) (wld s)"
    "log_bytes ns (lgr s) (wld s) = concat (map (snd \<circ> snd) (outp s))" by (auto simp: written_fit_def)
  from u_write_at [OF i f(1) n ns(1)] f(2,3) obtain nm g ms where
    u: "lg = (lgr s)\<lparr>fileName := nm, logfile := g\<rparr>" "files_ok (ns @ ms) lg w"
      "log_bytes (ns @ ms) lg w = log_bytes ns (lgr s) (wld s) @ concat (map snd rs)"
      "good_world lt (directory (lgr s)) w" "unat (seq w) \<le> unat (seq (wld s)) + length rs" by auto
  have e: "buffers lg = buffers (lgr s)" "dest lg = dest (lgr s)" "directory lg = directory (lgr s)"
    "shutdown lg = shutdown (lgr s)" by (simp_all add: u(1))
  show ?thesis
  proof (rule log_invI)
    show "stages (lgr ?s) (stg ?s)" "in_use (lgr ?s) = {k. busy_phase (fph ?s k)}"
      using inv(1,2) by (simp_all add: stages_def in_use_def e(1))
    show "phases_fit ids ?s" by (rule phases_fit_world [OF inv(3)]) (simp_all add: e)
    show "taken_fit ?s" using inv(4) f(1,2) by (simp add: taken_fit_def)
    show "counts_fit ids ?s" using inv(5) f(2) by (auto simp: counts_fit_def)
    have "log_bytes (ns @ ms) lg w = concat (map (snd \<circ> snd) (outp ?s))"
      using u(3) ns(2) by (simp add: comp_def)
    moreover have "unat (seq w) \<le> unat (seq w0) + length (outp ?s)"
      using u(5) inv(6) by (simp add: written_fit_def)
    moreover have "(dest (lgr s) AND logFile) \<noteq> 0" using inv(6) by (simp add: written_fit_def)
    ultimately show "written_fit lt w0 ?s"
      using u(2,4) unfolding written_fit_def by (auto simp: e)
  qed
qed

lemma u_sync_inv:
  assumes i: "log_inv lt ids w0 s" and f: "uph s = UWrite [] todo" "update_sync (lgr s, wld s) = (lg, w)"
  shows "log_inv lt ids w0 (s\<lparr>lgr := lg, wld := w, uph := UIdle\<rparr>)" (is "log_inv lt ids w0 ?s")
proof -
  note inv = log_invD [OF i] and k = update_sync_keeps [OF f(2)]
  have e: "buffers lg = buffers (lgr s)" "dest lg = dest (lgr s)" "directory lg = directory (lgr s)"
    "shutdown lg = shutdown (lgr s)" by (subst k(6), simp)+
  show ?thesis
  proof (rule log_invI)
    show "stages (lgr ?s) (stg ?s)" "in_use (lgr ?s) = {k. busy_phase (fph ?s k)}"
      using inv(1,2) by (simp_all add: stages_def in_use_def e(1))
    show "phases_fit ids ?s" by (rule phases_fit_world [OF inv(3)]) (simp_all add: e)
    show "taken_fit ?s" using inv(4) f(1) by (simp add: taken_fit_def)
    show "counts_fit ids ?s" by (rule counts_same [OF inv(5)]) simp_all
    show "written_fit lt w0 ?s" using inv(6) k(1,2,3,5) unfolding written_fit_def by (auto simp: e)
  qed
qed

lemma log_step_order: "log_step lt ids s s' \<Longrightarrow> length (order s) \<le> length (order s')"
  by (induction rule: log_step.induct) simp_all

lemma log_step_inv:
  assumes "log_step lt ids s s'" "log_inv lt ids w0 s" "unat (seq w0) + length (order s) < 2 ^ 32"
  shows "log_inv lt ids w0 s'"
proof -
  have n: "length (order s) < 2 ^ 32" using assms(3) by linarith
  from assms(1) show ?thesis
  proof cases
    case s_format
    then show ?thesis using s_format_inv [OF assms(2)] by simp
  next
    case s_stopped
    then show ?thesis using s_stopped_inv [OF assms(2)] by simp
  next
    case s_enter
    then show ?thesis using s_enter_inv [OF assms(2)] by simp
  next
    case s_store
    then show ?thesis using s_store_inv [OF assms(2) _ _ _ n] by simp
  next
    case s_leave
    then show ?thesis using s_leave_inv [OF assms(2) _ _ n] by simp
  next
    case s_shutdown
    then show ?thesis using s_shutdown_inv [OF assms(2)] by simp
  next
    case u_enter
    then show ?thesis using u_enter_inv [OF assms(2)] by simp
  next
    case u_write
    then show ?thesis using u_write_inv [OF assms(2) _ _ _ assms(3)] by simp
  next
    case u_sync
    then show ?thesis using u_sync_inv [OF assms(2)] by simp
  qed
qed

text \<open>A logger that has been initialised to write to files, before its first statement.\<close>

definition fresh_logger :: "(int \<Rightarrow> tm) \<Rightarrow> (nat \<Rightarrow> byte list) \<Rightarrow> Logger \<Rightarrow> World \<Rightarrow> bool" where
  "fresh_logger lt ids lg w \<longleftrightarrow> buffers lg = [] \<and> logfile lg = OMmapFile_new \<and> (dest lg AND logFile) \<noteq> 0 \<and>
     good_world lt (directory lg) w \<and> (\<forall>k. length (ids k) \<le> 15)"

lemma log_start_inv:
  assumes "fresh_logger lt ids lg w"
  shows "log_inv lt ids w (log_start lg w)"
proof -
  have "buffers lg = []" "logfile lg = OMmapFile_new" "(dest lg AND logFile) \<noteq> 0" "good_world lt (directory lg) w"
    "\<And>k. length (ids k) \<le> 15" using assms by (simp_all add: fresh_logger_def)
  then show ?thesis
    by (intro log_invI)
      (auto simp: log_start_def stages_def in_use_def smap_ok_def phases_fit_def thread_ok_start taken_fit_def
        counts_fit_def written_fit_def log_bytes_def files_ok_Nil intro!: exI [of _ "[]"])
qed

lemma log_reach_inv:
  "log_reach lt ids lg w s \<Longrightarrow> fresh_logger lt ids lg w \<Longrightarrow> unat (seq w) + length (order s) < 2 ^ 32 \<Longrightarrow>
   log_inv lt ids w s"
proof (induction rule: log_reach.induct)
  case start
  then show ?case by (simp add: log_start_inv)
next
  case (step s s')
  then show ?case using log_step_order [OF step(2)] log_step_inv [OF step(2)] by simp
qed

section \<open>Properties\<close>

lemma c_string_ok:
  assumes "None \<notin> set cs" "Some (CHR 0x00) \<in> set cs"
  shows "\<exists>s. c_string cs = Inr s"
proof -
  have "None \<notin> set (takeWhile (\<lambda>c. c \<noteq> Some (CHR 0x00)) cs)" using assms(1) by (auto dest: set_takeWhileD)
  from map_Some_bytes_of [OF this] show ?thesis
    using assms(2) by (metis c_string_def cells_bytes_Some)
qed

text \<open>C3: Under every interleaving of any number of threads that log with a thread that runs Update, the
  log files hold exactly the lines written so far, and the lines of each thread among them are, in the
  order of its statements, an initial part of what the thread has logged: no line is lost, doubled,
  torn or overtaken by a later one of its thread. Every line says what its statement said. Once no
  buffer is left and Update is idle, all lines are in the files.\<close>
theorem log_conc_order:
  assumes "log_reach lt ids lg w s" "fresh_logger lt ids lg w" "unat (seq w) + length (order s) < 2 ^ 32"
  shows "\<exists>ns. log_bytes ns (lgr s) (wld s) = concat (map (snd \<circ> snd) (outp s)) \<and>
    (\<forall>k. prefix (recs_of k (outp s)) (recs_of k (order s)) \<and>
      list_all2 (says ids k) (said s k) (recs_of k (order s)) \<and>
      (uph s = UIdle \<and> buffers (lgr s) = [] \<longrightarrow> recs_of k (outp s) = recs_of k (order s)))"
proof -
  note inv = log_invD [OF log_reach_inv [OF assms]]
  from inv(6) obtain ns where "log_bytes ns (lgr s) (wld s) = concat (map (snd \<circ> snd) (outp s))"
    by (auto simp: written_fit_def)
  moreover have c: "recs_of k (outp s) @ recs_of k (flat (tkn s)) @ stg s k = recs_of k (order s)"
    "list_all2 (says ids k) (said s k) (recs_of k (order s))" for k
    using inv(5) by (simp_all add: counts_fit_def)
  moreover have "prefix (recs_of k (outp s)) (recs_of k (order s))" for k
    unfolding c(1) [symmetric] by simp
  moreover have "recs_of k (outp s) = recs_of k (order s)" if "uph s = UIdle" "buffers (lgr s) = []" for k
  proof -
    have "tkn s = []" using inv(4) that(1) by (simp add: taken_fit_def)
    moreover have "stg s k = []" using stages_None [OF inv(1), of k] that(2) by simp
    ultimately show ?thesis using c(1) [of k] by simp
  qed
  ultimately show ?thesis by blast
qed

text \<open>The steps of a statement whose line is finished, and those of \<open>Update\<close>, succeed; so does the formatting of
  a statement that fits, by a thread with an empty line. LogFaults says what happens to other statements.\<close>
lemma log_steps_succeed:
  assumes "log_reach lt ids lg w s" "fresh_logger lt ids lg w" "unat (seq w) + length (order s) < 2 ^ 32"
  shows "(\<forall>k level args. fph s k = FEnter level args \<longrightarrow>
      (\<exists>e. flush_enter k (lgr s) = Inr e) \<and> (\<exists>text. c_string (tmpBuffer (tls s k)) = Inr text)) \<and>
    (\<forall>k level args. fph s k = FStore level args \<longrightarrow> (\<exists>lg. flush_store k level (tls s k) (lgr s) = Inr lg)) \<and>
    (\<forall>k. fph s k = FLeave \<longrightarrow> (\<exists>x. flush_leave k (lgr s) = Inr x)) \<and>
    (\<forall>b bufs todo. uph s = UWrite (b # bufs) todo \<longrightarrow> (\<exists>x. update_write lt b (lgr s, wld s) = Inr x)) \<and>
    (\<forall>k level args. fph s k = FIdle \<and> \<not> shutdown (lgr s) \<and> stmt_ok (llevel (lgr s)) level args \<longrightarrow>
      (\<exists>t v. log_format lt (ids k) level args (tls s k) (lgr s) (wld s) = Inr (True, t, v)))"
proof (intro conjI allI impI)
  note i = log_reach_inv [OF assms]
  note inv = log_invD [OF i]
  have n: "length (order s) < 2 ^ 32" using assms(3) by linarith
  fix k level args
  {
    assume f: "fph s k = FEnter level args"
    have "k \<notin> in_use (lgr s)" unfolding inv(2) using f by simp
    then show "\<exists>e. flush_enter k (lgr s) = Inr e"
      using flush_enter_ok [OF inv(1)] flush_enter_stopped by (cases "shutdown (lgr s)") blast+
    have "holds_line ids k (tls s k) level args" using phase_at [OF inv(3), of k] f by simp
    then show "\<exists>text. c_string (tmpBuffer (tls s k)) = Inr text"
      by (intro c_string_ok) (simp_all add: holds_line_def thread_ok_def full_def log_Reset_def)
  }
  show "\<exists>lg. flush_store k level (tls s k) (lgr s) = Inr lg" if "fph s k = FStore level args"
    using flush_store_at [OF i that n] by blast
  show "\<exists>x. flush_leave k (lgr s) = Inr x" if f: "fph s k = FLeave"
  proof -
    have "k \<in> in_use (lgr s)" unfolding inv(2) using f by simp
    moreover have "length (enc_records (stg s k)) < 2 ^ 63" using staged_small [OF inv(5) n, of k] by simp
    ultimately show ?thesis using flush_leave_ok [OF inv(1)] by blast
  qed
  show "\<exists>x. update_write lt b (lgr s, wld s) = Inr x" if "uph s = UWrite (b # bufs) todo" for b bufs todo
  proof -
    from inv(6) obtain ns where "files_ok ns (lgr s) (wld s)" by (auto simp: written_fit_def)
    from u_write_at [OF i that assms(3) this] show ?thesis by blast
  qed
  assume f: "fph s k = FIdle \<and> \<not> shutdown (lgr s) \<and> stmt_ok (llevel (lgr s)) level args"
  then have "thread_ok (ids k) (tls s k)" using phase_at [OF inv(3), of k] by simp
  from log_format_ok [where ids = ids and k = k, OF this _ written_world(1,2) [OF inv(6)]] f
  show "\<exists>t v. log_format lt (ids k) level args (tls s k) (lgr s) (wld s) = Inr (True, t, v)" by blast
qed

text \<open>A run: thread 7 has formatted a line, entered, stored it and left.\<close>

lemma demo_fresh: "fresh_logger (\<lambda>_. demo_tm) (\<lambda>_. ''140'') demo_logger demo_world"
  using demo_world_good by (simp add: fresh_logger_def demo_logger_def logFile_def)

lemma demo_log_reach:
  "\<exists>s. log_reach (\<lambda>_. demo_tm) (\<lambda>_. ''140'') demo_logger demo_world s \<and> length (order s) = 1 \<and>
     said s 7 = [(1, [ACstr ''n='', AInt 5])] \<and> fph s 7 = FLeave"
proof -
  let ?lt = "\<lambda>_. demo_tm :: tm" and ?ids = "\<lambda>_. ''140''" and ?args = "[ACstr ''n='', AInt 5]"
  let ?R = "log_reach ?lt ?ids demo_logger demo_world" and ?s0 = "log_start demo_logger demo_world"
  have f0: "fph ?s0 7 = FIdle" "tls ?s0 7 = Tls_start" "lgr ?s0 = demo_logger" "wld ?s0 = demo_world"
    "order ?s0 = []" "said ?s0 7 = []" by (simp_all add: log_start_def)
  have t: "thread_ok (?ids 7) Tls_start" "stmt_ok (llevel demo_logger) 1 ?args"
    using thread_ok_start demo_stmt_ok by (simp_all add: demo_logger_def)
  from log_format_ok [where ids = ?ids and k = 7, OF t demo_clock] obtain t1 st where
    f: "log_format ?lt ''140'' 1 ?args Tls_start demo_logger demo_world =
      Inr (True, t1, demo_world\<lparr>ticks := Suc (ticks demo_world), statics := st\<rparr>)" by blast
  let ?s1 = "?s0\<lparr>wld := demo_world\<lparr>ticks := Suc (ticks demo_world), statics := st\<rparr>,
    tls := (tls ?s0)(7 := t1), fph := (fph ?s0)(7 := FEnter 1 ?args)\<rparr>"
  have r1: "?R ?s1"
    by (rule log_reach.step [OF log_reach.start s_format]) (use f0 t f in simp_all)
  have small: "unat (seq demo_world) + 1 < 2 ^ 32" by (simp add: demo_world_def)
  then have i1: "log_inv ?lt ?ids demo_world ?s1"
    using log_reach_inv [OF r1 demo_fresh] f0(5) by simp
  have up: "\<not> shutdown (lgr ?s1)" "7 \<notin> in_use (lgr ?s1)"
    by (simp_all add: log_start_def demo_logger_def in_use_def)
  from flush_enter_ok [OF log_invD(1) [OF i1] up] obtain m where
    "flush_enter 7 (lgr ?s1) = Inr (Entered ((lgr ?s1)\<lparr>buffers := m\<rparr>))" by blast
  note enter = this
  let ?s2 = "?s1\<lparr>lgr := (lgr ?s1)\<lparr>buffers := m\<rparr>, fph := (fph ?s1)(7 := FStore 1 ?args)\<rparr>"
  have r2: "?R ?s2" by (rule log_reach.step [OF r1 s_enter [OF _ enter]]) simp
  then have i2: "log_inv ?lt ?ids demo_world ?s2"
    using log_reach_inv [OF r2 demo_fresh] small f0(5) by simp
  have "fph ?s2 7 = FStore 1 ?args" "length (order ?s2) < 2 ^ 32" using f0(5) by simp_all
  from flush_store_at [OF i2 this] obtain m' where
    "flush_store 7 1 (tls ?s2 7) (lgr ?s2) = Inr ((lgr ?s2)\<lparr>buffers := m'\<rparr>)" by blast
  from log_reach.step [OF r2 s_store [OF _ this refl]] show ?thesis
    using f0(5,6) by (intro exI conjI) auto
qed

lemma log_conc_order_witness:
  "\<exists>s r. log_reach (\<lambda>_. demo_tm) (\<lambda>_. ''140'') demo_logger demo_world s \<and> recs_of 7 (order s) = [r] \<and>
     says (\<lambda>_. ''140'') 7 (1, [ACstr ''n='', AInt 5]) r"
proof -
  obtain s where s: "log_reach (\<lambda>_. demo_tm) (\<lambda>_. ''140'') demo_logger demo_world s" "length (order s) = 1"
    "said s 7 = [(1, [ACstr ''n='', AInt 5])]" using demo_log_reach by blast
  have "unat (seq demo_world) + length (order s) < 2 ^ 32" using s(2) by (simp add: demo_world_def)
  from log_conc_order [OF s(1) demo_fresh this]
  have "list_all2 (says (\<lambda>_. ''140'') 7) (said s 7) (recs_of 7 (order s))" by blast
  then show ?thesis using s(1) unfolding s(3) by (auto simp: list_all2_Cons1)
qed

end
