(* ===== verification/LogSession.thy ===== *)
theory LogSession
  imports LogFlush
begin

text \<open>
  The logger from end to end, one call at a time: statements of any threads, an \<open>Update\<close>, and
  the destructor. What the files hold afterwards is stated in terms of the operands of the
  statements. The interleaving of the critical sections is the subject of another theory.
\<close>

section \<open>A session\<close>

type_synonym stmt = "nat \<times> uint \<times> log_arg list"

primrec log_run ::
  "(int \<Rightarrow> tm) \<Rightarrow> (nat \<Rightarrow> byte list) \<Rightarrow> stmt list \<Rightarrow> (nat \<Rightarrow> Tls) \<Rightarrow> Logger \<Rightarrow> World \<Rightarrow>
   ((nat \<Rightarrow> Tls) \<times> Logger \<times> World) res" where
  "log_run lt ids [] T lg w = Inr (T, lg, w)"
| "log_run lt ids (x # xs) T lg w =
     (let (me, level, args) = x in
      res_bind (LOG lt me (ids me) level args (T me) (Some lg) w) (\<lambda>(t, y, w, _).
        case y of None \<Rightarrow> Inl NullDeref | Some lg \<Rightarrow> log_run lt ids xs (T(me := t)) lg w))"

text \<open>The destructor \<open>~Logger\<close> closes the file.\<close>

definition Logger_destroy :: "Logger \<Rightarrow> World \<Rightarrow> Logger \<times> World" where
  "Logger_destroy lg w = CloseLogFile lg w"

definition line_of :: "(nat \<Rightarrow> byte list) \<Rightarrow> stmt \<Rightarrow> byte list \<Rightarrow> bool" where
  "line_of ids x line \<longleftrightarrow> (\<exists>stamp. length stamp = 27 \<and>
     line = stamp @ level_tag (fst (snd x)) @ args_text (snd (snd x)) @ ''|'' @ ids (fst x) @ [CHR 0x0A])"

definition thread_recs :: "nat \<Rightarrow> stmt list \<Rightarrow> byte list list \<Rightarrow> rec list" where
  "thread_recs k xs lines =
     map (\<lambda>(x, l). (fst (snd x), l)) (filter (\<lambda>(x, _). fst x = k) (zip xs lines))"

lemma thread_recs_Nil [simp]: "thread_recs k [] [] = []"
  by (simp add: thread_recs_def)

lemma thread_recs_Cons [simp]:
  "thread_recs k (x # xs) (l # ls) = (if fst x = k then [(fst (snd x), l)] else []) @ thread_recs k xs ls"
  by (simp add: thread_recs_def)

lemma length_enc_snoc: "length (enc_records (rs @ [r])) = length (enc_records rs) + 12 + length (snd r)"
  by (simp add: enc_records_def)

lemma good_world_tick:
  "good_world lt d w \<Longrightarrow> statics_ok st \<Longrightarrow> good_world lt d (w\<lparr>ticks := Suc (ticks w), statics := st\<rparr>)"
  by (simp add: good_world_def)

lemma log_run_stages:
  assumes "\<forall>k. thread_ok (ids k) (T k)" "list_all (\<lambda>(_, level, args). stmt_ok (llevel lg) level args) xs"
    and "stages lg R" "in_use lg = {}" "\<not> shutdown lg" "good_world lt d w"
    and "\<forall>k. length (enc_records (R k)) + 2060 * length xs < 2 ^ 62"
  shows "\<exists>T' m w' lines. log_run lt ids xs T lg w = Inr (T', lg\<lparr>buffers := m\<rparr>, w') \<and>
    list_all2 (line_of ids) xs lines \<and> list_all (\<lambda>l. line_ok (0, l)) lines \<and>
    stages (lg\<lparr>buffers := m\<rparr>) (\<lambda>k. R k @ thread_recs k xs lines) \<and> in_use (lg\<lparr>buffers := m\<rparr>) = {} \<and>
    good_world lt d w' \<and> kern w' = kern w \<and> seq w' = seq w"
  using assms
proof (induction xs arbitrary: T lg R w)
  case Nil
  then show ?case
    by (intro exI [of _ T] exI [of _ "buffers lg"] exI [of _ w] exI [of _ "[]"]) simp
next
  case (Cons x xs)
  obtain me level args where x: "x = (me, level, args)" by (metis prod_cases3)
  have c: "statics_ok (statics w)" "good_time lt (clock w (ticks w))"
    using Cons.prems(6) by (simp_all add: good_world_def good_time_def)
  have "thread_ok (ids me) (T me)" "stmt_ok (llevel lg) level args" "me \<notin> in_use lg"
    using Cons.prems x by simp_all
  moreover have "length (enc_records (R me)) < 2 ^ 62"
    using Cons.prems(7) by (meson add_lessD1)
  ultimately obtain t m st stamp line busy where
    s: "LOG lt me (ids me) level args (T me) (Some lg) w =
        Inr (t, Some (lg\<lparr>buffers := m\<rparr>), w\<lparr>ticks := Suc (ticks w), statics := st\<rparr>, busy)"
      "length stamp = 27" "line = stamp @ level_tag level @ args_text args @ ''|'' @ ids me @ [CHR 0x0A]"
      "line_ok (level, line)" "stages (lg\<lparr>buffers := m\<rparr>) (R(me := R me @ [(level, line)]))"
      "in_use (lg\<lparr>buffers := m\<rparr>) = in_use lg" "thread_ok (ids me) t" "statics_ok st"
    using LOG_stages [of "ids me" "T me" lg level args R me w lt] Cons.prems(3,5) c by blast
  let ?lg = "lg\<lparr>buffers := m\<rparr>" and ?R = "R(me := R me @ [(level, line)])"
  let ?w = "w\<lparr>ticks := Suc (ticks w), statics := st\<rparr>"
  have T: "\<forall>k. thread_ok (ids k) ((T(me := t)) k)" using Cons.prems(1) s(7) by simp
  have lv: "list_all (\<lambda>(_, level, args). stmt_ok (llevel ?lg) level args) xs"
    using Cons.prems(2) by simp
  have use: "in_use ?lg = {}" "\<not> shutdown ?lg" using s(6) Cons.prems(4,5) by simp_all
  have gw: "good_world lt d ?w" using Cons.prems(6) s(8) by (rule good_world_tick)
  have "length (enc_records (?R k)) + 2060 * length xs < 2 ^ 62" for k
    using Cons.prems(7) [THEN spec, of k] s(4) by (auto simp: length_enc_snoc line_ok_def)
  then have small: "\<forall>k. length (enc_records (?R k)) + 2060 * length xs < 2 ^ 62" by blast
  from Cons.IH [OF T lv s(5) use gw small] obtain T' m' w' lines where
    r: "log_run lt ids xs (T(me := t)) ?lg ?w = Inr (T', ?lg\<lparr>buffers := m'\<rparr>, w')"
      "list_all2 (line_of ids) xs lines" "list_all (\<lambda>l. line_ok (0, l)) lines"
      "stages (?lg\<lparr>buffers := m'\<rparr>) (\<lambda>k. ?R k @ thread_recs k xs lines)"
      "in_use (?lg\<lparr>buffers := m'\<rparr>) = {}" "good_world lt d w'" "kern w' = kern ?w" "seq w' = seq ?w"
    by blast
  have "(\<lambda>k. ?R k @ thread_recs k xs lines) = (\<lambda>k. R k @ thread_recs k (x # xs) (line # lines))"
    by (auto simp: x)
  moreover have "line_of ids x line" using s(2,3) x by (auto simp: line_of_def)
  moreover have "line_ok (0, line)" using s(4) by (simp add: line_ok_def)
  ultimately show ?case using s(1) r x
    by (intro exI [of _ T'] exI [of _ m'] exI [of _ w'] exI [of _ "line # lines"]) simp
qed

section \<open>From the map to the records written\<close>

lemma pending_of_stages:
  assumes "stages lg R" "\<forall>k. length (enc_records (R k)) < 2 ^ 63"
  shows "pending (buffers lg) (map (R \<circ> fst) (buffers lg))"
proof -
  have "distinct (map fst (buffers lg))" using assms by (intro smap_ok_distinct) (simp add: stages_def)
  then have "holds (blog (snd x)) (R (fst x))" if "x \<in> set (buffers lg)" for x
    using that stages_Some [OF assms(1), of "fst x" "snd x"] by (cases x) simp
  then show ?thesis using assms(2) by (auto simp: pending_def list_all2_map2 list_all2_same)
qed

lemma idle_records_of_stages:
  "idle_records m (map (R \<circ> fst) m) = concat (map R (map fst (filter (\<lambda>x. \<not> inuse (snd x)) m)))"
  by (induction m) (auto simp: idle_records_def)

lemma idle_threads_all: "in_use lg = {} \<Longrightarrow> smap_ok (buffers lg) \<Longrightarrow> idle_threads lg = map fst (buffers lg)"
proof -
  assume none: "in_use lg = {}" and ok: "smap_ok (buffers lg)"
  have "\<not> inuse i" if "(k, i) \<in> set (buffers lg)" for k i
    using none that smap_ok_distinct [OF ok] by (auto simp: in_use_def)
  then show ?thesis by (auto simp: idle_threads_def intro!: filter_True arg_cong [of _ _ "map fst"])
qed

lemma length_concat_recs:
  assumes "distinct ks" "list_all2 P xs lines"
  shows "length (concat (map (\<lambda>k. thread_recs k xs lines) ks)) \<le> length xs"
proof -
  have "length xs = length lines" using assms(2) by (rule list_all2_lengthD)
  then show ?thesis using assms(1)
  proof (induction xs lines rule: list_induct2)
    case Nil
    then show ?case by (induction ks) auto
  next
    case (Cons x xs l ls)
    have "sum_list (map (\<lambda>k. length (thread_recs k (x # xs) (l # ls))) ks) =
        sum_list (map (\<lambda>k. if fst x = k then 1 else 0) ks) +
        sum_list (map (\<lambda>k. length (thread_recs k xs ls)) ks)"
      by (induction ks) auto
    moreover have "sum_list (map (\<lambda>k. if fst x = k then 1 else 0) ks) \<le> (1::nat)"
      using Cons.prems by (induction ks) (auto simp: sum_list_0 intro!: le_refl)
    ultimately show ?case using Cons by (simp add: length_concat comp_def)
  qed
qed

lemma thread_recs_lines:
  assumes "list_all2 P xs lines" "list_all (\<lambda>l. line_ok (0, l)) lines"
  shows "list_all line_ok (thread_recs k xs lines)"
  using assms by (induction rule: list_all2_induct) (auto simp: line_ok_def)

lemma thread_recs_nonempty:
  assumes "list_all2 P xs lines" "k \<in> fst ` set xs"
  shows "thread_recs k xs lines \<noteq> []"
  using assms by (induction rule: list_all2_induct) auto

lemma list_all_concat: "list_all P (concat xss) \<longleftrightarrow> (\<forall>xs \<in> set xss. list_all P xs)"
  by (auto simp: list_all_iff)

lemma thread_recs_size:
  assumes "list_all2 P xs lines" "list_all (\<lambda>l. line_ok (0, l)) lines"
  shows "length (enc_records (thread_recs k xs lines)) \<le> 2060 * length xs"
  using assms by (induction rule: list_all2_induct) (auto simp: enc_records_def line_ok_def)

section \<open>Properties\<close>

text \<open>C1: Any sequence of log statements of any threads that fit their lines, an \<open>Update\<close> and the
  destructor leave exactly the lines of the statements in the log files: thread by thread in
  the order of the ids, each thread's in the order of its statements, each with its time stamp,
  level tag, operands and thread id, across however many rotations; no file exceeds 32 MB.\<close>

theorem log_session_files:
  assumes ids: "\<forall>k. length (ids k) \<le> 15"
    and lg: "buffers lg = []" "\<not> shutdown lg" "logfile lg = OMmapFile_new" "(dest lg AND logFile) \<noteq> 0"
    and xs: "list_all (\<lambda>(_, level, args). stmt_ok (llevel lg) level args) xs"
    and w: "good_world lt (directory lg) w" "unat (seq w) + length xs < 2 ^ 32"
  shows "\<exists>T lg1 w1 lg2 w2 lines ks ns s.
    log_run lt ids xs (\<lambda>_. Tls_start) lg w = Inr (T, lg1, w1) \<and>
    Logger_Update lt lg1 w1 = Inr (lg2, w2, False) \<and> kern (snd (Logger_destroy lg2 w2)) = s \<and>
    list_all2 (line_of ids) xs lines \<and> sorted_wrt (<) ks \<and> fst ` set xs \<subseteq> set ks \<and>
    closed_bytes ns s = concat (map (\<lambda>k. concat (map snd (thread_recs k xs lines))) ks) \<and>
    (\<forall>n \<in> set ns. \<exists>c. disk s n = Some c \<and> length c \<le> 2 ^ 25)"
proof -
  have start: "\<forall>k. thread_ok (ids k) ((\<lambda>_. Tls_start) k)" using ids thread_ok_start by simp
  have st0: "stages lg (\<lambda>_. [])" "in_use lg = {}"
    using lg(1) by (simp_all add: stages_def in_use_def smap_ok_def)
  have n: "length xs < 2 ^ 32" using w(2) by linarith
  then have "\<forall>k. length (enc_records ((\<lambda>_. []) k)) + 2060 * length xs < 2 ^ 62"
    by (simp add: enc_records_def)
  from log_run_stages [OF start xs st0 lg(2) w(1) this] obtain T m w1 lines where
    r: "log_run lt ids xs (\<lambda>_. Tls_start) lg w = Inr (T, lg\<lparr>buffers := m\<rparr>, w1)"
      "list_all2 (line_of ids) xs lines" "list_all (\<lambda>l. line_ok (0, l)) lines"
      "stages (lg\<lparr>buffers := m\<rparr>) (\<lambda>k. thread_recs k xs lines)" "in_use (lg\<lparr>buffers := m\<rparr>) = {}"
      "good_world lt (directory lg) w1" "kern w1 = kern w" "seq w1 = seq w" by auto
  let ?lg = "lg\<lparr>buffers := m\<rparr>" and ?R = "\<lambda>k. thread_recs k xs lines" and ?ks = "map fst m"
  have ok: "smap_ok m" using r(4) by (simp add: stages_def)
  have "length (enc_records (?R k)) < 2 ^ 63" for k
    using thread_recs_size [OF r(2,3), of k] n by simp
  then have pend: "pending (buffers ?lg) (map (?R \<circ> fst) (buffers ?lg))"
    by (intro pending_of_stages r(4)) simp
  have "idle_threads ?lg = ?ks" using idle_threads_all [OF r(5)] ok by simp
  then have recs: "idle_records (buffers ?lg) (map (?R \<circ> fst) (buffers ?lg)) = concat (map ?R ?ks)"
    unfolding idle_records_of_stages by (simp add: idle_threads_def)
  have d: "distinct ?ks" using smap_ok_distinct [OF ok] .
  have lines: "list_all line_ok (concat (map ?R ?ks))"
    unfolding list_all_concat using thread_recs_lines [OF r(2,3)] by simp
  have room: "unat (seq w1) + length (concat (map ?R ?ks)) < 2 ^ 32"
    using length_concat_recs [OF d r(2)] w(2) unfolding r(8) by linarith
  have fo: "files_ok [] ?lg w1" using lg(3) by (simp add: files_ok_Nil)
  have gw: "good_world lt (directory ?lg) w1" "(dest ?lg AND logFile) \<noteq> 0" using r(6) lg(4) by simp_all
  have none: "\<not> (\<exists>x \<in> set (buffers ?lg). inuse (snd x))"
    using r(5) d by (auto simp: in_use_def)
  from Logger_Update_files [OF fo gw(1) pend gw(2)] lines room none obtain lg2 w2 ns where
    u: "Logger_Update lt ?lg w1 = Inr (lg2, w2, False)" "files_ok ns lg2 w2"
      "log_bytes ns lg2 w2 = concat (map snd (concat (map ?R ?ks)))"
    unfolding recs by (auto simp: log_bytes_def)
  from CloseLogFile_keeps [OF u(2)] obtain s where
    s: "CloseLogFile lg2 w2 = (lg2\<lparr>logfile := OMmapFile_new\<rparr>, w2\<lparr>kern := s\<rparr>)"
      "closed_bytes ns s = log_bytes ns lg2 w2"
      "\<forall>n \<in> set ns. \<exists>c. disk s n = Some c \<and> length c \<le> 2 ^ 25" by blast
  have "k \<in> set ?ks" if "k \<in> fst ` set xs" for k
  proof (rule ccontr)
    assume "k \<notin> set ?ks"
    then have "map_of (buffers ?lg) k = None" by (simp add: map_of_eq_None_iff)
    from stages_None [OF r(4) this] thread_recs_nonempty [OF r(2) that] show False by simp
  qed
  moreover have "concat (map snd (concat (map ?R ?ks))) =
      concat (map (\<lambda>k. concat (map snd (?R k))) ?ks)" by (induction m) auto
  moreover have "kern (snd (Logger_destroy lg2 w2)) = s" using s(1) by (simp add: Logger_destroy_def)
  moreover have "sorted_wrt (<) ?ks" using ok by (simp add: smap_ok_def)
  ultimately show ?thesis using r(1,2) u(1,3) s(2,3)
    by (intro exI [of _ T] exI [of _ ?lg] exI [of _ w1] exI [of _ lg2] exI [of _ w2] exI [of _ lines]
        exI [of _ ?ks] exI [of _ ns] exI [of _ s]) (simp add: subset_iff)
qed

theorem log_session_files_witness:
  "\<exists>T lg1 w1 lg2 w2 lines ks ns s.
    log_run (\<lambda>_. demo_tm) (\<lambda>_. ''140'') [(7, 1, [ACstr ''n='', AInt 5])] (\<lambda>_. Tls_start) demo_logger demo_world =
      Inr (T, lg1, w1) \<and>
    Logger_Update (\<lambda>_. demo_tm) lg1 w1 = Inr (lg2, w2, False) \<and> kern (snd (Logger_destroy lg2 w2)) = s \<and>
    list_all2 (line_of (\<lambda>_. ''140'')) [(7, 1, [ACstr ''n='', AInt 5])] lines \<and>
    closed_bytes ns s =
      concat (map (\<lambda>k. concat (map snd (thread_recs k [(7, 1, [ACstr ''n='', AInt 5])] lines))) ks)"
proof -
  let ?xs = "[(7, 1, [ACstr ''n='', AInt 5])]"
  have "list_all (\<lambda>(_, level, args). stmt_ok (llevel demo_logger) level args) ?xs"
    using demo_stmt_ok by (simp add: demo_logger_def)
  moreover have "buffers demo_logger = []" "\<not> shutdown demo_logger" "logfile demo_logger = OMmapFile_new"
    "(dest demo_logger AND logFile) \<noteq> 0" by (simp_all add: demo_logger_def logFile_def)
  moreover have "unat (seq demo_world) + length ?xs < 2 ^ 32" by (simp add: demo_world_def)
  ultimately show ?thesis
    using log_session_files [of "\<lambda>_. ''140''" demo_logger ?xs "\<lambda>_. demo_tm" demo_world] demo_world_good
    by fastforce
qed

end
