(* ===== verification/LogStopped.thy ===== *)
theory LogStopped
  imports LogSession
begin

text \<open>
  Logging to a logger that was shut down. \<open>Flush\<close> then prints the finished line and returns
  without \<open>_Reset\<close>: the line stays in the thread's line buffer, which all loggers of the thread
  share. What that does to the next statement of the thread: it carries the text along, also into
  another logger's file, and statement after statement the position moves towards the end of the
  buffer, until \<open>Flush\<close> writes behind it.
\<close>

section \<open>The constructor\<close>

text \<open>\<open>Logger::Logger\<close> also resets the line of the thread that creates the logger.\<close>

definition Logger_ctor :: "Tls \<Rightarrow> Logger \<times> Tls" where
  "Logger_ctor t = (Logger_new, log_Reset t)"

lemma thread_ok_ctor:
  assumes "full t" "length str \<le> 15" "tid_text str t = map Some (''|'' @ str)"
  shows "thread_ok str (snd (Logger_ctor t))"
proof -
  have "tls_inv t" using assms(1) by (simp add: full_def)
  then have "tls_inv (log_Reset t)" "body (log_Reset t) = []" using tls_inv_Reset by blast+
  then show ?thesis using assms
    by (simp add: Logger_ctor_def thread_ok_def full_def tid_text_def log_Reset_def split: if_splits)
qed

section \<open>One statement\<close>

text \<open>The line after a statement to a stopped logger: what was there, the operands, the thread id
  and a line end.\<close>

lemma LOG_stopped:
  assumes t: "carries str p t" and ok: "list_all arg_ok args" "\<not> IsLevelForbid (llevel lg) level" "level \<noteq> 0"
    and room: "p @ args_text args \<noteq> []" "length (p @ args_text args) \<le> 1990"
    and down: "shutdown lg" and w: "statics_ok (statics w)" "good_time lt (clock w (ticks w))"
  shows "\<exists>t' st' out. LOG lt me str level args t (Some lg) w =
      Inr (t', Some lg, w\<lparr>ticks := Suc (ticks w), statics := st', cout := cout w @ out\<rparr>, False) \<and>
    carries str (p @ args_text args @ ''|'' @ str @ [CHR 0x0A]) t' \<and> statics_ok st'"
proof -
  from operands_streamed [OF t ok room] obtain t1 where
    t1: "res_fold (stream_arg (llevel lg)) args (SetCurLevel level t) = Inr t1"
      "carries str (p @ args_text args) t1" "line_fits str t1" "ready (llevel lg) level t1" by blast
  have c: "full t1" "body t1 = map Some (p @ args_text args)" "tid_text str t1 = map Some (''|'' @ str)"
    "length str \<le> 15" using t1(2) by (simp_all add: carries_def)
  from Logger_Flush_stopped [OF c(1) t1(3,4) down w, of me] obtain t' st' out where
    f: "Logger_Flush lt me str level t1 lg w =
        Inr (t', lg, w\<lparr>ticks := Suc (ticks w), statics := st', cout := cout w @ out\<rparr>, False)"
      "body t' = body t1 @ tid_text str t1 @ [Some (CHR 0x0A)]" "full t'" "statics_ok st'"
      "tid_text str t' = tid_text str t1" by blast
  have "carries str (p @ args_text args @ ''|'' @ str @ [CHR 0x0A]) t'"
    using f(2,3,5) c by (simp add: carries_def)
  then show ?thesis using f(1,4) t1(1) ok(2) by (auto simp: LOG_def LogHelper_assign_def)
qed

text \<open>A running logger stages whatever the line holds, in front of the statement's own text.\<close>

lemma LOG_carried:
  assumes t: "carries str p t" and ok: "list_all arg_ok args" "\<not> IsLevelForbid (llevel lg) level" "level \<noteq> 0"
    and room: "p @ args_text args \<noteq> []" "length (p @ args_text args) \<le> 1990"
    and small: "length (enc_records (R me)) < 2 ^ 62" and st: "stages lg R" and up: "\<not> shutdown lg"
    and me: "me \<notin> in_use lg" and w: "statics_ok (statics w)" "good_time lt (clock w (ticks w))"
  shows "\<exists>t' m w' busy stamp. LOG lt me str level args t (Some lg) w = Inr (t', Some (lg\<lparr>buffers := m\<rparr>), w', busy) \<and>
    length stamp = 27 \<and> thread_ok str t' \<and>
    stages (lg\<lparr>buffers := m\<rparr>)
      (R(me := R me @ [(level, stamp @ level_tag level @ p @ args_text args @ ''|'' @ str @ [CHR 0x0A])]))"
proof -
  from operands_streamed [OF t ok room] obtain t1 where
    t1: "res_fold (stream_arg (llevel lg)) args (SetCurLevel level t) = Inr t1"
      "carries str (p @ args_text args) t1" "line_fits str t1" "ready (llevel lg) level t1" by blast
  have c: "full t1" "body t1 = map Some (p @ args_text args)" "tid_text str t1 = map Some (''|'' @ str)"
    "length str \<le> 15" using t1(2) by (simp_all add: carries_def)
  have can: "can_stage str t1 (R me)" using c t1(3) small by (simp add: can_stage_def)
  from Logger_Flush_stages [OF can t1(4) st up me w] obtain t' m st' stamp where
    f: "Logger_Flush lt me str level t1 lg w =
      Inr (t', lg\<lparr>buffers := m\<rparr>, w\<lparr>ticks := Suc (ticks w), statics := st'\<rparr>,
           2097152 < length (enc_records (R me @ [(level, line_text stamp level str t1)])))"
      "stages (lg\<lparr>buffers := m\<rparr>) (R(me := R me @ [(level, line_text stamp level str t1)]))"
      "full t'" "body t' = []" "length stamp = 27" "tid_text str t' = tid_text str t1" by blast
  have "line_text stamp level str t1 = stamp @ level_tag level @ p @ args_text args @ ''|'' @ str @ [CHR 0x0A]"
    unfolding line_text_def c(3) bytes_of_Some c(2) by simp
  moreover have "thread_ok str t'" using f(3,4,6) c by (simp add: thread_ok_def)
  moreover have "\<exists>w' busy. LOG lt me str level args t (Some lg) w = Inr (t', Some (lg\<lparr>buffers := m\<rparr>), w', busy)"
    using f(1) t1(1) ok(2) by (simp add: LOG_def LogHelper_assign_def)
  ultimately show ?thesis using f(2,5) by metis
qed

text \<open>After a statement to a stopped logger, the thread's next statement to another logger puts
  both texts into that logger's record: the first logger's message reaches the second one's file.\<close>

theorem stopped_line_leaks:
  assumes t: "thread_ok str t"
    and a: "stmt_ok (llevel la) l1 a1" "shutdown la" and b: "stmt_ok (llevel lb) l2 a2" "\<not> shutdown lb"
    and room: "length (args_text a1) + length (args_text a2) \<le> 1970"
    and st: "stages lb R" "me \<notin> in_use lb" "length (enc_records (R me)) < 2 ^ 62"
    and w: "statics_ok (statics w)" "good_time lt (clock w (ticks w))" "good_time lt (clock w (Suc (ticks w)))"
  shows "\<exists>t1 w1 t2 m w2 busy stamp.
    LOG lt me str l1 a1 t (Some la) w = Inr (t1, Some la, w1, False) \<and>
    LOG lt me str l2 a2 t1 (Some lb) w1 = Inr (t2, Some (lb\<lparr>buffers := m\<rparr>), w2, busy) \<and>
    length stamp = 27 \<and>
    stages (lb\<lparr>buffers := m\<rparr>) (R(me := R me @
      [(l2, stamp @ level_tag l2 @ args_text a1 @ ''|'' @ str @ [CHR 0x0A] @
            args_text a2 @ ''|'' @ str @ [CHR 0x0A])]))"
proof -
  let ?p = "args_text a1 @ ''|'' @ str @ [CHR 0x0A]"
  have ok: "list_all arg_ok a1" "args_text a1 \<noteq> []" "\<not> IsLevelForbid (llevel la) l1" "l1 \<noteq> 0"
    "list_all arg_ok a2" "\<not> IsLevelForbid (llevel lb) l2" "l2 \<noteq> 0"
    using a b by (simp_all add: stmt_ok_def)
  have str: "length str \<le> 15" using t by (simp add: thread_ok_def)
  from LOG_stopped [OF t [unfolded thread_ok_carries] ok(1,3,4) _ _ a(2) w(1,2), of me] ok(2) room
  obtain t1 st' out where
    t1: "LOG lt me str l1 a1 t (Some la) w =
        Inr (t1, Some la, w\<lparr>ticks := Suc (ticks w), statics := st', cout := cout w @ out\<rparr>, False)"
      "carries str ?p t1" "statics_ok st'" by auto
  let ?w1 = "w\<lparr>ticks := Suc (ticks w), statics := st', cout := cout w @ out\<rparr>"
  have w1: "statics_ok (statics ?w1)" "good_time lt (clock ?w1 (ticks ?w1))" using t1(3) w(3) by simp_all
  have r: "?p @ args_text a2 \<noteq> []" "length (?p @ args_text a2) \<le> 1990" using room str by simp_all
  from LOG_carried [OF t1(2) ok(5-7) r st(3,1) b(2) st(2) w1] obtain t2 m w2 busy stamp where
    "LOG lt me str l2 a2 t1 (Some lb) ?w1 = Inr (t2, Some (lb\<lparr>buffers := m\<rparr>), w2, busy)" "length stamp = 27"
    "stages (lb\<lparr>buffers := m\<rparr>) (R(me := R me @ [(l2, stamp @ level_tag l2 @ ?p @ args_text a2 @ ''|'' @ str @ [CHR 0x0A])]))"
    by blast
  with t1(1) show ?thesis by (simp only: append_assoc) blast
qed

section \<open>Many statements\<close>

text \<open>The overloads never move the position back, and keep the level.\<close>

lemma stream_fmt_forward:
  assumes "tls_inv t" "s \<noteq> []" "length s \<le> unat room + 1" "unat room < 2048"
  shows "\<exists>t'. stream_fmt lv room s t = Inr t' \<and> tls_inv t' \<and> length (body t) \<le> length (body t')"
proof -
  from stream_fmt_safe [OF assms, of lv] obtain t' where
    "stream_fmt lv room s t = Inr t'" "tls_inv t'"
    "if IsLevelForbid lv (curLevel t) \<or> 2048 \<le> unat (pos t) + unat room then t' = t
     else if unat (pos t) + length s < 2048 then body t' = body t @ map Some s
     else unat (pos t') = 2048 \<and> body t' = body t @ map Some (butlast s) @ [Some (CHR 0x00)]" by blast
  then show ?thesis by (auto split: if_splits)
qed

lemma stream_cstr_forward:
  assumes "tls_inv t" "length s < 2 ^ 63"
  shows "\<exists>t'. stream_cstr lv (s @ [CHR 0x00]) t = Inr t' \<and> tls_inv t' \<and> length (body t) \<le> length (body t')"
proof (cases "IsLevelForbid lv (curLevel t)")
  case True
  with assms show ?thesis by (simp add: stream_cstr_def)
next
  case False
  let ?s = "takeWhile (\<lambda>c. c \<noteq> CHR 0x00) s"
  have s: "CHR 0x00 \<notin> set ?s" "length ?s < 2 ^ 63"
    using assms(2) length_takeWhile_le [of "\<lambda>c. c \<noteq> CHR 0x00" s] by (auto dest: set_takeWhileD)
  show ?thesis
    using stream_cstr_appends [OF assms(1) False s, of "drop (Suc (length ?s)) (s @ [CHR 0x00])"]
    by (subst (1) first_terminator) (auto split: if_splits)
qed

lemma stream_arg_forward:
  assumes "tls_inv t" "arg_small a"
  shows "\<exists>t'. stream_arg lv a t = Inr t' \<and> tls_inv t' \<and> length (body t) \<le> length (body t')"
proof (cases a)
  case (APtr p)
  have "length (fmt_ptr (unat p)) = 18" using unat_bound64 [of p] by (intro length_fmt_ptr) simp
  moreover from this have "fmt_ptr (unat p) \<noteq> []" by auto
  ultimately show ?thesis unfolding APtr stream_arg.simps stream_ptr_def
    by (intro stream_fmt_forward assms(1)) auto
qed (use assms stream_cstr_forward [OF assms(1)] in \<open>auto simp: stream_string_def stream_uchar_def stream_char_def
    stream_ushort_def stream_short_def stream_uint_def stream_int_def stream_ulong_def
    stream_long_def stream_ulonglong_def stream_longlong_def stream_double_def
    intro!: stream_fmt_forward fmt_int_widths [THEN le_trans]\<close>)

lemma stream_arg_level:
  "stream_arg lv a t = Inr t' \<Longrightarrow> curLevel t' = curLevel t"
  by (cases a; auto simp: stream_string_def stream_ptr_def stream_uchar_def stream_char_def
      stream_ushort_def stream_short_def stream_uint_def stream_int_def stream_ulong_def
      stream_long_def stream_ulonglong_def stream_longlong_def stream_double_def
      stream_fmt_def stream_cstr_def res_bind_Inr Let_def split: if_splits)

lemma stream_args_forward:
  assumes "tls_inv t" "list_all arg_small args"
  shows "\<exists>t'. res_fold (stream_arg lv) args t = Inr t' \<and> tls_inv t' \<and> length (body t) \<le> length (body t') \<and>
    curLevel t' = curLevel t"
  using assms
proof (induction args arbitrary: t)
  case (Cons a args)
  then obtain t1 where t1: "stream_arg lv a t = Inr t1" "tls_inv t1" "length (body t) \<le> length (body t1)"
    using stream_arg_forward [of t a lv] by auto
  with Cons obtain t2 where "res_fold (stream_arg lv) args t1 = Inr t2" "tls_inv t2"
    "length (body t1) \<le> length (body t2)" "curLevel t2 = curLevel t1" by auto
  with t1 stream_arg_level [OF t1(1)] show ?case by auto
qed simp

text \<open>A thread's line in any state the overloads and \<open>Flush\<close> leave it in.\<close>

definition lagging :: "byte list \<Rightarrow> Tls \<Rightarrow> bool" where
  "lagging str t \<longleftrightarrow> full t \<and> (tidLen t = 0 \<longrightarrow> length str \<le> 15)"

lemma lagging_thread_ok: "thread_ok str t \<Longrightarrow> lagging str t"
  by (simp add: thread_ok_def lagging_def)

lemma length_tid_text:
  "lagging str t \<Longrightarrow> 1 \<le> length (tid_text str t) \<and> length (tid_text str t) \<le> 16"
  by (auto simp: lagging_def full_def tls_inv_def tid_text_def)

lemma length_body_le: "full t \<Longrightarrow> length (body t) \<le> 2015"
  using length_body [of t] by (auto simp: full_def tls_inv_def)

lemma stmt_ok_small: "stmt_ok lv level args \<Longrightarrow> list_all arg_small args"
proof -
  assume s: "stmt_ok lv level args"
  have "arg_small a" if "a \<in> set args" for a
  proof -
    have "length (arg_text a) \<le> length (args_text args)"
      using that by (auto simp: args_text_def length_concat intro!: member_le_sum_list)
    then have "length (arg_text a) \<le> 1990" using s by (simp add: stmt_ok_def)
    moreover have "arg_ok a" using s that by (simp add: stmt_ok_def list_all_iff)
    ultimately show ?thesis by (cases a) auto
  qed
  then show ?thesis by (simp add: list_all_iff)
qed

text \<open>The operands of a statement leave a line that is ready: if it was empty they all fit.\<close>

lemma stmt_ready:
  assumes t: "lagging str t" and s: "stmt_ok lv level args"
  shows "\<exists>t1. res_fold (stream_arg lv) args (SetCurLevel level t) = Inr t1 \<and> lagging str t1 \<and>
    ready lv level t1 \<and> length (body t) \<le> length (body t1)"
proof -
  let ?t = "SetCurLevel level t"
  have f: "full t" and inv: "tls_inv ?t" and b: "body ?t = body t"
    using t by (simp_all add: lagging_def full_def tls_inv_SetCurLevel)
  have cl: "curLevel ?t = level" by (simp add: SetCurLevel_def)
  have s0: "list_all arg_ok args" "args_text args \<noteq> []" "length (args_text args) \<le> 1990"
    "\<not> IsLevelForbid lv level" "level \<noteq> 0" using s by (simp_all add: stmt_ok_def)
  from stream_args_forward [OF inv stmt_ok_small [OF s], of lv] obtain t1 where
    t1: "res_fold (stream_arg lv) args ?t = Inr t1" "tls_inv t1" "length (body t) \<le> length (body t1)"
      "curLevel t1 = level" unfolding b cl by blast
  have l: "lagging str t1" using stream_args_full [OF t1(1)] t1(2) t
    by (simp add: lagging_def full_def SetCurLevel_def)
  have "body t1 \<noteq> []"
  proof (cases "body t = []")
    case True
    then have "unat (pos ?t) = 33" using inv b length_body [OF inv] by (simp add: tls_inv_def)
    then show ?thesis
      using stream_args_append [OF inv s0(1), of lv] t1(1) s0(2-4) cl unfolding args_text_def by auto
  qed (use t1(3) in auto)
  then have "0 < length (body t1)" by simp
  then have "ready lv level t1" using t1(4) s0(4,5) unfolding length_body [OF t1(2)] by (simp add: ready_def)
  with t1(1,3) l show ?thesis by blast
qed

lemma LOG_stopped_advances:
  assumes t: "lagging str t" and s: "stmt_ok (llevel lg) level args" and down: "shutdown lg"
    and w: "good_world lt d w"
  shows "LOG lt me str level args t (Some lg) w = Inl OutOfBounds \<or>
    (\<exists>t' w'. LOG lt me str level args t (Some lg) w = Inr (t', Some lg, w', False) \<and> lagging str t' \<and>
       length (body t) + 2 \<le> length (body t') \<and> good_world lt d w')"
proof -
  from stmt_ready [OF t s] obtain t1 where
    t1: "res_fold (stream_arg (llevel lg)) args (SetCurLevel level t) = Inr t1" "lagging str t1"
      "ready (llevel lg) level t1" "length (body t) \<le> length (body t1)" by blast
  have f1: "full t1" "tls_inv t1" "tidLen t1 = 0 \<longrightarrow> length str \<le> 15"
    using t1(2) by (simp_all add: lagging_def full_def)
  have c: "statics_ok (statics w)" "good_time lt (clock w (ticks w))"
    using w by (simp_all add: good_world_def good_time_def)
  have L: "LOG lt me str level args t (Some lg) w =
      res_bind (Logger_Flush lt me str level t1 lg w) (\<lambda>(t, lg, w, busy). Inr (t, Some lg, w, busy))"
    using t1(1) s by (simp add: LOG_def LogHelper_assign_def stmt_ok_def)
  show ?thesis
  proof (cases "line_fits str t1")
    case True
    from Logger_Flush_stopped [OF f1(1) True t1(3) down c, of me] obtain t' st' out where
      f: "Logger_Flush lt me str level t1 lg w =
          Inr (t', lg, w\<lparr>ticks := Suc (ticks w), statics := st', cout := cout w @ out\<rparr>, False)"
        "body t' = body t1 @ tid_text str t1 @ [Some (CHR 0x0A)]" "full t'" "statics_ok st'"
        "tid_text str t' = tid_text str t1" by blast
    have "length (tid_text str t') \<le> 16" unfolding f(5) using length_tid_text [OF t1(2)] ..
    then have "lagging str t'" using f(3) by (simp add: lagging_def tid_text_def split: if_splits)
    moreover have "length (body t) + 2 \<le> length (body t')"
      using f(2) t1(4) length_tid_text [OF t1(2)] by simp
    moreover have "good_world lt d (w\<lparr>ticks := Suc (ticks w), statics := st', cout := cout w @ out\<rparr>)"
      using w f(4) by (simp add: good_world_def)
    ultimately show ?thesis using f(1) L by auto
  next
    case False
    then have over: "2048 < unat (pos t1) + length (tid_text str t1) + 2"
      using f1(3) by (auto simp: line_fits_def)
    from flush_time_ok [OF f1(1) c] obtain st' t2 where
      "flush_time lt (statics w) (Time_new (clock w (ticks w)) garbage_tm) t1 = Inr (st', t2)" "same_line t1 t2"
      by blast
    from flush_format_overflow [OF f1(2) t1(3) f1(3) over this]
    show ?thesis by (simp add: L Logger_Flush_def read_clock_def)
  qed
qed

text \<open>C14: A thread that goes on logging to a logger that was shut down runs off the end of the
  thread's line buffer: whatever it logs, at most 1008 statements later \<open>Flush\<close> writes behind
  the 2048 bytes.\<close>

theorem stopped_logger_overflows:
  assumes "thread_ok (ids me) (T me)" "shutdown lg" "good_world lt d w"
    and "list_all (\<lambda>(k, level, args). k = me \<and> stmt_ok (llevel lg) level args) xs"
    and "1008 \<le> length xs"
  shows "log_run lt ids xs T lg w = Inl OutOfBounds"
proof -
  have "log_run lt ids xs T lg w = Inl OutOfBounds"
    if "lagging (ids me) (T me)" "good_world lt d w" "2015 < length (body (T me)) + 2 * length xs"
      "list_all (\<lambda>(k, level, args). k = me \<and> stmt_ok (llevel lg) level args) xs" for T w xs
    using that
  proof (induction xs arbitrary: T w)
    case Nil
    then show ?case using length_body_le [of "T me"] by (simp add: lagging_def)
  next
    case (Cons x xs)
    obtain level args where x: "x = (me, level, args)" "stmt_ok (llevel lg) level args"
      using Cons.prems(4) by (cases x) auto
    from LOG_stopped_advances [OF Cons.prems(1) x(2) assms(2) Cons.prems(2), of me] show ?case
    proof (elim disjE exE conjE)
      fix t' w'
      assume s: "LOG lt me (ids me) level args (T me) (Some lg) w = Inr (t', Some lg, w', False)"
        "lagging (ids me) t'" "length (body (T me)) + 2 \<le> length (body t')" "good_world lt d w'"
      have "log_run lt ids xs (T(me := t')) lg w' = Inl OutOfBounds"
        using s Cons.prems(3,4) by (intro Cons.IH) auto
      with s(1) x(1) show ?case by simp
    qed (simp add: x(1))
  qed
  then show ?thesis using assms lagging_thread_ok by simp
qed

theorem stopped_logger_overflows_witness:
  "log_run (\<lambda>_. demo_tm) (\<lambda>_. ''140'') (replicate 1008 (7, 1, [ACstr ''n='', AInt 5])) (\<lambda>_. Tls_start)
     (demo_logger\<lparr>shutdown := True\<rparr>) demo_world = Inl OutOfBounds"
proof (rule stopped_logger_overflows [where me = 7 and d = "[]"])
  show "thread_ok ''140'' Tls_start" by (rule thread_ok_start) simp
  show "good_world (\<lambda>_. demo_tm) [] demo_world" by (rule demo_world_good)
  show "list_all (\<lambda>(k, level, args). k = 7 \<and> stmt_ok (llevel (demo_logger\<lparr>shutdown := True\<rparr>)) level args)
     (replicate 1008 (7, 1, [ACstr ''n='', AInt 5]))"
    using demo_stmt_ok by (simp add: list_all_iff demo_logger_def)
qed simp_all

theorem stopped_line_leaks_witness:
  "\<exists>t1 w1 t2 m w2 busy stamp.
    LOG (\<lambda>_. demo_tm) 7 ''140'' 1 [ACstr ''n='', AInt 5] Tls_start (Some (demo_logger\<lparr>shutdown := True\<rparr>)) demo_world =
      Inr (t1, Some (demo_logger\<lparr>shutdown := True\<rparr>), w1, False) \<and>
    LOG (\<lambda>_. demo_tm) 7 ''140'' 1 [ACstr ''n='', AInt 5] t1 (Some demo_logger) w1 =
      Inr (t2, Some (demo_logger\<lparr>buffers := m\<rparr>), w2, busy) \<and>
    length stamp = 27 \<and>
    stages (demo_logger\<lparr>buffers := m\<rparr>) ((\<lambda>_. [])(7 := [] @
      [(1, stamp @ level_tag 1 @ args_text [ACstr ''n='', AInt 5] @ ''|'' @ ''140'' @ [CHR 0x0A] @
           args_text [ACstr ''n='', AInt 5] @ ''|'' @ ''140'' @ [CHR 0x0A])]))"
proof (rule stopped_line_leaks)
  show "thread_ok ''140'' Tls_start" by (rule thread_ok_start) simp
  show "stmt_ok (llevel (demo_logger\<lparr>shutdown := True\<rparr>)) 1 [ACstr ''n='', AInt 5]"
    "stmt_ok (llevel demo_logger) 1 [ACstr ''n='', AInt 5]"
    using demo_stmt_ok by (simp_all add: demo_logger_def)
  show "shutdown (demo_logger\<lparr>shutdown := True\<rparr>)" "\<not> shutdown demo_logger" "7 \<notin> in_use demo_logger"
    "stages demo_logger (\<lambda>_. [])"
    by (simp_all add: stages_def in_use_def smap_ok_def demo_logger_def)
  show "length (args_text [ACstr ''n='', AInt 5]) + length (args_text [ACstr ''n='', AInt 5]) \<le> 1970"
    by (simp add: args_text_def fmt_eval)
  show "statics_ok (statics demo_world)" "good_time (\<lambda>_. demo_tm) (clock demo_world (ticks demo_world))"
    by (rule demo_clock)+
  show "good_time (\<lambda>_. demo_tm) (clock demo_world (Suc (ticks demo_world)))"
    using demo_world_good [of "[]"] by (simp add: good_world_def good_time_def)
qed (simp add: enc_records_def)

end
