(* ===== verification/LogFaults.thy ===== *)
theory LogFaults
  imports LogConc LogStopped
begin

text \<open>
  What can go wrong in the concurrent logger. The step relation of LogConc has threads execute statements
  that fit their line; here a thread in a reachable state executes any statement. The one fault it can meet
  is the unchecked end of \<open>Flush\<close>: thread id, line end and terminator behind a text that leaves them no room.
\<close>

section \<open>Formatting any statement\<close>

text \<open>How a statement ends before the lock of \<open>Flush\<close>, \<open>t1\<close> being the line with the operands in it: with nothing
  to log, with a finished line, or behind the end of the line buffer.\<close>

definition statement_ends ::
  "(int \<Rightarrow> tm) \<Rightarrow> byte list \<Rightarrow> uint \<Rightarrow> log_arg list \<Rightarrow> Tls \<Rightarrow> Logger \<Rightarrow> World \<Rightarrow> Tls \<Rightarrow> bool" where
  "statement_ends lt str level args t lg w t1 \<longleftrightarrow>
     res_fold (stream_arg (llevel lg)) args (SetCurLevel level t) = Inr t1 \<and>
     (if body t1 = [] then \<exists>w'. log_format lt str level args t lg w = Inr (False, t1, w')
      else if 33 + length (body t1) + length (tid_text str t1) + 2 \<le> 2048 then
        \<exists>t' w' stamp. log_format lt str level args t lg w = Inr (True, t', w') \<and>
          line_stored t' = line_text stamp level str t1
      else log_format lt str level args t lg w = Inl OutOfBounds)"

lemma statement_ends_exists:
  assumes t: "lagging str t" and small: "list_all arg_small args"
    and level: "\<not> IsLevelForbid (llevel lg) level" "level \<noteq> 0"
    and w: "statics_ok (statics w)" "good_time lt (clock w (ticks w))"
  shows "\<exists>t1. statement_ends lt str level args t lg w t1"
proof -
  let ?t = "SetCurLevel level t" and ?T = "Time_new (clock w (ticks w)) garbage_tm"
  have inv: "tls_inv ?t" using t by (simp add: lagging_def full_def tls_inv_SetCurLevel)
  from stream_args_forward [OF inv small, of "llevel lg"] obtain t1 where
    t1: "res_fold (stream_arg (llevel lg)) args ?t = Inr t1" "tls_inv t1" "curLevel t1 = level"
    by (auto simp: SetCurLevel_def)
  have l: "lagging str t1" using stream_args_full [OF t1(1)] t1(2) t
    by (simp add: lagging_def full_def SetCurLevel_def)
  then have f: "full t1" "tidLen t1 = 0 \<longrightarrow> length str \<le> 15" by (simp_all add: lagging_def)
  have b: "length (body t1) = unat (pos t1) - 33" "33 \<le> unat (pos t1)"
    using length_body [OF t1(2)] t1(2) by (simp_all add: tls_inv_def)
  note format = t1(1) log_format_def read_clock_def
  show ?thesis
  proof (cases "body t1 = []")
    case True
    then have "unat (pos t1) = 33" using b by simp
    then have "pos t1 = 33" by (simp add: word_unat_eq_iff)
    then have "flush_format lt (llevel lg) level str ?T (statics w) t1 = Inr (False, statics w, t1)"
      using t1(3) level by (simp add: flush_format_def kPrefixTimeLen_def kPrefixLevelLen_def)
    then show ?thesis using True t1(1)
      by (intro exI [of _ t1]) (auto simp: statement_ends_def format)
  next
    case False
    then have "0 < length (body t1)" by simp
    then have ready: "ready (llevel lg) level t1" using b t1(3) level by (simp add: ready_def)
    show ?thesis
    proof (cases "line_fits str t1")
      case True
      from flush_format_line [OF f(1) ready True w] obtain st' t' stamp where
        "flush_format lt (llevel lg) level str ?T (statics w) t1 = Inr (True, st', t')"
        "take (unat (pos t')) (tmpBuffer t') = map Some (line_text stamp level str t1)" by blast
      moreover from this have "line_stored t' = line_text stamp level str t1" by (simp add: line_stored_def)
      ultimately show ?thesis using False True t1(1) b
        by (intro exI [of _ t1]) (auto simp: statement_ends_def format line_fits_def)
    next
      case long: False
      then have over: "2048 < unat (pos t1) + length (tid_text str t1) + 2" using f(2) by (auto simp: line_fits_def)
      from flush_time_ok [OF f(1) w] obtain st' t2 where
        "flush_time lt (statics w) ?T t1 = Inr (st', t2)" "same_line t1 t2" by blast
      from flush_format_overflow [OF t1(2) ready f(2) over this]
      have "log_format lt str level args t lg w = Inl OutOfBounds" by (simp add: format)
      moreover have "2048 < 33 + length (body t1) + length (tid_text str t1) + 2" using over b by simp
      ultimately show ?thesis using False t1(1)
        by (intro exI [of _ t1]) (simp only: statement_ends_def if_False not_less [symmetric] simp_thms)
    qed
  qed
qed

section \<open>In every reachable state\<close>

lemma holds_line_lagging: "holds_line ids k t level args \<Longrightarrow> lagging (ids k) t"
  by (auto simp: holds_line_def thread_ok_def lagging_def full_def log_Reset_def)

lemma lagging_Reset: "lagging str t \<Longrightarrow> lagging str (log_Reset t)"
  using tls_inv_Reset [of t] by (auto simp: lagging_def full_def log_Reset_def)

text \<open>Every thread's line can be written to, also after \<open>Shutdown\<close>.\<close>

lemma reach_lagging:
  "log_reach lt ids lg w s \<Longrightarrow> fresh_logger lt ids lg w \<Longrightarrow> unat (seq w) + length (order s) < 2 ^ 32 \<Longrightarrow>
   lagging (ids k) (tls s k)"
proof (induction arbitrary: k rule: log_reach.induct)
  case start
  then show ?case by (simp add: log_start_def fresh_logger_def lagging_thread_ok thread_ok_start)
next
  case (step s s')
  have IH: "lagging (ids j) (tls s j)" for j using step log_step_order [OF step(2)] by simp
  note inv = log_invD [OF log_reach_inv [OF log_reach.step [OF step(1,2)] step(4,5)]]
  from step(2) show ?case
  proof cases
    case (s_format j level args t v)
    then have "holds_line ids j t level args" using phase_at [OF inv(3), of j] by simp
    then show ?thesis using s_format IH holds_line_lagging by simp
  qed (use IH lagging_Reset in simp_all)
qed



end
