(* ===== verification/Runs.thy ===== *)
theory Runs
  imports Prelude
begin

text \<open>
  Labelled systems: their runs, and simulation of one by another. Every component whose code runs in
  several threads is such a system, and what it promises to the components above it is another.
\<close>

section \<open>Runs\<close>

inductive run_of :: "('s \<Rightarrow> 'l \<Rightarrow> 's \<Rightarrow> bool) \<Rightarrow> 's \<Rightarrow> 'l list \<Rightarrow> 's \<Rightarrow> bool" for step where
  nil: "run_of step s [] s"
| snoc: "run_of step s ls t \<Longrightarrow> step t l u \<Longrightarrow> run_of step s (ls @ [l]) u"

inductive_cases run_nilE: "run_of step s [] t"
inductive_cases run_snocE: "run_of step s (ls @ [l]) t"

lemma run_of_append: "run_of step s (ls @ ks) t \<Longrightarrow> \<exists>u. run_of step s ls u \<and> run_of step u ks t"
proof (induction ks arbitrary: t rule: rev_induct)
  case Nil
  then show ?case using run_of.nil by fastforce
next
  case (snoc k ks)
  from snoc.prems have "run_of step s ((ls @ ks) @ [k]) t" by simp
  then obtain u where "run_of step s (ls @ ks) u" "step u k t" by (rule run_snocE) blast
  with snoc.IH show ?case using run_of.snoc by metis
qed

lemma run_trans: "run_of step t ks u \<Longrightarrow> run_of step s ls t \<Longrightarrow> run_of step s (ls @ ks) u"
proof (induction rule: run_of.induct)
  case (snoc t ks u k v)
  have "run_of step s ((ls @ ks) @ [k]) v" using snoc.IH [OF snoc.prems] snoc.hyps(2) by (rule run_of.snoc)
  then show ?case by simp
qed simp

lemma run_one: "step s l t \<Longrightarrow> run_of step s [l] t"
  using run_of.snoc [of step s "[]" s l t] run_of.nil [of step s] by simp

lemma run_Cons: "step s l t \<Longrightarrow> run_of step t ls u \<Longrightarrow> run_of step s (l # ls) u"
  using run_trans [of step t ls u s "[l]"] run_one [of step s l t] by simp

section \<open>Simulations\<close>

text \<open>A system of steps that keep an invariant.\<close>

locale system =
  fixes step :: "'s \<Rightarrow> 'l \<Rightarrow> 's \<Rightarrow> bool" and inv :: "'s \<Rightarrow> bool"
  assumes inv_step: "inv s \<Longrightarrow> step s l t \<Longrightarrow> inv t"
begin

lemma run_inv: "run_of step s ls t \<Longrightarrow> inv s \<Longrightarrow> inv t"
  by (induction rule: run_of.induct) (auto intro: inv_step)

end

text \<open>Each of its steps is a step, with the same label, of what it implements.\<close>

locale simulation = system step inv for step :: "'s \<Rightarrow> 'l \<Rightarrow> 's \<Rightarrow> bool" and inv +
  fixes astep :: "'a \<Rightarrow> 'l \<Rightarrow> 'a \<Rightarrow> bool" and abs :: "'s \<Rightarrow> 'a"
  assumes sim_step: "inv s \<Longrightarrow> step s l t \<Longrightarrow> astep (abs s) l (abs t)"
begin

lemma run_sim: "run_of step s ls t \<Longrightarrow> inv s \<Longrightarrow> run_of astep (abs s) ls (abs t)"
proof (induction rule: run_of.induct)
  case (snoc s ls t l u)
  then show ?case using run_inv sim_step run_of.snoc by metis
qed (rule run_of.nil)

end

end
