(* ===== verification/LogSpec.thy ===== *)
theory LogSpec
  imports LogConc Runs
begin

text \<open>
  What a logger promises to its surroundings: an abstract logger that knows only which threads are
  inside \<open>Flush\<close>, the records waiting for each thread, the records \<open>Update\<close> has taken, those it has
  written, and all records ever stored. The concurrent logger of LogConc refines it step by step; LogManager builds on it.
\<close>

section \<open>The abstract logger\<close>

record alog =
  ashut :: bool
  ainside :: "nat set"
  astaged :: "nat \<Rightarrow> rec list"
  ataken :: "(nat \<times> rec) list"
  aout :: "(nat \<times> rec) list"
  astored :: "(nat \<times> rec) list"

definition alog_new :: alog where
  "alog_new = \<lparr>ashut = False, ainside = {}, astaged = (\<lambda>_. []), ataken = [], aout = [],
     astored = []\<rparr>"

definition a_enter :: "nat \<Rightarrow> alog \<Rightarrow> alog" where
  "a_enter k a = a\<lparr>ainside := insert k (ainside a)\<rparr>"

definition a_store :: "nat \<Rightarrow> rec \<Rightarrow> alog \<Rightarrow> alog" where
  "a_store k r a = a\<lparr>astaged := (astaged a)(k := astaged a k @ [r]), astored := astored a @ [(k, r)]\<rparr>"

definition a_leave :: "nat \<Rightarrow> alog \<Rightarrow> alog" where
  "a_leave k a = a\<lparr>ainside := ainside a - {k}\<rparr>"

definition a_shutdown :: "alog \<Rightarrow> alog" where
  "a_shutdown a = a\<lparr>ashut := True\<rparr>"

text \<open>\<open>Update\<close> takes the records of the threads \<open>ks\<close>, then writes what it has taken bit by bit.\<close>

definition a_take :: "nat list \<Rightarrow> alog \<Rightarrow> alog" where
  "a_take ks a = a\<lparr>ataken := flat (map (\<lambda>k. (k, astaged a k)) ks),
     astaged := (\<lambda>k. if k \<in> ainside a then astaged a k else [])\<rparr>"

definition a_write :: "nat \<Rightarrow> alog \<Rightarrow> alog" where
  "a_write n a = a\<lparr>aout := aout a @ take n (ataken a), ataken := drop n (ataken a)\<rparr>"

text \<open>The threads whose records are taken: all that wait and are not inside, in some order.\<close>

definition takes_all :: "alog \<Rightarrow> nat list \<Rightarrow> bool" where
  "takes_all a ks \<longleftrightarrow> distinct ks \<and> set ks \<inter> ainside a = {} \<and>
     (\<forall>k. k \<notin> ainside a \<and> astaged a k \<noteq> [] \<longrightarrow> k \<in> set ks)"

inductive alog_step :: "alog \<Rightarrow> alog \<Rightarrow> bool" where
  enter: "\<not> ashut a \<Longrightarrow> k \<notin> ainside a \<Longrightarrow> alog_step a (a_enter k a)"
| store: "k \<in> ainside a \<Longrightarrow> alog_step a (a_store k r a)"
| leave: "k \<in> ainside a \<Longrightarrow> alog_step a (a_leave k a)"
| shut: "alog_step a (a_shutdown a)"
| takes: "ataken a = [] \<Longrightarrow> takes_all a ks \<Longrightarrow> alog_step a (a_take ks a)"
| writes: "n \<le> length (ataken a) \<Longrightarrow> alog_step a (a_write n a)"

text \<open>No record is lost: what was stored of a thread is written, taken or waiting, in this order.\<close>

definition alog_ok :: "alog \<Rightarrow> bool" where
  "alog_ok a \<longleftrightarrow> finite {k. astaged a k \<noteq> []} \<and>
     (\<forall>k. recs_of k (aout a) @ recs_of k (ataken a) @ astaged a k = recs_of k (astored a))"

lemma alog_ok_new: "alog_ok alog_new"
  by (simp add: alog_ok_def alog_new_def)

lemma alog_ok_ops:
  assumes "alog_ok a"
  shows "alog_ok (a_enter k a)" "alog_ok (a_store k r a)" "alog_ok (a_leave k a)" "alog_ok (a_shutdown a)"
    "alog_ok (a_write n a)"
proof -
  show "alog_ok (a_enter k a)" "alog_ok (a_leave k a)" "alog_ok (a_shutdown a)"
    using assms by (simp_all add: alog_ok_def a_enter_def a_leave_def a_shutdown_def)
  have "{j. astaged (a_store k r a) j \<noteq> []} \<subseteq> insert k {j. astaged a j \<noteq> []}" by (auto simp: a_store_def)
  moreover have fin: "finite {j. astaged a j \<noteq> []}" using assms by (simp add: alog_ok_def)
  ultimately have "finite {j. astaged (a_store k r a) j \<noteq> []}" by (rule finite_subset [OF _ finite.insertI])
  moreover have "recs_of j (aout a) @ recs_of j (ataken a) @ astaged a j = recs_of j (astored a)" for j
    using assms by (simp add: alog_ok_def)
  then have "recs_of j (aout a) @ recs_of j (ataken a) @ astaged a j @ [r] = recs_of j (astored a) @ [r]" for j
    by (metis append_assoc)
  ultimately show "alog_ok (a_store k r a)" using assms by (simp add: alog_ok_def a_store_def)
  have "recs_of j (take n (ataken a)) @ recs_of j (drop n (ataken a)) = recs_of j (ataken a)" for j
    by (metis append_take_drop_id recs_of_simps(2))
  moreover have "recs_of j (aout a) @ recs_of j (ataken a) @ astaged a j = recs_of j (astored a)" for j
    using assms by (simp add: alog_ok_def)
  ultimately have "recs_of j (aout a) @ recs_of j (take n (ataken a)) @ recs_of j (drop n (ataken a)) @ astaged a j =
      recs_of j (astored a)" for j by (metis append_assoc)
  then show "alog_ok (a_write n a)" using assms by (simp add: alog_ok_def a_write_def)
qed

lemma alog_ok_take:
  assumes ok: "alog_ok a" and t: "takes_all a ks" and none: "ataken a = []"
  shows "alog_ok (a_take ks a)"
proof -
  have d: "distinct ks" using t by (simp add: takes_all_def)
  have "{k. astaged (a_take ks a) k \<noteq> []} \<subseteq> {k. astaged a k \<noteq> []}" by (auto simp: a_take_def)
  moreover have "finite {k. astaged a k \<noteq> []}" using ok by (simp add: alog_ok_def)
  ultimately have "finite {k. astaged (a_take ks a) k \<noteq> []}" by (rule finite_subset)
  moreover have "recs_of k (ataken (a_take ks a)) @ astaged (a_take ks a) k = astaged a k" for k
    using recs_of_flat_distinct [OF d, of k "astaged a"] t by (auto simp: a_take_def takes_all_def)
  ultimately show ?thesis using ok none by (simp add: alog_ok_def) (simp add: a_take_def)
qed

section \<open>The concurrent logger refines it\<close>

definition abs_log :: "log_sys \<Rightarrow> alog" where
  "abs_log s = \<lparr>ashut = shutdown (lgr s), ainside = in_use (lgr s), astaged = stg s, ataken = flat (tkn s),
     aout = outp s, astored = order s\<rparr>"

lemma op_shutdown:
  "flush_enter k lg = Inr (Entered lg') \<Longrightarrow> shutdown lg' = shutdown lg \<and> \<not> shutdown lg"
  "flush_store k level t lg = Inr lg' \<Longrightarrow> shutdown lg' = shutdown lg"
  "flush_leave k lg = Inr (lg', b) \<Longrightarrow> shutdown lg' = shutdown lg"
  by (auto simp: flush_enter_def flush_store_def flush_leave_def check_Inr res_bind_Inr Let_def
      split: if_splits option.splits)

lemma shutdown_abs:
  "Logger_Shutdown addr lg w = (lg', w') \<Longrightarrow> shutdown lg' \<and> in_use lg' = in_use lg"
  by (auto simp: Logger_Shutdown_def in_use_def split: if_splits)

lemma takes_idle:
  assumes st: "stages lg R" and a: "ainside a = in_use lg" "astaged a = R"
  shows "takes_all a (idle_threads lg)"
proof -
  have d: "distinct (map fst (buffers lg))" using st by (intro smap_ok_distinct) (simp add: stages_def)
  then have "distinct (idle_threads lg)" by (simp add: idle_threads_def distinct_map_filter)
  moreover have "set (idle_threads lg) \<inter> in_use lg = {}"
    using d by (auto simp: idle_threads_def in_use_def dest: eq_key_imp_eq_value)
  moreover have "k \<in> set (idle_threads lg)" if k: "k \<notin> in_use lg" "R k \<noteq> []" for k
  proof -
    obtain i where i: "map_of (buffers lg) k = Some i" using stages_None [OF st, of k] k(2) by auto
    with k(1) have "\<not> inuse i" by (auto simp: in_use_def)
    with map_of_SomeD [OF i] show ?thesis by (force simp: idle_threads_def)
  qed
  ultimately show ?thesis by (simp add: takes_all_def a)
qed

lemma update_keeps_flags:
  assumes "update_enter lg = (lg', bufs, todo)" "stages lg R"
  shows "shutdown lg' = shutdown lg \<and> in_use lg' = in_use lg"
  using update_enter_ok [OF assms(2)] assms(1) by auto

lemma log_step_refines:
  assumes st: "log_step lt ids s s'" and i: "log_inv lt ids w0 s" "log_inv lt ids w0 s'"
    and n: "unat (seq w0) + length (order s) < 2 ^ 32"
  shows "abs_log s' = abs_log s \<or> alog_step (abs_log s) (abs_log s')"
proof -
  note inv = log_invD [OF i(1)] and inv' = log_invD [OF i(2)]
  have use: "in_use (lgr s') = {k. busy_phase (fph s' k)}" by (rule inv'(2))
  from st show ?thesis
  proof cases
    case (s_format k level args t w)
    then show ?thesis by (simp add: abs_log_def)
  next
    case (s_stopped k level args out)
    then show ?thesis by (simp add: abs_log_def)
  next
    case (s_enter k level args lg)
    have "in_use (lgr s') = insert k (in_use (lgr s))" "k \<notin> in_use (lgr s)"
      using use inv(2) s_enter(1,2) by auto
    then have "abs_log s' = a_enter k (abs_log s)" "\<not> ashut (abs_log s)" "k \<notin> ainside (abs_log s)"
      using op_shutdown(1) [OF s_enter(3)] s_enter(1) by (simp_all add: abs_log_def a_enter_def)
    then show ?thesis using alog_step.enter by metis
  next
    case (s_store k level args lg r)
    have "in_use (lgr s') = in_use (lgr s)" "k \<in> in_use (lgr s)" using use inv(2) s_store(1,2) by auto
    then have "abs_log s' = a_store k r (abs_log s)" "k \<in> ainside (abs_log s)"
      using op_shutdown(2) [OF s_store(3)] s_store(1) by (simp_all add: abs_log_def a_store_def)
    then show ?thesis using alog_step.store by metis
  next
    case (s_leave k lg busy)
    have "in_use (lgr s') = in_use (lgr s) - {k}" "k \<in> in_use (lgr s)" using use inv(2) s_leave(1,2) by auto
    then have "abs_log s' = a_leave k (abs_log s)" "k \<in> ainside (abs_log s)"
      using op_shutdown(3) [OF s_leave(3)] s_leave(1) by (simp_all add: abs_log_def a_leave_def)
    then show ?thesis using alog_step.leave by metis
  next
    case (s_shutdown addr lg w)
    then have "abs_log s' = a_shutdown (abs_log s)"
      using shutdown_abs by (simp add: abs_log_def a_shutdown_def)
    then show ?thesis using alog_step.shut by metis
  next
    case (u_enter lg bufs todo)
    have "tkn s = []" using inv(4) u_enter(2) by (simp add: taken_fit_def)
    moreover have "abs_log s' = a_take (idle_threads (lgr s)) (abs_log s)"
      using update_keeps_flags [OF u_enter(3) inv(1)] u_enter(1) by (simp add: abs_log_def a_take_def cong: if_cong)
    moreover have "takes_all (abs_log s) (idle_threads (lgr s))"
      by (rule takes_idle [OF inv(1)]) (simp_all add: abs_log_def)
    ultimately show ?thesis using alog_step.takes [of "abs_log s"] by (simp add: abs_log_def)
  next
    case (u_write b bufs todo k rs rest lg w)
    from inv(6) obtain ns where "files_ok ns (lgr s) (wld s)" by (auto simp: written_fit_def)
    from u_write_at [OF i(1) u_write(2) n this] u_write(4) have "shutdown lg = shutdown (lgr s)" by auto
    moreover have "in_use (lgr s') = in_use (lgr s)" using use inv(2) u_write(1) by simp
    ultimately have "abs_log s' = a_write (length rs) (abs_log s)"
      using u_write(1,3) by (simp add: abs_log_def a_write_def)
    moreover have "length rs \<le> length (ataken (abs_log s))" using u_write(3) by (simp add: abs_log_def)
    ultimately show ?thesis using alog_step.writes by metis
  next
    case (u_sync todo lg w)
    have "shutdown lg = shutdown (lgr s)" by (subst update_sync_keeps(6) [OF u_sync(3)]) simp
    moreover have "in_use (lgr s') = in_use (lgr s)" using use inv(2) u_sync(1) by simp
    ultimately show ?thesis using u_sync(1) by (simp add: abs_log_def)
  qed
qed

lemma log_start_abs: "buffers lg = [] \<Longrightarrow> \<not> shutdown lg \<Longrightarrow> abs_log (log_start lg w) = alog_new"
  by (simp add: abs_log_def log_start_def alog_new_def in_use_def)

text \<open>As a simulation: the abstract logger may also stand still. The ticket numbers are 32 bits.\<close>

definition log_lstep :: "(int \<Rightarrow> tm) \<Rightarrow> (nat \<Rightarrow> byte list) \<Rightarrow> World \<Rightarrow> log_sys \<Rightarrow> unit \<Rightarrow> log_sys \<Rightarrow> bool" where
  "log_lstep lt ids w0 s l s' \<longleftrightarrow> log_step lt ids s s' \<and> unat (seq w0) + length (order s') < 2 ^ 32"

definition alog_lstep :: "alog \<Rightarrow> unit \<Rightarrow> alog \<Rightarrow> bool" where
  "alog_lstep a l b \<longleftrightarrow> b = a \<or> alog_step a b"

lemma log_lstep_ok:
  assumes "log_lstep lt ids w0 s l s'" "log_inv lt ids w0 s"
  shows "log_inv lt ids w0 s' \<and> alog_lstep (abs_log s) l (abs_log s')"
proof -
  have st: "log_step lt ids s s'" and n: "unat (seq w0) + length (order s) < 2 ^ 32"
    using assms(1) log_step_order [of lt ids s s'] by (auto simp: log_lstep_def)
  have "log_inv lt ids w0 s'" by (rule log_step_inv [OF st assms(2) n])
  with log_step_refines [OF st assms(2) this n] show ?thesis by (auto simp: alog_lstep_def)
qed

interpretation lgs: simulation "log_lstep lt ids w0" "log_inv lt ids w0" alog_lstep abs_log for lt ids w0
  by unfold_locales (auto dest: log_lstep_ok)

interpretation als: system alog_lstep alog_ok
  by unfold_locales (auto simp: alog_lstep_def alog_ok_ops alog_ok_take elim!: alog_step.cases)

lemma log_reach_run:
  assumes "log_reach lt ids lg w s" "unat (seq w) + length (order s) < 2 ^ 32"
  shows "\<exists>ls. run_of (log_lstep lt ids w) (log_start lg w) ls s"
  using assms
proof (induction rule: log_reach.induct)
  case start
  show ?case by (rule exI [of _ "[]"]) (rule run_of.nil)
next
  case (step s s')
  have "unat (seq w) + length (order s) < 2 ^ 32" using log_step_order [OF step(2)] step(4) by linarith
  then obtain ls where "run_of (log_lstep lt ids w) (log_start lg w) ls s" using step(3) by blast
  moreover have "log_lstep lt ids w s () s'" unfolding log_lstep_def using step(2,4) by (rule conjI)
  ultimately have "run_of (log_lstep lt ids w) (log_start lg w) (ls @ [()]) s'" by (rule run_of.snoc)
  then show ?case by (rule exI)
qed

text \<open>
  The abstract logger read off the state of the code, no ghost among it: the flag, the threads whose buffer is
  marked, the records decoded from the buffers in the map and from those \<open>Update\<close> is about to write, and the
  lines found in the log files.
\<close>

definition log_rep :: "log_sys \<Rightarrow> alog \<Rightarrow> bool" where
  "log_rep s a \<longleftrightarrow> ashut a = shutdown (lgr s) \<and> ainside a = in_use (lgr s) \<and> stages (lgr s) (astaged a) \<and>
     (case uph s of UIdle \<Rightarrow> ataken a = []
      | UWrite bufs _ \<Rightarrow> \<exists>xs. ataken a = flat xs \<and> list_all2 (\<lambda>x b. holds b (snd x)) xs bufs) \<and>
     (\<exists>ns. files_ok ns (lgr s) (wld s) \<and> log_bytes ns (lgr s) (wld s) = concat (map (snd \<circ> snd) (aout a)))"

lemma abs_log_rep:
  assumes "log_inv lt ids w0 s"
  shows "log_rep s (abs_log s)"
proof -
  note inv = log_invD [OF assms]
  have "case uph s of UIdle \<Rightarrow> ataken (abs_log s) = []
      | UWrite bufs _ \<Rightarrow> \<exists>xs. ataken (abs_log s) = flat xs \<and> list_all2 (\<lambda>x b. holds b (snd x)) xs bufs"
    using inv(4) by (cases "uph s") (auto simp: taken_fit_def abs_log_def)
  moreover have "ashut (abs_log s) = shutdown (lgr s)" "ainside (abs_log s) = in_use (lgr s)"
    "astaged (abs_log s) = stg s" "aout (abs_log s) = outp s" by (simp_all add: abs_log_def)
  moreover have "\<exists>ns. files_ok ns (lgr s) (wld s) \<and> log_bytes ns (lgr s) (wld s) = concat (map (snd \<circ> snd) (outp s))"
    using inv(6) by (simp add: written_fit_def)
  ultimately show ?thesis using inv(1) by (simp add: log_rep_def)
qed

text \<open>C4: Every run of the code's logger, whatever its threads do, is a run of the abstract logger from its
  start, and the state reached represents the abstract one with nothing but what the code itself keeps:
  the waiting records are those in the threads' buffers, the taken ones those in the buffers Update
  still has to write, and the written ones, line by line, the bytes of the log files. Of each thread the
  written, the taken and the waiting records are, in this order, the records of its statements so far,
  one for each, and each says what the statement said.\<close>
theorem log_run_refines:
  assumes "log_reach lt ids lg w s" "fresh_logger lt ids lg w" "unat (seq w) + length (order s) < 2 ^ 32"
    "\<not> shutdown lg"
  shows "\<exists>ls a. run_of alog_lstep alog_new ls a \<and> log_rep s a \<and>
    (\<forall>k. recs_of k (astored a) = recs_of k (aout a) @ recs_of k (ataken a) @ astaged a k \<and>
      list_all2 (says ids k) (said s k) (recs_of k (astored a)))"
proof -
  have inv: "log_inv lt ids w s" by (rule log_reach_inv [OF assms(1-3)])
  obtain ls where "run_of (log_lstep lt ids w) (log_start lg w) ls s" using log_reach_run [OF assms(1,3)] by blast
  from lgs.run_sim [OF this log_start_inv [OF assms(2)]]
  have "run_of alog_lstep (abs_log (log_start lg w)) ls (abs_log s)" .
  moreover have "abs_log (log_start lg w) = alog_new"
    using assms(2,4) by (intro log_start_abs) (simp_all add: fresh_logger_def)
  ultimately have r: "run_of alog_lstep alog_new ls (abs_log s)" by simp
  have "recs_of k (astored (abs_log s)) =
      recs_of k (aout (abs_log s)) @ recs_of k (ataken (abs_log s)) @ astaged (abs_log s) k" for k
    using als.run_inv [OF r alog_ok_new] by (simp add: alog_ok_def)
  moreover have "list_all2 (says ids k) (said s k) (recs_of k (astored (abs_log s)))" for k
    using log_invD(5) [OF inv] by (simp add: counts_fit_def abs_log_def)
  ultimately show ?thesis using r abs_log_rep [OF inv]
    by (intro exI [of _ ls] exI [of _ "abs_log s"]) simp
qed

lemma log_run_refines_witness:
  "\<exists>ls s a. log_reach (\<lambda>_. demo_tm) (\<lambda>_. ''140'') demo_logger demo_world s \<and> run_of alog_lstep alog_new ls a \<and>
     log_rep s a \<and> length (recs_of 7 (aout a) @ recs_of 7 (ataken a) @ astaged a 7) = 1"
proof -
  let ?lt = "\<lambda>_. demo_tm :: tm" and ?ids = "\<lambda>_. ''140''"
  obtain s where s: "log_reach ?lt ?ids demo_logger demo_world s" "length (order s) = 1"
    "said s 7 = [(1, [ACstr ''n='', AInt 5])]" using demo_log_reach by blast
  have n: "unat (seq demo_world) + length (order s) < 2 ^ 32" "\<not> shutdown demo_logger"
    using s(2) by (simp_all add: demo_world_def demo_logger_def)
  from log_run_refines [OF s(1) demo_fresh n] obtain ls a where
    a: "run_of alog_lstep alog_new ls a" "log_rep s a"
      "recs_of 7 (astored a) = recs_of 7 (aout a) @ recs_of 7 (ataken a) @ astaged a 7"
      "list_all2 (says ?ids 7) (said s 7) (recs_of 7 (astored a))" by blast
  have "length (recs_of 7 (astored a)) = 1" using list_all2_lengthD [OF a(4)] s(3) by simp
  then show ?thesis using s(1) a(1-3) by (intro exI [of _ ls] exI [of _ s] exI [of _ a]) simp
qed

text \<open>The concurrent logger implements the abstract one: every step of any thread of the code is a
  step of the abstract logger or changes nothing that it knows of.\<close>
theorem log_refines:
  assumes "log_reach lt ids lg w s" "log_step lt ids s s'" "fresh_logger lt ids lg w"
    "unat (seq w) + length (order s') < 2 ^ 32"
  shows "abs_log s' = abs_log s \<or> alog_step (abs_log s) (abs_log s')"
proof -
  have n: "unat (seq w) + length (order s) < 2 ^ 32" using log_step_order [OF assms(2)] assms(4) by simp
  show ?thesis
    using log_step_refines [OF assms(2) log_reach_inv [OF assms(1,3) n] _ n]
      log_reach_inv [OF log_reach.step [OF assms(1,2)] assms(3,4)] by blast
qed

lemma log_refines_witness:
  "\<exists>s. log_reach (\<lambda>_. demo_tm) (\<lambda>_. ''140'') demo_logger demo_world s \<and>
     alog_step alog_new (abs_log s) \<and> ashut (abs_log s)"
proof -
  let ?lt = "\<lambda>_. demo_tm :: tm" and ?ids = "\<lambda>_. ''140''" and ?s = "log_start demo_logger demo_world"
  obtain lg w where sh: "Logger_Shutdown [] (lgr ?s) (wld ?s) = (lg, w)" by fastforce
  have st: "log_step ?lt ?ids ?s (?s\<lparr>lgr := lg, wld := w\<rparr>)" by (rule s_shutdown [OF sh])
  have new: "abs_log ?s = alog_new" by (rule log_start_abs) (simp_all add: demo_logger_def)
  have shut: "ashut (abs_log (?s\<lparr>lgr := lg, wld := w\<rparr>))" using shutdown_abs [OF sh] by (simp add: abs_log_def)
  have "unat (seq demo_world) + length (order (?s\<lparr>lgr := lg, wld := w\<rparr>)) < 2 ^ 32"
    by (simp add: log_start_def demo_world_def)
  from log_refines [OF log_reach.start st demo_fresh this] new shut show ?thesis
    using log_reach.step [OF log_reach.start st] by (auto simp: alog_new_def)
qed

end
