(* ===== verification/LogManager.thy ===== *)
theory LogManager
  imports LogSpec
begin

text \<open>
  \<open>LogManager\<close> of netbridge/Logger.h and Logger.cc: \<open>Start\<close>, \<open>Stop\<close>, \<open>CreateLog\<close>, \<open>AddBusyLog\<close> and the IO
  thread in \<open>Run\<close>, as a step relation together with the threads that log. The loggers are the abstract
  ones of LogSpec, which the code's logger refines; \<open>Update\<close> is one step here.
\<close>

section \<open>State\<close>

text \<open>
  The IO thread: none; at the top of the loop; with the busy loggers it has collected, and the flag
  \<open>run\<close>; updating them; past the loop, waiting for \<open>logsMutex_\<close>; draining (the loggers of this pass
  already seen and kept, those still to come), with \<open>logsMutex_\<close> held; ended. The thread in \<open>Stop\<close>:
  none; past the first block; in the loop over \<open>logs_\<close> with \<open>logsMutex_\<close> held; at the join.
\<close>

datatype rphase = RNone | RTop | RBusy "nat list" bool | RUpd "nat list" bool | RFinal
  | RDrain "nat list" "nat list" | REnd
datatype sphase = SIdle | SMarked | SShut "nat list" | SJoin

text \<open>\<open>logs_\<close> and \<open>busyLogs_\<close> hold addresses of loggers, \<open>busyLogs_\<close> in order. Ghosts: the loggers handed
  out by \<open>CreateLog\<close> and the number of calls of \<open>Start\<close>.\<close>

record mgr =
  mshut :: bool
  busyLogs :: "nat list"
  mlogs :: "nat list"
  rph :: rphase
  sph :: sphase
  alogs :: "nat \<Rightarrow> alog"
  made :: "nat set"
  starts :: nat

definition LogManager_new :: mgr where
  "LogManager_new = \<lparr>mshut = True, busyLogs = [], mlogs = [], rph = RNone, sph = SIdle, alogs = (\<lambda>_. alog_new),
     made = {}, starts = 0\<rparr>"

text \<open>Who holds \<open>logsMutex_\<close> from one step to the next.\<close>

definition logs_free :: "mgr \<Rightarrow> bool" where
  "logs_free m \<longleftrightarrow> (case rph m of RDrain _ _ \<Rightarrow> False | _ \<Rightarrow> True) \<and> (case sph m of SShut _ \<Rightarrow> False | _ \<Rightarrow> True)"

section \<open>Operations\<close>

text \<open>Move-assigning to \<open>iothread_\<close> while it is joinable calls \<open>std::terminate\<close>.\<close>

definition mgr_Start :: "mgr \<Rightarrow> mgr res" where
  "mgr_Start m =
     check (mshut m) AssertFail
       (check (rph m = RNone) Terminated
         (Inr (m\<lparr>mshut := False, rph := RTop, starts := Suc (starts m)\<rparr>)))"

definition stop_mark :: "mgr \<Rightarrow> mgr" where
  "stop_mark m = (if mshut m then m else m\<lparr>mshut := True, sph := SMarked\<rparr>)"

text \<open>The loop over \<open>logs_\<close>: one round, or its end.\<close>

definition stop_shut :: "nat list \<Rightarrow> mgr \<Rightarrow> mgr" where
  "stop_shut ls m =
     (case ls of
        l # ls \<Rightarrow> m\<lparr>alogs := (alogs m)(l := a_shutdown (alogs m l)), sph := SShut ls\<rparr>
      | [] \<Rightarrow> m\<lparr>sph := SJoin\<rparr>)"

definition stop_join :: "mgr \<Rightarrow> mgr" where
  "stop_join m = m\<lparr>rph := RNone, sph := SIdle\<rparr>"

definition warning :: "byte list" where
  "warning = ''Warning: Please call LogManager::Start() first'' @ [CHR 0x0A]"

text \<open>\<open>CreateLog\<close>: the address of the new logger, or none for the null logger.\<close>

definition CreateLog ::
  "mkdir_result \<Rightarrow> uint \<Rightarrow> uint \<Rightarrow> byte list option \<Rightarrow> nat \<Rightarrow> mgr \<Rightarrow> World \<Rightarrow> (mgr \<times> World \<times> nat option) res" where
  "CreateLog mk level dst dir l m w =
     res_bind (Logger_Init mk level dst dir Logger_new w) (\<lambda>(lg, w, ok).
       if \<not> ok then Inr (m, w, None)
       else if mshut m then Inr (m, w\<lparr>cerr := cerr w @ warning\<rparr>, None)
       else Inr (m\<lparr>mlogs := mlogs m @ [l], alogs := (alogs m)(l := alog_new), made := insert l (made m)\<rparr>, w, Some l))"

text \<open>\<open>AddBusyLog\<close>, and whether it wakes the IO thread.\<close>

definition AddBusyLog :: "nat \<Rightarrow> mgr \<Rightarrow> mgr \<times> bool" where
  "AddBusyLog l m =
     (if mshut m then (m, False)
      else if l \<notin> set (busyLogs m) then (m\<lparr>busyLogs := insort l (busyLogs m)\<rparr>, True)
      else (m, False))"

text \<open>The critical section of \<open>Run\<close> after the wait, which ends within a millisecond.\<close>

definition run_collect :: "mgr \<Rightarrow> mgr" where
  "run_collect m = m\<lparr>busyLogs := [], rph := RBusy (busyLogs m) (\<not> mshut m)\<rparr>"

definition run_all :: "nat list \<Rightarrow> bool \<Rightarrow> mgr \<Rightarrow> mgr" where
  "run_all tmpBusy run m = m\<lparr>rph := RUpd (if tmpBusy = [] then mlogs m else tmpBusy) run\<rparr>"

text \<open>\<open>Update\<close> of a logger that has the records of the threads \<open>ks\<close> to take, and its result.\<close>

definition a_update :: "nat list \<Rightarrow> alog \<Rightarrow> alog \<times> bool" where
  "a_update ks a = (let a = a_take ks a in (a_write (length (ataken a)) a, ainside a \<noteq> {}))"

definition run_update :: "nat list \<Rightarrow> nat \<Rightarrow> nat list \<Rightarrow> bool \<Rightarrow> mgr \<Rightarrow> mgr" where
  "run_update ks l ls run m =
     m\<lparr>alogs := (alogs m)(l := fst (a_update ks (alogs m l))), rph := RUpd ls run\<rparr>"

definition run_next :: "bool \<Rightarrow> mgr \<Rightarrow> mgr" where
  "run_next run m = m\<lparr>rph := (if run then RTop else RFinal)\<rparr>"

definition run_lock :: "mgr \<Rightarrow> mgr res" where
  "run_lock m = check (mshut m) AssertFail (Inr (m\<lparr>rph := RDrain [] (mlogs m)\<rparr>))"

text \<open>One round of the inner loop of the drain, and what follows its end.\<close>

definition drain_one :: "nat list \<Rightarrow> nat list \<Rightarrow> nat \<Rightarrow> nat list \<Rightarrow> mgr \<Rightarrow> mgr" where
  "drain_one ks kept l ls m =
     (let (a, todo) = a_update ks (alogs m l); m = m\<lparr>alogs := (alogs m)(l := a)\<rparr> in
      if \<not> todo then m\<lparr>mlogs := kept @ ls, rph := RDrain kept ls\<rparr>
      else m\<lparr>rph := RDrain (kept @ [l]) ls\<rparr>)"

definition drain_next :: "mgr \<Rightarrow> mgr" where
  "drain_next m = m\<lparr>rph := (if mlogs m \<noteq> [] then RDrain [] (mlogs m) else REnd)\<rparr>"

text \<open>
  \<open>InitDebugLog\<close> of Debug.cc: under \<open>call_once\<close>, \<open>g_debug\<close> gets a logger of the manager: null before, then
  the null logger or one with an address.
\<close>

record debug_log =
  g_debug :: "nat option option"
  g_logInit :: bool

definition debug_start :: debug_log where
  "debug_start = \<lparr>g_debug = None, g_logInit = False\<rparr>"

definition InitDebugLog ::
  "mkdir_result \<Rightarrow> uint \<Rightarrow> nat \<Rightarrow> debug_log \<Rightarrow> mgr \<Rightarrow> World \<Rightarrow> (debug_log \<times> mgr \<times> World) res" where
  "InitDebugLog mk level l d m w =
     (if g_logInit d then Inr (d, m, w)
      else res_bind (CreateLog mk level logFile (Some ''nb_debug_log'') l m w) (\<lambda>(m, w, r).
        Inr (\<lparr>g_debug = Some r, g_logInit = True\<rparr>, m, w)))"

text \<open>Called before the manager is started it settles for the null logger, and no later call changes that.\<close>

lemma InitDebugLog_early:
  assumes "InitDebugLog mk level l debug_start m w = Inr (d, m', w')" "mshut m"
  shows "g_debug d = Some None" "InitDebugLog mk2 level2 l2 d m2 w2 = Inr (d, m2, w2)"
  using assms by (auto simp: InitDebugLog_def debug_start_def CreateLog_def res_bind_Inr split: if_splits)

section \<open>Steps\<close>

text \<open>A step of a thread that logs to logger \<open>l\<close>: entering, storing, leaving.\<close>

inductive client_step :: "alog \<Rightarrow> alog \<Rightarrow> bool" where
  enter: "\<not> ashut a \<Longrightarrow> k \<notin> ainside a \<Longrightarrow> client_step a (a_enter k a)"
| store: "k \<in> ainside a \<Longrightarrow> client_step a (a_store k r a)"
| leave: "k \<in> ainside a \<Longrightarrow> client_step a (a_leave k a)"

text \<open>A step of the IO thread or of the thread in \<open>Stop\<close>.\<close>

inductive own_step :: "mgr \<Rightarrow> mgr \<Rightarrow> bool" where
  stop_lock: "sph m = SMarked \<Longrightarrow> logs_free m \<Longrightarrow> own_step m (m\<lparr>sph := SShut (mlogs m)\<rparr>)"
| stop_one: "sph m = SShut ls \<Longrightarrow> own_step m (stop_shut ls m)"
| stop_end: "sph m = SJoin \<Longrightarrow> rph m = RNone \<or> rph m = REnd \<Longrightarrow> own_step m (stop_join m)"
| collect: "rph m = RTop \<Longrightarrow> own_step m (run_collect m)"
| all: "rph m = RBusy ls run \<Longrightarrow> ls = [] \<longrightarrow> logs_free m \<Longrightarrow> own_step m (run_all ls run m)"
| upd: "rph m = RUpd (l # ls) run \<Longrightarrow> takes_all (alogs m l) ks \<Longrightarrow> own_step m (run_update ks l ls run m)"
| nxt: "rph m = RUpd [] run \<Longrightarrow> own_step m (run_next run m)"
| lock: "rph m = RFinal \<Longrightarrow> logs_free m \<Longrightarrow> run_lock m = Inr m' \<Longrightarrow> own_step m m'"
| drain: "rph m = RDrain kept (l # ls) \<Longrightarrow> takes_all (alogs m l) ks \<Longrightarrow> own_step m (drain_one ks kept l ls m)"
| pass: "rph m = RDrain kept [] \<Longrightarrow> own_step m (drain_next m)"

inductive mgr_step :: "mgr \<Rightarrow> mgr \<Rightarrow> bool" where
  own: "own_step m m' \<Longrightarrow> mgr_step m m'"
| start: "mgr_Start m = Inr m' \<Longrightarrow> mgr_step m m'"
| stop: "sph m = SIdle \<Longrightarrow> mgr_step m (stop_mark m)"
| create: "l \<notin> made m \<Longrightarrow> logs_free m \<Longrightarrow> CreateLog mk level dst dir l m w = Inr (m', w', r) \<Longrightarrow> mgr_step m m'"
| client: "l \<in> made m \<Longrightarrow> client_step (alogs m l) a \<Longrightarrow> mgr_step m (m\<lparr>alogs := (alogs m)(l := a)\<rparr>)"
| busy: "l \<in> made m \<Longrightarrow> mgr_step m (fst (AddBusyLog l m))"

inductive mgr_reach :: "mgr \<Rightarrow> bool" where
  init: "mgr_reach LogManager_new"
| step: "mgr_reach m \<Longrightarrow> mgr_step m m' \<Longrightarrow> mgr_reach m'"

section \<open>Invariants\<close>

text \<open>Of each logger: no record is lost, and \<open>Update\<close> leaves nothing behind that it has taken.\<close>

definition logs_ok :: "mgr \<Rightarrow> bool" where
  "logs_ok m \<longleftrightarrow> (\<forall>l. alog_ok (alogs m l) \<and> ataken (alogs m l) = [])"

text \<open>The phases of the IO thread and of \<open>Stop\<close> against \<open>shutdown_\<close> and \<open>logs_\<close>.\<close>

definition rph_ok :: "rphase \<Rightarrow> bool \<Rightarrow> nat list \<Rightarrow> bool" where
  "rph_ok p down ls \<longleftrightarrow> (case p of RTop \<Rightarrow> True | RBusy _ run \<Rightarrow> run \<or> down | RUpd _ run \<Rightarrow> run \<or> down
     | RDrain kept rest \<Rightarrow> down \<and> ls = kept @ rest | _ \<Rightarrow> down)"

definition sph_ok :: "sphase \<Rightarrow> rphase \<Rightarrow> bool \<Rightarrow> nat list \<Rightarrow> bool" where
  "sph_ok p r down ls \<longleftrightarrow> (case p of SIdle \<Rightarrow> True
     | SShut xs \<Rightarrow> down \<and> r \<noteq> RNone \<and> set xs \<subseteq> set ls \<and> (\<forall>kept rest. r \<noteq> RDrain kept rest)
     | _ \<Rightarrow> down \<and> r \<noteq> RNone)"

definition locks_ok :: "mgr \<Rightarrow> bool" where
  "locks_ok m \<longleftrightarrow> rph_ok (rph m) (mshut m) (mlogs m) \<and> sph_ok (sph m) (rph m) (mshut m) (mlogs m) \<and>
     set (mlogs m) \<subseteq> made m"

text \<open>A logger that was shut down and has been removed from \<open>logs_\<close> is empty.\<close>

definition emptied :: "alog \<Rightarrow> bool" where
  "emptied a \<longleftrightarrow> ainside a = {} \<and> (\<forall>k. astaged a k = [])"

definition stopped_ok :: "mgr \<Rightarrow> bool" where
  "stopped_ok m \<longleftrightarrow> (\<forall>l. l \<notin> set (mlogs m) \<and> ashut (alogs m l) \<longrightarrow> emptied (alogs m l))"

text \<open>Up to the drain of a manager that is started once, every logger handed out is in \<open>logs_\<close>.\<close>

definition collected :: "rphase \<Rightarrow> nat list" where
  "collected p = (case p of RBusy ls _ \<Rightarrow> ls | RUpd ls _ \<Rightarrow> ls | _ \<Rightarrow> [])"

definition running :: "rphase \<Rightarrow> bool" where
  "running p = (case p of RTop \<Rightarrow> True | RBusy _ _ \<Rightarrow> True | RUpd _ _ \<Rightarrow> True | RFinal \<Rightarrow> True | _ \<Rightarrow> False)"

definition owned_ok :: "mgr \<Rightarrow> bool" where
  "owned_ok m \<longleftrightarrow> (starts m = 0 \<longrightarrow> rph m = RNone \<and> made m = {} \<and> busyLogs m = []) \<and>
     (starts m = 1 \<and> running (rph m) \<longrightarrow>
        made m \<subseteq> set (mlogs m) \<and> set (busyLogs m) \<subseteq> set (mlogs m) \<and> set (collected (rph m)) \<subseteq> set (mlogs m))"

lemma a_ops_fields [simp]:
  "ashut (a_enter k a) = ashut a" "ataken (a_enter k a) = ataken a"
  "ashut (a_store k r a) = ashut a" "ataken (a_store k r a) = ataken a"
  "ashut (a_leave k a) = ashut a" "ataken (a_leave k a) = ataken a"
  "ataken (a_shutdown a) = ataken a" "ainside (a_shutdown a) = ainside a" "astaged (a_shutdown a) = astaged a"
  "ashut (a_shutdown a)" "\<not> ashut alog_new" "ataken alog_new = []"
  by (simp_all add: a_enter_def a_store_def a_leave_def a_shutdown_def alog_new_def)

lemma a_update_simps [simp]:
  "ashut (fst (a_update ks a)) = ashut a" "ainside (fst (a_update ks a)) = ainside a"
  "snd (a_update ks a) = (ainside a \<noteq> {})" "ataken (fst (a_update ks a)) = []"
  "astored (fst (a_update ks a)) = astored a"
  "astaged (fst (a_update ks a)) k = (if k \<in> ainside a then astaged a k else [])"
  by (simp_all add: a_update_def a_take_def a_write_def)

lemma a_update_ok: "alog_ok a \<Longrightarrow> ataken a = [] \<Longrightarrow> takes_all a ks \<Longrightarrow> alog_ok (fst (a_update ks a))"
  using alog_ok_ops(5) [OF alog_ok_take] by (simp add: a_update_def Let_def)

lemma logs_ok_upd:
  "logs_ok m \<Longrightarrow> alog_ok a \<Longrightarrow> ataken a = [] \<Longrightarrow> alogs m' = (alogs m)(l := a) \<Longrightarrow> logs_ok m'"
  by (simp add: logs_ok_def)

lemma logs_ok_same: "logs_ok m \<Longrightarrow> alogs m' = alogs m \<Longrightarrow> logs_ok m'"
  by (simp add: logs_ok_def)

lemma logs_okD: "logs_ok m \<Longrightarrow> alog_ok (alogs m l) \<and> ataken (alogs m l) = []"
  by (simp add: logs_ok_def)

lemma client_step_ok:
  assumes "client_step a a'" "alog_ok a" "ataken a = []"
  shows "alog_ok a' \<and> ataken a' = [] \<and> ashut a' = ashut a \<and> (ashut a \<and> emptied a \<longrightarrow> False)"
  using assms
  by (induction rule: client_step.induct)
    (auto simp: alog_ok_ops emptied_def)

lemma CreateLog_cases:
  assumes "CreateLog mk level dst dir l m w = Inr (m', w', r)"
  shows "m' = m \<or> \<not> mshut m \<and>
    m' = m\<lparr>mlogs := mlogs m @ [l], alogs := (alogs m)(l := alog_new), made := insert l (made m)\<rparr>"
  using assms by (auto simp: CreateLog_def res_bind_Inr split: if_splits)

lemma own_logs_ok: "own_step m m' \<Longrightarrow> logs_ok m \<Longrightarrow> logs_ok m'"
proof (induction rule: own_step.induct)
  case (stop_one m ls)
  show ?case
  proof (cases ls)
    case Nil
    then show ?thesis using stop_one(2) by (intro logs_ok_same [OF stop_one(2)]) (simp add: stop_shut_def)
  next
    case (Cons l ls')
    then show ?thesis using logs_okD [OF stop_one(2)]
      by (intro logs_ok_upd [OF stop_one(2), of "a_shutdown (alogs m l)" _ l]) (simp_all add: stop_shut_def alog_ok_ops)
  qed
next
  case (upd m l ls run ks)
  then show ?case using logs_okD [OF upd(3)]
    by (intro logs_ok_upd [OF upd(3), of "fst (a_update ks (alogs m l))" _ l])
      (simp_all add: a_update_ok run_update_def)
next
  case (drain m kept l ls ks)
  then show ?case using logs_okD [OF drain(3)]
    by (intro logs_ok_upd [OF drain(3), of "fst (a_update ks (alogs m l))" _ l])
      (simp_all add: a_update_ok drain_one_def split_beta Let_def)
qed (auto simp: logs_ok_def stop_join_def run_collect_def run_all_def run_next_def run_lock_def drain_next_def
    check_Inr)

lemma mgr_logs_ok: "mgr_step m m' \<Longrightarrow> logs_ok m \<Longrightarrow> logs_ok m'"
proof (induction rule: mgr_step.induct)
  case (own m m')
  then show ?case using own_logs_ok by blast
next
  case (create l m mk level dst dir w m' w' r)
  from CreateLog_cases [OF create(3)] create(4) show ?case
    using logs_ok_upd [of m alog_new m' l] alog_ok_new by (auto simp: alog_new_def)
next
  case (client l m a)
  then show ?case using client_step_ok [OF client(2)] logs_okD [OF client(3)]
    by (intro logs_ok_upd [OF client(3), of a _ l]) auto
qed (auto simp: logs_ok_def mgr_Start_def stop_mark_def AddBusyLog_def check_Inr)

lemmas own_defs = stop_shut_def stop_join_def run_collect_def run_all_def run_update_def run_next_def run_lock_def
  drain_one_def drain_next_def

lemma own_locks_ok: "own_step m m' \<Longrightarrow> locks_ok m \<Longrightarrow> locks_ok m'"
proof (induction rule: own_step.induct)
  case (stop_lock m)
  then show ?case
    by (cases "rph m") (simp_all add: locks_ok_def rph_ok_def sph_ok_def logs_free_def)
next
  case (stop_one m ls)
  then show ?case by (cases ls) (auto simp: locks_ok_def sph_ok_def own_defs)
next
  case (stop_end m)
  then show ?case by (auto simp: locks_ok_def rph_ok_def sph_ok_def own_defs)
next
  case (collect m)
  then show ?case by (cases "sph m") (auto simp: locks_ok_def rph_ok_def sph_ok_def own_defs)
next
  case (all m ls run)
  then show ?case by (cases "sph m") (auto simp: locks_ok_def rph_ok_def sph_ok_def own_defs)
next
  case (upd m l ls run ks)
  then show ?case by (cases "sph m") (auto simp: locks_ok_def rph_ok_def sph_ok_def own_defs)
next
  case (nxt m run)
  then show ?case by (cases "sph m") (auto simp: locks_ok_def rph_ok_def sph_ok_def own_defs)
next
  case (lock m m')
  then show ?case
    by (cases "sph m") (auto simp: locks_ok_def rph_ok_def sph_ok_def own_defs logs_free_def check_Inr)
next
  case (drain m kept l ls ks)
  then show ?case
    by (cases "sph m") (auto simp: locks_ok_def rph_ok_def sph_ok_def own_defs split_beta Let_def)
next
  case (pass m kept)
  then show ?case by (cases "sph m") (auto simp: locks_ok_def rph_ok_def sph_ok_def own_defs)
qed

lemma mgr_locks_ok: "mgr_step m m' \<Longrightarrow> locks_ok m \<Longrightarrow> locks_ok m'"
proof (induction rule: mgr_step.induct)
  case (own m m')
  then show ?case using own_locks_ok by blast
next
  case (start m m')
  then show ?case by (cases "sph m") (auto simp: locks_ok_def rph_ok_def sph_ok_def mgr_Start_def check_Inr)
next
  case (stop m)
  then show ?case
    by (cases "rph m") (auto simp: locks_ok_def rph_ok_def sph_ok_def stop_mark_def)
next
  case (create l m mk level dst dir w m' w' r)
  from CreateLog_cases [OF create(3)] consider "m' = m" | "\<not> mshut m"
    "m' = m\<lparr>mlogs := mlogs m @ [l], alogs := (alogs m)(l := alog_new), made := insert l (made m)\<rparr>" by blast
  then show ?case
  proof cases
    case 2
    then have "sph m = SIdle" using create(4) by (cases "sph m") (simp_all add: locks_ok_def sph_ok_def)
    then show ?thesis using 2 create(4)
      by (cases "rph m") (auto simp: locks_ok_def rph_ok_def sph_ok_def)
  qed (use create(4) in simp)
next
  case (client l m a)
  then show ?case by (simp add: locks_ok_def)
next
  case (busy l m)
  then show ?case by (cases "mshut m") (simp_all add: locks_ok_def AddBusyLog_def)
qed

lemma own_stopped_ok: "own_step m m' \<Longrightarrow> locks_ok m \<Longrightarrow> stopped_ok m \<Longrightarrow> stopped_ok m'"
proof (induction rule: own_step.induct)
  case (stop_one m ls)
  then show ?case
    by (cases ls) (auto simp: stopped_ok_def own_defs locks_ok_def sph_ok_def)
next
  case (upd m l ls run ks)
  then show ?case by (auto simp: stopped_ok_def own_defs emptied_def)
next
  case (drain m kept l ls ks)
  have "mlogs m = kept @ l # ls" using drain(1,3) by (simp add: locks_ok_def rph_ok_def)
  then show ?case using drain(4) by (auto simp: stopped_ok_def own_defs emptied_def split_beta Let_def)
qed (auto simp: stopped_ok_def own_defs check_Inr)

lemma mgr_stopped_ok: "mgr_step m m' \<Longrightarrow> locks_ok m \<Longrightarrow> stopped_ok m \<Longrightarrow> logs_ok m \<Longrightarrow> stopped_ok m'"
proof (induction rule: mgr_step.induct)
  case (own m m')
  then show ?case using own_stopped_ok by blast
next
  case (create l m mk level dst dir w m' w' r)
  from CreateLog_cases [OF create(3)] create(5) show ?case by (auto simp: stopped_ok_def)
next
  case (client l m a)
  then show ?case
    using client_step_ok [OF client(2)] logs_okD [OF client(5), of l] by (auto simp: stopped_ok_def)
qed (auto simp: stopped_ok_def mgr_Start_def stop_mark_def AddBusyLog_def check_Inr)

lemma own_owned_ok: "own_step m m' \<Longrightarrow> locks_ok m \<Longrightarrow> owned_ok m \<Longrightarrow> owned_ok m'"
proof (induction rule: own_step.induct)
  case (stop_one m ls)
  then show ?case by (cases ls) (auto simp: owned_ok_def own_defs)
next
  case (stop_end m)
  then show ?case by (auto simp: owned_ok_def own_defs running_def)
next
  case (collect m)
  then show ?case by (auto simp: owned_ok_def own_defs running_def collected_def)
next
  case (all m ls run)
  then show ?case by (auto simp: owned_ok_def own_defs running_def collected_def)
next
  case (upd m l ls run ks)
  then show ?case by (auto simp: owned_ok_def own_defs running_def collected_def)
next
  case (nxt m run)
  then show ?case by (auto simp: owned_ok_def own_defs running_def collected_def)
next
  case (lock m m')
  then show ?case by (auto simp: owned_ok_def own_defs running_def check_Inr)
next
  case (drain m kept l ls ks)
  then show ?case by (auto simp: owned_ok_def own_defs running_def split_beta Let_def)
next
  case (pass m kept)
  then show ?case by (auto simp: owned_ok_def own_defs running_def)
qed (auto simp: owned_ok_def)

lemma mgr_owned_ok: "mgr_step m m' \<Longrightarrow> locks_ok m \<Longrightarrow> owned_ok m \<Longrightarrow> owned_ok m'"
proof (induction rule: mgr_step.induct)
  case (own m m')
  then show ?case using own_owned_ok by blast
next
  case (start m m')
  then have s: "rph m = RNone" "m' = m\<lparr>mshut := False, rph := RTop, starts := Suc (starts m)\<rparr>"
    by (auto simp: mgr_Start_def check_Inr)
  show ?case
  proof (cases "starts m = 0")
    case True
    then show ?thesis using s start(3) by (simp add: owned_ok_def collected_def)
  next
    case False
    then show ?thesis using s by (simp add: owned_ok_def)
  qed
next
  case (stop m)
  then show ?case by (auto simp: owned_ok_def stop_mark_def)
next
  case (create l m mk level dst dir w m' w' r)
  from CreateLog_cases [OF create(3)] create(4,5) show ?case
    by (cases "rph m") (auto simp: owned_ok_def locks_ok_def rph_ok_def)
next
  case (client l m a)
  then show ?case by (simp add: owned_ok_def)
next
  case (busy l m)
  show ?case
  proof (cases "mshut m \<or> l \<in> set (busyLogs m)")
    case True
    then have "fst (AddBusyLog l m) = m" by (auto simp: AddBusyLog_def)
    with busy(3) show ?thesis by simp
  next
    case False
    then have e: "fst (AddBusyLog l m) = m\<lparr>busyLogs := insort l (busyLogs m)\<rparr>" by (simp add: AddBusyLog_def)
    have "starts m \<noteq> 0" using busy(1,3) by (auto simp: owned_ok_def)
    then show ?thesis using busy(1,3) unfolding e owned_ok_def by (auto simp: set_insort_key)
  qed
qed

lemma reach_mgr_ok: "mgr_reach m \<Longrightarrow> logs_ok m \<and> locks_ok m \<and> stopped_ok m \<and> owned_ok m"
proof (induction rule: mgr_reach.induct)
  case init
  then show ?case
    using alog_ok_new
    by (simp add: LogManager_new_def logs_ok_def locks_ok_def rph_ok_def sph_ok_def stopped_ok_def owned_ok_def
        running_def)
next
  case (step m m')
  then show ?case using mgr_logs_ok mgr_locks_ok mgr_stopped_ok mgr_owned_ok by blast
qed

text \<open>\<open>Update\<close> can always run: the waiting threads are finitely many.\<close>

lemma takes_all_exists: "alog_ok a \<Longrightarrow> \<exists>ks. takes_all a ks"
proof -
  assume "alog_ok a"
  then have "finite {k. k \<notin> ainside a \<and> astaged a k \<noteq> []}" by (simp add: alog_ok_def)
  then obtain ks where "set ks = {k. k \<notin> ainside a \<and> astaged a k \<noteq> []}" "distinct ks"
    using finite_distinct_list by blast
  then have "takes_all a ks" by (auto simp: takes_all_def)
  then show ?thesis ..
qed

lemma run_can_move:
  assumes "logs_ok m" "locks_ok m" and r: "rph m \<noteq> RNone" "rph m \<noteq> REnd" and f: "\<forall>xs. sph m \<noteq> SShut xs"
  shows "\<exists>m'. own_step m m'"
proof (cases "rph m")
  case RTop
  then show ?thesis using collect by blast
next
  case (RBusy ls run)
  have "logs_free m" using RBusy f by (cases "sph m") (simp_all add: logs_free_def)
  then show ?thesis using all [OF RBusy] by blast
next
  case (RUpd ls run)
  show ?thesis
  proof (cases ls)
    case Nil
    then show ?thesis using nxt [of m run] RUpd by blast
  next
    case (Cons l ls')
    then show ?thesis using upd [of m l ls' run] RUpd takes_all_exists [of "alogs m l"] logs_okD [OF assms(1)]
      by blast
  qed
next
  case RFinal
  have "logs_free m" using RFinal f by (cases "sph m") (simp_all add: logs_free_def)
  moreover have "mshut m" using RFinal assms(2) by (simp add: locks_ok_def rph_ok_def)
  then have "\<exists>m'. run_lock m = Inr m'" by (simp add: run_lock_def)
  ultimately show ?thesis using lock [OF RFinal] by blast
next
  case (RDrain kept ls)
  show ?thesis
  proof (cases ls)
    case Nil
    then show ?thesis using pass [of m kept] RDrain by blast
  next
    case (Cons l ls')
    then show ?thesis using drain [of m kept l ls'] RDrain takes_all_exists [of "alogs m l"] logs_okD [OF assms(1)]
      by blast
  qed
qed (use r in simp_all)

section \<open>Two runs\<close>

text \<open>A manager that has been started once and has one logger, at address 5.\<close>

definition demo_mgr :: "bool \<Rightarrow> nat list \<Rightarrow> rphase \<Rightarrow> sphase \<Rightarrow> alog \<Rightarrow> mgr" where
  "demo_mgr down ls r p a = \<lparr>mshut = down, busyLogs = [], mlogs = ls, rph = r, sph = p,
     alogs = (\<lambda>_. alog_new)(5 := a), made = {5}, starts = 1\<rparr>"

definition demo_stored :: alog where
  "demo_stored = a_leave 7 (a_store 7 (1, ''x'') (a_enter 7 alog_new))"

lemma demo_mgr_fields [simp]:
  "mshut (demo_mgr down ls r p a) = down" "busyLogs (demo_mgr down ls r p a) = []"
  "mlogs (demo_mgr down ls r p a) = ls" "rph (demo_mgr down ls r p a) = r" "sph (demo_mgr down ls r p a) = p"
  "alogs (demo_mgr down ls r p a) 5 = a" "made (demo_mgr down ls r p a) = {5}" "starts (demo_mgr down ls r p a) = 1"
  by (simp_all add: demo_mgr_def)

lemma demo_mgr_upd [simp]:
  "(demo_mgr down ls r p a)\<lparr>rph := r'\<rparr> = demo_mgr down ls r' p a"
  "(demo_mgr down ls r p a)\<lparr>sph := p'\<rparr> = demo_mgr down ls r p' a"
  "(demo_mgr down ls r p a)\<lparr>rph := r', sph := p'\<rparr> = demo_mgr down ls r' p' a"
  "(demo_mgr down ls r p a)\<lparr>mlogs := ls', rph := r'\<rparr> = demo_mgr down ls' r' p a"
  "(demo_mgr down ls r p a)\<lparr>mshut := True, sph := p'\<rparr> = demo_mgr True ls r p' a"
  "(demo_mgr down ls r p a)\<lparr>busyLogs := [], rph := r'\<rparr> = demo_mgr down ls r' p a"
  "(demo_mgr down ls r p a)\<lparr>alogs := (alogs (demo_mgr down ls r p a))(5 := a')\<rparr> = demo_mgr down ls r p a'"
  "(demo_mgr down ls r p a)\<lparr>alogs := (alogs (demo_mgr down ls r p a))(5 := a'), rph := r'\<rparr> = demo_mgr down ls r' p a'"
  "(demo_mgr down ls r p a)\<lparr>alogs := (alogs (demo_mgr down ls r p a))(5 := a'), sph := p'\<rparr> = demo_mgr down ls r p' a'"
  "(demo_mgr down ls r p a)\<lparr>alogs := (alogs (demo_mgr down ls r p a))(5 := a'), mlogs := ls', rph := r'\<rparr> =
     demo_mgr down ls' r' p a'"
  by (simp_all add: demo_mgr_def)

lemma demo_made: "mgr_reach (demo_mgr False [5] RTop SIdle alog_new)"
proof -
  have "mgr_Start LogManager_new = Inr (LogManager_new\<lparr>mshut := False, rph := RTop, starts := 1\<rparr>)"
    by (simp add: mgr_Start_def LogManager_new_def)
  from mgr_reach.step [OF mgr_reach.init mgr_step.start [OF this]]
  have 1: "mgr_reach (LogManager_new\<lparr>mshut := False, rph := RTop, starts := 1\<rparr>)" (is "mgr_reach ?m") .
  have "CreateLog MkdirOk 1 1 None 5 ?m demo_world = Inr (demo_mgr False [5] RTop SIdle alog_new, demo_world, Some 5)"
    by (simp add: CreateLog_def Logger_Init_def strip_slash_def LogManager_new_def demo_mgr_def logFile_def
        logConsole_def)
  from mgr_reach.step [OF 1 mgr_step.create [OF _ _ this]] show ?thesis
    by (simp add: LogManager_new_def logs_free_def)
qed

lemma demo_client:
  assumes "mgr_reach (demo_mgr down ls r p a)" "client_step a a'"
  shows "mgr_reach (demo_mgr down ls r p a')"
  using mgr_reach.step [OF assms(1) mgr_step.client [of 5 _ a']] assms(2) by simp

lemma demo_store:
  assumes "mgr_reach (demo_mgr down ls r p alog_new)"
  shows "mgr_reach (demo_mgr down ls r p demo_stored)"
proof -
  have 1: "client_step alog_new (a_enter 7 alog_new)" by (rule enter) (simp_all add: alog_new_def)
  have 2: "client_step (a_enter 7 alog_new) (a_store 7 (1, ''x'') (a_enter 7 alog_new))"
    by (rule store) (simp add: a_enter_def)
  have 3: "client_step (a_store 7 (1, ''x'') (a_enter 7 alog_new)) demo_stored"
    unfolding demo_stored_def by (rule leave) (simp add: a_enter_def a_store_def)
  show ?thesis by (rule demo_client [OF demo_client [OF demo_client [OF assms 1] 2] 3])
qed

lemma demo_own:
  assumes "mgr_reach m" "own_step m m'"
  shows "mgr_reach m'"
  using mgr_reach.step [OF assms(1) mgr_step.own [OF assms(2)]] .

lemma demo_marked: "mgr_reach (demo_mgr False [5] RTop SIdle a) \<Longrightarrow> mgr_reach (demo_mgr True [5] RTop SMarked a)"
  using mgr_reach.step [OF _ mgr_step.stop, of "demo_mgr False [5] RTop SIdle a"] by (simp add: stop_mark_def)

text \<open>The IO thread's last round and its drain, for a logger with nobody inside.\<close>

lemma demo_drain:
  assumes r: "mgr_reach (demo_mgr True [5] RTop p a)" and p: "p = SMarked \<or> p = SJoin"
    and a: "ainside a = {}" "takes_all a ks" "takes_all (fst (a_update ks a)) []"
  shows "mgr_reach (demo_mgr True [] REnd p (fst (a_update [] (fst (a_update ks a)))))"
proof -
  let ?a = "fst (a_update ks a)"
  have free: "logs_free (demo_mgr True [5] RFinal p b)" "logs_free (demo_mgr True [5] (RBusy [] False) p b)" for b
    using p by (auto simp: logs_free_def)
  from demo_own [OF r collect] have "mgr_reach (demo_mgr True [5] (RBusy [] False) p a)"
    by (simp add: run_collect_def)
  from demo_own [OF this all [of _ "[]" False]] free have "mgr_reach (demo_mgr True [5] (RUpd [5] False) p a)"
    by (simp add: run_all_def)
  from demo_own [OF this upd [of _ 5 "[]" False ks]] a have "mgr_reach (demo_mgr True [5] (RUpd [] False) p ?a)"
    by (simp add: run_update_def)
  from demo_own [OF this nxt [of _ False]] have "mgr_reach (demo_mgr True [5] RFinal p ?a)"
    by (simp add: run_next_def)
  from demo_own [OF this lock] free have "mgr_reach (demo_mgr True [5] (RDrain [] [5]) p ?a)"
    by (simp add: run_lock_def)
  from demo_own [OF this drain [of _ "[]" 5 "[]" "[]"]] a
  have "mgr_reach (demo_mgr True [] (RDrain [] []) p (fst (a_update [] ?a)))"
    by (simp add: drain_one_def split_beta Let_def)
  from demo_own [OF this pass [of _ "[]"]] show ?thesis by (simp add: drain_next_def)
qed

lemma demo_complete:
  "\<exists>a. mgr_reach (demo_mgr True [] REnd SJoin a) \<and> ashut a \<and> astored a = [(7, (1, ''x''))]"
proof -
  let ?a = "a_shutdown demo_stored"
  have "mgr_reach (demo_mgr True [5] RTop SMarked demo_stored)"
    by (rule demo_marked [OF demo_store [OF demo_made]])
  from demo_own [OF this stop_lock] have "mgr_reach (demo_mgr True [5] RTop (SShut [5]) demo_stored)"
    by (simp add: logs_free_def)
  from demo_own [OF this stop_one [of _ "[5]"]] have "mgr_reach (demo_mgr True [5] RTop (SShut []) ?a)"
    by (simp add: stop_shut_def)
  from demo_own [OF this stop_one [of _ "[]"]] have r: "mgr_reach (demo_mgr True [5] RTop SJoin ?a)"
    by (simp add: stop_shut_def)
  have i: "ainside ?a = {}" "astaged ?a = (\<lambda>_. [])(7 := [(1, ''x'')])" "astored ?a = [(7, (1, ''x''))]"
    by (auto simp: demo_stored_def a_enter_def a_store_def a_leave_def a_shutdown_def alog_new_def)
  have "takes_all ?a [7]" "takes_all (fst (a_update [7] ?a)) []" using i by (auto simp: takes_all_def)
  from demo_drain [OF r _ i(1) this] i(3) show ?thesis
    by (intro exI [of _ "fst (a_update [] (fst (a_update [7] ?a)))"]) simp
qed

section \<open>Properties\<close>

lemma removed_complete:
  assumes "mgr_reach m" "l \<notin> set (mlogs m)" "ashut (alogs m l)"
  shows "ainside (alogs m l) = {} \<and> (\<forall>k. recs_of k (aout (alogs m l)) = recs_of k (astored (alogs m l)))"
proof -
  from reach_mgr_ok [OF assms(1)] have ok: "logs_ok m" "stopped_ok m" by blast+
  have e: "emptied (alogs m l)" using ok(2) assms(2,3) by (simp add: stopped_ok_def)
  have "recs_of k (aout (alogs m l)) @ recs_of k (ataken (alogs m l)) @ astaged (alogs m l) k =
      recs_of k (astored (alogs m l))" for k
    using logs_okD [OF ok(1), of l] unfolding alog_ok_def by blast
  then show ?thesis using e logs_okD [OF ok(1), of l] by (simp add: emptied_def)
qed

text \<open>A logger that Stop has shut down and that the IO thread has removed from its list is complete:
  no thread is inside Flush, nothing waits, and every record ever stored in it has been written, for
  each thread in the order of storing.\<close>
theorem log_manager_complete:
  assumes "mgr_reach m" "l \<notin> set (mlogs m)" "ashut (alogs m l)"
  shows "ainside (alogs m l) = {} \<and> (\<forall>k. recs_of k (aout (alogs m l)) = recs_of k (astored (alogs m l)))"
  by (rule removed_complete [OF assms])

lemma log_manager_complete_witness:
  "\<exists>m. mgr_reach m \<and> sph m = SJoin \<and> recs_of 7 (aout (alogs m 5)) = [(1, ''x'')]"
proof -
  obtain a where a: "mgr_reach (demo_mgr True [] REnd SJoin a)" "ashut a" "astored a = [(7, (1, ''x''))]"
    using demo_complete by blast
  have "5 \<notin> set (mlogs (demo_mgr True [] REnd SJoin a))" "ashut (alogs (demo_mgr True [] REnd SJoin a) 5)"
    using a(2) by simp_all
  from log_manager_complete [OF a(1) this] a show ?thesis
    by (intro exI [of _ "demo_mgr True [] REnd SJoin a"]) simp
qed

text \<open>In a program that starts the manager once, the IO thread calls Update only on loggers that are
  still in the manager's list, which keeps them alive.\<close>
theorem log_manager_owned:
  assumes "mgr_reach m" "starts m \<le> 1" "rph m = RUpd (l # ls) run"
  shows "l \<in> set (mlogs m)"
proof -
  have o: "owned_ok m" using reach_mgr_ok [OF assms(1)] by blast
  then have "starts m \<noteq> 0" using assms(3) by (auto simp: owned_ok_def)
  then show ?thesis using o assms(2,3) by (simp add: owned_ok_def running_def collected_def)
qed

lemma log_manager_owned_witness:
  "\<exists>m. mgr_reach m \<and> rph m = RUpd [5] True \<and> 5 \<in> set (mlogs m)"
proof -
  from demo_own [OF demo_made collect] have "mgr_reach (demo_mgr False [5] (RBusy [] True) SIdle alog_new)"
    by (simp add: run_collect_def)
  from demo_own [OF this all [of _ "[]" True]] have "mgr_reach (demo_mgr False [5] (RUpd [5] True) SIdle alog_new)"
    (is "mgr_reach ?m") by (simp add: run_all_def logs_free_def)
  with log_manager_owned [OF this, of 5 "[]" True] show ?thesis by (intro exI [of _ ?m]) simp
qed

text \<open>Stop cannot deadlock with the IO thread: as long as a call of Stop has not returned, it or the
  IO thread can take a step, whatever the threads that log do.\<close>
theorem log_manager_no_deadlock:
  assumes "mgr_reach m" "sph m \<noteq> SIdle"
  shows "\<exists>m'. own_step m m'"
proof -
  from reach_mgr_ok [OF assms(1)] have ok: "logs_ok m" "locks_ok m" by blast+
  have nr: "rph m \<noteq> RNone" using ok(2) assms(2) by (cases "sph m") (simp_all add: locks_ok_def sph_ok_def)
  show ?thesis
  proof (cases "\<exists>xs. sph m = SShut xs")
    case True
    then show ?thesis using stop_one by blast
  next
    case noshut: False
    show ?thesis
    proof (cases "rph m = REnd")
      case True
      then have "logs_free m" using noshut by (cases "sph m") (simp_all add: logs_free_def)
      then show ?thesis using True noshut assms(2) stop_lock stop_end by (cases "sph m") blast+
    next
      case False
      with run_can_move [OF ok nr] noshut show ?thesis by blast
    qed
  qed
qed

lemma log_manager_no_deadlock_witness: "\<exists>m'. own_step (demo_mgr True [5] RTop SMarked alog_new) m'"
  by (rule log_manager_no_deadlock [OF demo_marked [OF demo_made]]) simp

text \<open>What may follow a state as long as the manager is not started again.\<close>

inductive mgr_later :: "mgr \<Rightarrow> mgr \<Rightarrow> bool" for m where
  now: "mgr_later m m"
| later: "mgr_later m m1 \<Longrightarrow> mgr_step m1 m2 \<Longrightarrow> starts m2 = starts m1 \<Longrightarrow> mgr_later m m2"

text \<open>The manager after the end of the IO thread: its list is empty, and \<open>Stop\<close> finds nothing to shut down.\<close>

definition over :: "mgr \<Rightarrow> bool" where
  "over m \<longleftrightarrow> mshut m \<and> mlogs m = [] \<and> (rph m = REnd \<or> rph m = RNone) \<and> (\<forall>xs. sph m = SShut xs \<longrightarrow> xs = [])"

lemma own_end: "own_step m m' \<Longrightarrow> rph m' = REnd \<Longrightarrow> rph m = REnd \<longrightarrow> mlogs m = [] \<Longrightarrow> mlogs m' = []"
  by (induction rule: own_step.induct)
    (auto simp: own_defs check_Inr split_beta Let_def split: list.splits if_splits)

lemma end_empty: "mgr_reach m \<Longrightarrow> rph m = REnd \<longrightarrow> mlogs m = []"
proof (induction rule: mgr_reach.induct)
  case (step m m')
  from step(2) show ?case
  proof cases
    case own
    then show ?thesis using own_end step(3) by blast
  next
    case (create l mk level dst dir w w' r)
    have "rph m = REnd \<longrightarrow> mshut m" using reach_mgr_ok [OF step(1)] by (auto simp: locks_ok_def rph_ok_def)
    then show ?thesis using CreateLog_cases [OF create(3)] step(3) by auto
  qed (use step(3) in \<open>auto simp: mgr_Start_def stop_mark_def AddBusyLog_def check_Inr\<close>)
qed (simp add: LogManager_new_def)

lemma end_over:
  assumes "mgr_reach m" "rph m = REnd"
  shows "over m"
proof -
  have l: "locks_ok m" "mlogs m = []" using reach_mgr_ok [OF assms(1)] end_empty [OF assms(1)] assms(2) by simp_all
  then have "\<forall>xs. sph m = SShut xs \<longrightarrow> xs = []" by (auto simp: locks_ok_def sph_ok_def)
  with l assms(2) show ?thesis by (simp add: over_def locks_ok_def rph_ok_def)
qed

lemma client_step_out: "client_step a a' \<Longrightarrow> aout a' = aout a \<and> ashut a' = ashut a"
  by (induction rule: client_step.induct) (simp_all add: a_enter_def a_store_def a_leave_def)

lemma over_step:
  assumes "mgr_step m m'" "starts m' = starts m" "over m"
  shows "over m' \<and> aout (alogs m' l) = aout (alogs m l) \<and> ashut (alogs m' l) = ashut (alogs m l)"
  using assms(1)
proof cases
  case own
  then show ?thesis
    by cases (use assms(3) in \<open>auto simp: over_def own_defs\<close>)
next
  case start
  then show ?thesis using assms(2) by (auto simp: mgr_Start_def check_Inr)
next
  case stop
  then show ?thesis using assms(3) by (simp add: over_def stop_mark_def)
next
  case (create l mk level dst dir w w' r)
  then show ?thesis using CreateLog_cases [OF create(3)] assms(3) by (auto simp: over_def)
next
  case (client j a)
  then show ?thesis using assms(3) client_step_out [OF client(3)] by (simp add: over_def)
next
  case (busy j)
  then show ?thesis using assms(3) by (simp add: over_def AddBusyLog_def)
qed

lemma over_later:
  "mgr_later m m' \<Longrightarrow> over m \<Longrightarrow>
   over m' \<and> aout (alogs m' l) = aout (alogs m l) \<and> ashut (alogs m' l) = ashut (alogs m l)"
proof (induction rule: mgr_later.induct)
  case (later m1 m2)
  then show ?case using over_step [OF later(2,3), of l] by simp
qed simp

lemma later_trans: "mgr_later m1 m2 \<Longrightarrow> mgr_later m m1 \<Longrightarrow> mgr_later m m2"
  by (induction rule: mgr_later.induct) (auto intro: mgr_later.later)

text \<open>A logger that is not shut down takes a statement at any time.\<close>

lemma store_later:
  assumes "l \<in> made m" "\<not> ashut (alogs m l)" "k \<notin> ainside (alogs m l)"
  shows "mgr_later m (m\<lparr>alogs := (alogs m)(l := a_leave k (a_store k r (a_enter k (alogs m l))))\<rparr>)"
proof -
  let ?up = "\<lambda>a. m\<lparr>alogs := (alogs m)(l := a)\<rparr>"
  have go: "mgr_later m (?up b)" if "mgr_later m (?up a)" "client_step a b" for a b
  proof (rule mgr_later.later [OF that(1)])
    have "mgr_step (?up a) ((?up a)\<lparr>alogs := (alogs (?up a))(l := b)\<rparr>)"
      using assms(1) that(2) by (intro mgr_step.client) simp_all
    then show "mgr_step (?up a) (?up b)" by simp
  qed simp
  have e: "client_step (alogs m l) (a_enter k (alogs m l))" using assms(2,3) by (rule client_step.enter)
  have st: "client_step (a_enter k (alogs m l)) (a_store k r (a_enter k (alogs m l)))"
    by (rule client_step.store) (simp add: a_enter_def)
  have lv: "client_step (a_store k r (a_enter k (alogs m l))) (a_leave k (a_store k r (a_enter k (alogs m l))))"
    by (rule client_step.leave) (simp add: a_enter_def a_store_def)
  have "mgr_later m (?up (alogs m l))" using mgr_later.now [of m] by simp
  from go [OF go [OF go [OF this e] st] lv] show ?thesis .
qed

text \<open>C13: Lines can be lost after Stop. Once the IO thread has ended, and until the manager is started again,
  nothing more is written to any logger and none is shut down any more, whatever Stop and the threads
  that log do. So a logger that was not shut down by then goes on taking a record from every thread
  outside Flush at any later time, and what it takes is not written; in the run of the witness the IO
  thread got the lock on the list of loggers before Stop did, and Stop returned without an error.\<close>
theorem log_manager_loses:
  assumes "mgr_reach m" "rph m = REnd" "mgr_later m m'"
  shows "aout (alogs m' l) = aout (alogs m l) \<and> ashut (alogs m' l) = ashut (alogs m l) \<and>
    (l \<in> made m' \<and> \<not> ashut (alogs m l) \<and> k \<notin> ainside (alogs m' l) \<longrightarrow>
      (\<exists>m2. mgr_later m m2 \<and> astored (alogs m2 l) = astored (alogs m' l) @ [(k, r)] \<and>
         ainside (alogs m2 l) = ainside (alogs m' l) \<and> aout (alogs m2 l) = aout (alogs m l)))"
proof -
  note o = over_later [OF _ end_over [OF assms(1,2)], where l = l]
  have "\<exists>m2. mgr_later m m2 \<and> astored (alogs m2 l) = astored (alogs m' l) @ [(k, r)] \<and>
      ainside (alogs m2 l) = ainside (alogs m' l) \<and> aout (alogs m2 l) = aout (alogs m l)"
    if h: "l \<in> made m'" "\<not> ashut (alogs m l)" "k \<notin> ainside (alogs m' l)"
  proof -
    let ?m = "m'\<lparr>alogs := (alogs m')(l := a_leave k (a_store k r (a_enter k (alogs m' l))))\<rparr>"
    have "mgr_later m' ?m" using h o [OF assms(3)] by (intro store_later) simp_all
    from later_trans [OF this assms(3)] have "mgr_later m ?m" .
    moreover from o [OF this] have "aout (alogs ?m l) = aout (alogs m l)" by simp
    ultimately show ?thesis using h(3)
      by (intro exI [of _ ?m]) (auto simp: a_enter_def a_store_def a_leave_def)
  qed
  with o [OF assms(3)] show ?thesis by blast
qed

text \<open>Such a run: the IO thread takes the lock first, Stop returns, and the record stored then is not written.\<close>

lemma log_manager_loses_witness:
  "\<exists>m m' m2. mgr_reach m \<and> rph m = REnd \<and> mgr_later m m' \<and> rph m' = RNone \<and> sph m' = SIdle \<and>
     mgr_later m m2 \<and> astored (alogs m2 5) = [(7, (1, ''x''))] \<and> aout (alogs m2 5) = []"
proof -
  have new: "takes_all alog_new []" "ainside alog_new = {}" by (simp_all add: takes_all_def alog_new_def)
  have upd: "fst (a_update [] alog_new) = alog_new"
    by (simp add: a_update_def a_take_def a_write_def alog_new_def)
  let ?m = "demo_mgr True [] REnd SMarked alog_new" and ?m' = "demo_mgr True [] RNone SIdle alog_new"
  have r: "mgr_reach ?m"
    using demo_drain [OF demo_marked [OF demo_made] _ new(2,1)] new(1) by (simp add: upd)
  have "own_step ?m (demo_mgr True [] REnd (SShut []) alog_new)"
    using stop_lock [of ?m] by (simp add: logs_free_def)
  from mgr_later.later [OF mgr_later.now mgr_step.own [OF this]]
  have 1: "mgr_later ?m (demo_mgr True [] REnd (SShut []) alog_new)" (is "mgr_later _ ?m1") by simp
  have "own_step ?m1 (demo_mgr True [] REnd SJoin alog_new)"
    using stop_one [of ?m1 "[]"] by (simp add: stop_shut_def)
  from mgr_later.later [OF 1 mgr_step.own [OF this]]
  have 2: "mgr_later ?m (demo_mgr True [] REnd SJoin alog_new)" (is "mgr_later _ ?m2") by simp
  have "own_step ?m2 ?m'" using stop_end [of ?m2] by (simp add: stop_join_def)
  from mgr_later.later [OF 2 mgr_step.own [OF this]] have l: "mgr_later ?m ?m'" by simp
  have "5 \<in> made ?m' \<and> \<not> ashut (alogs ?m 5) \<and> 7 \<notin> ainside (alogs ?m' 5)" by (simp add: alog_new_def)
  with log_manager_loses [OF r _ l, of 5 7 "(1, ''x'')"] obtain m2 where
    "mgr_later ?m m2" "astored (alogs m2 5) = astored (alogs ?m' 5) @ [(7, (1, ''x''))]"
    "aout (alogs m2 5) = aout (alogs ?m 5)" by auto
  then show ?thesis using r l
    by (intro exI [of _ ?m] exI [of _ ?m'] exI [of _ m2]) (simp add: alog_new_def)
qed

end
