(* ===== verification/ManagerConc.thy ===== *)
theory ManagerConc
  imports LogManager
begin

text \<open>
  The manager of LogManager once more, with an \<open>Update\<close> that is not one step: the IO thread takes the
  records of a logger, writes them one block at a time and moves on, while other threads log to that
  logger, \<open>Stop\<close> shuts it down and loggers are created. It refines the manager whose \<open>Update\<close> is one step, so
  what LogManager shows holds here too.
\<close>

section \<open>State and steps\<close>

text \<open>\<open>updating\<close>: the logger whose \<open>Update\<close> the IO thread is in, and what it is going to return. That
  logger stays first in the list of the phase until the call has returned.\<close>

record fmgr =
  fm :: mgr
  updating :: "(nat \<times> bool) option"

definition fmgr_start :: fmgr where
  "fmgr_start = \<lparr>fm = LogManager_new, updating = None\<rparr>"

definition current :: "mgr \<Rightarrow> nat option" where
  "current m = (case rph m of RUpd (l # _) _ \<Rightarrow> Some l | RDrain _ (l # _) \<Rightarrow> Some l | _ \<Rightarrow> None)"

definition set_alog :: "nat \<Rightarrow> alog \<Rightarrow> mgr \<Rightarrow> mgr" where
  "set_alog l a m = m\<lparr>alogs := (alogs m)(l := a)\<rparr>"

definition update_begin :: "nat list \<Rightarrow> nat \<Rightarrow> fmgr \<Rightarrow> fmgr" where
  "update_begin ks l f =
     f\<lparr>fm := set_alog l (a_take ks (alogs (fm f) l)) (fm f), updating := Some (l, ainside (alogs (fm f) l) \<noteq> {})\<rparr>"

definition update_some :: "nat \<Rightarrow> nat \<Rightarrow> fmgr \<Rightarrow> fmgr" where
  "update_some n l f = f\<lparr>fm := set_alog l (a_write n (alogs (fm f) l)) (fm f)\<rparr>"

text \<open>What both loops of \<open>Run\<close> do when \<open>Update\<close> has returned \<open>todo\<close>.\<close>

definition update_next :: "bool \<Rightarrow> mgr \<Rightarrow> mgr" where
  "update_next todo m =
     (case rph m of
        RUpd (l # ls) run \<Rightarrow> m\<lparr>rph := RUpd ls run\<rparr>
      | RDrain kept (l # ls) \<Rightarrow>
          if \<not> todo then m\<lparr>mlogs := kept @ ls, rph := RDrain kept ls\<rparr> else m\<lparr>rph := RDrain (kept @ [l]) ls\<rparr>
      | _ \<Rightarrow> m)"

definition update_end :: "bool \<Rightarrow> fmgr \<Rightarrow> fmgr" where
  "update_end todo f = f\<lparr>fm := update_next todo (fm f), updating := None\<rparr>"

text \<open>\<open>f_other\<close>: any step of LogManager but those of an IO thread that is about to update or updating.\<close>

inductive fm_step :: "fmgr \<Rightarrow> unit \<Rightarrow> fmgr \<Rightarrow> bool" where
  f_begin: "updating f = None \<Longrightarrow> current (fm f) = Some l \<Longrightarrow> takes_all (alogs (fm f) l) ks \<Longrightarrow>
    fm_step f u (update_begin ks l f)"
| f_write: "updating f = Some (l, todo) \<Longrightarrow> n \<le> length (ataken (alogs (fm f) l)) \<Longrightarrow>
    fm_step f u (update_some n l f)"
| f_end: "updating f = Some (l, todo) \<Longrightarrow> ataken (alogs (fm f) l) = [] \<Longrightarrow> fm_step f u (update_end todo f)"
| f_other: "mgr_step (fm f) m \<Longrightarrow> current (fm f) = None \<or> rph m = rph (fm f) \<Longrightarrow> fm_step f u (f\<lparr>fm := m\<rparr>)"

section \<open>The manager it refines\<close>

text \<open>Writing the rest commutes with what the threads that log and \<open>Stop\<close> do to a logger.\<close>

definition write_all :: "alog \<Rightarrow> alog" where
  "write_all a = a_write (length (ataken a)) a"

lemma write_all_simps:
  "write_all (a_write n a) = write_all a" "ataken a = [] \<Longrightarrow> write_all a = a"
  "fst (a_update ks a) = write_all (a_take ks a)"
  by (simp_all add: write_all_def a_write_def a_update_def Let_def)

lemma write_all_ops:
  "write_all (a_enter k a) = a_enter k (write_all a)" "write_all (a_store k r a) = a_store k r (write_all a)"
  "write_all (a_leave k a) = a_leave k (write_all a)" "write_all (a_shutdown a) = a_shutdown (write_all a)"
  "ashut (write_all a) = ashut a" "ainside (write_all a) = ainside a"
  by (cases a; simp add: write_all_def a_write_def a_enter_def a_store_def a_leave_def a_shutdown_def)+

lemma write_all_client: "client_step a b \<Longrightarrow> client_step (write_all a) (write_all b)"
  by (induction rule: client_step.induct) (simp_all add: write_all_ops client_step.intros)

text \<open>A logger in the middle of its \<open>Update\<close> is seen as if everything taken were written and the call had
  returned.\<close>

definition finished :: "nat \<Rightarrow> bool \<Rightarrow> mgr \<Rightarrow> mgr" where
  "finished l todo m = update_next todo (set_alog l (write_all (alogs m l)) m)"

definition abs_mgr :: "fmgr \<Rightarrow> mgr" where
  "abs_mgr f = (case updating f of None \<Rightarrow> fm f | Some (l, todo) \<Rightarrow> finished l todo (fm f))"

definition astep :: "mgr \<Rightarrow> unit \<Rightarrow> mgr \<Rightarrow> bool" where
  "astep m u m' \<longleftrightarrow> m' = m \<or> mgr_step m m'"

text \<open>The lists of loggers hold loggers handed out, and the drain keeps \<open>logs_\<close> up to date.\<close>

definition lists_made :: "mgr \<Rightarrow> bool" where
  "lists_made m \<longleftrightarrow> set (busyLogs m) \<subseteq> made m \<and> set (mlogs m) \<subseteq> made m \<and>
     (case rph m of RBusy ls _ \<Rightarrow> set ls \<subseteq> made m | RUpd ls _ \<Rightarrow> set ls \<subseteq> made m
      | RDrain kept ls \<Rightarrow> mlogs m = kept @ ls | _ \<Rightarrow> True)"

definition fm_inv :: "fmgr \<Rightarrow> bool" where
  "fm_inv f \<longleftrightarrow> mgr_reach (abs_mgr f) \<and> lists_made (fm f) \<and>
     (case updating f of None \<Rightarrow> True | Some (l, _) \<Rightarrow> current (fm f) = Some l)"

lemma current_cases:
  assumes "current m = Some l"
  obtains (upd) ls run where "rph m = RUpd (l # ls) run" | (drain) kept ls where "rph m = RDrain kept (l # ls)"
  using assms by (auto simp: current_def split: rphase.splits list.splits)

lemma set_alog_simps [simp]:
  "rph (set_alog l a m) = rph m" "mlogs (set_alog l a m) = mlogs m" "busyLogs (set_alog l a m) = busyLogs m"
  "made (set_alog l a m) = made m" "alogs (set_alog l a m) = (alogs m)(l := a)" "sph (set_alog l a m) = sph m"
  "mshut (set_alog l a m) = mshut m" "starts (set_alog l a m) = starts m"
  by (simp_all add: set_alog_def)

lemma lists_made_own: "own_step m m' \<Longrightarrow> lists_made m \<Longrightarrow> lists_made m'"
  by (induction rule: own_step.induct)
    (auto simp: lists_made_def own_defs check_Inr split_beta Let_def
      split: list.splits if_splits rphase.splits)

lemma lists_made_step: "mgr_step m m' \<Longrightarrow> lists_made m \<Longrightarrow> lists_made m'"
proof (induction rule: mgr_step.induct)
  case (own m m')
  then show ?case by (simp add: lists_made_own)
next
  case (create l m mk level dst dir w m' w' r)
  from CreateLog_cases [OF create(3)] create(2,4) show ?case
    by (auto simp: lists_made_def logs_free_def split: rphase.splits)
next
  case (busy l m)
  then show ?case by (auto simp: lists_made_def AddBusyLog_def set_insort_key split: rphase.splits)
qed (auto simp: lists_made_def mgr_Start_def stop_mark_def check_Inr split: rphase.splits)

lemma lists_made_next: "lists_made m \<Longrightarrow> lists_made (update_next todo m)"
  by (auto simp: lists_made_def update_next_def split: rphase.splits list.splits)

lemma current_made: "lists_made m \<Longrightarrow> current m = Some l \<Longrightarrow> l \<in> made m"
  by (erule current_cases) (auto simp: lists_made_def)

text \<open>Seeing the \<open>Update\<close> of \<open>l\<close> as finished commutes with every step of the others.\<close>

lemma finished_upd:
  "rph m = RUpd (l # ls) run \<Longrightarrow> finished l todo m = (set_alog l (write_all (alogs m l)) m)\<lparr>rph := RUpd ls run\<rparr>"
  by (simp add: finished_def update_next_def)

lemma finished_drain:
  "rph m = RDrain kept (l # ls) \<Longrightarrow> finished l todo m =
     (set_alog l (write_all (alogs m l)) m)\<lparr>mlogs := (if todo then mlogs m else kept @ ls),
        rph := RDrain (if todo then kept @ [l] else kept) ls\<rparr>"
  by (simp add: finished_def update_next_def)

lemmas finished_simps = finished_upd finished_drain

lemma finished_fields:
  assumes "current m = Some l"
  shows "alogs (finished l todo m) = (alogs m)(l := write_all (alogs m l))" "made (finished l todo m) = made m"
    "sph (finished l todo m) = sph m" "busyLogs (finished l todo m) = busyLogs m"
    "mshut (finished l todo m) = mshut m" "starts (finished l todo m) = starts m"
    "logs_free (finished l todo m) = logs_free m" "logs_free m \<Longrightarrow> mlogs (finished l todo m) = mlogs m"
  using assms by (auto elim!: current_cases simp: finished_simps logs_free_def)

text \<open>What the steps of the others change.\<close>

lemma finished_changes:
  assumes "current m = Some l"
  shows "finished l todo (m\<lparr>sph := p\<rparr>) = (finished l todo m)\<lparr>sph := p\<rparr>"
    "finished l todo (m\<lparr>busyLogs := b\<rparr>) = (finished l todo m)\<lparr>busyLogs := b\<rparr>"
    "finished l todo (m\<lparr>mshut := d, sph := p\<rparr>) = (finished l todo m)\<lparr>mshut := d, sph := p\<rparr>"
    "x \<noteq> l \<Longrightarrow> finished l todo (set_alog x a m) = set_alog x a (finished l todo m)"
    "finished l todo (set_alog l a m) = set_alog l (write_all a) (finished l todo m)"
    "(set_alog x a m)\<lparr>sph := p\<rparr> = set_alog x a (m\<lparr>sph := p\<rparr>)"
  using assms by (auto elim!: current_cases simp: finished_simps set_alog_def fun_upd_twist)

lemma current_sph [simp]: "current (m\<lparr>sph := p\<rparr>) = current m"
  by (simp add: current_def)

lemma finished_shut:
  assumes c: "current m = Some l"
  shows "finished l todo (stop_shut ls m) = stop_shut ls (finished l todo m)"
proof (cases ls)
  case Nil
  then show ?thesis using finished_changes(1) [OF c] by (simp add: stop_shut_def)
next
  case (Cons x xs)
  have s: "stop_shut ls n = set_alog x (a_shutdown (alogs n x)) (n\<lparr>sph := SShut xs\<rparr>)" for n
    by (simp add: Cons stop_shut_def set_alog_def)
  have c': "current (m\<lparr>sph := SShut xs\<rparr>) = Some l" using c by simp
  show ?thesis unfolding s
    by (cases "x = l") (simp_all add: finished_changes [OF c'] finished_changes(1) [OF c] finished_fields [OF c] write_all_ops)
qed

lemma finished_own:
  assumes st: "own_step m m'" and c: "current m = Some l" and r: "rph m' = rph m"
  shows "own_step (finished l todo m) (finished l todo m')"
  using st
proof cases
  case stop_lock
  then show ?thesis
    using own_step.stop_lock [of "finished l todo m"] finished_changes(1) [OF c] by (simp add: finished_fields [OF c])
next
  case (stop_one ls)
  then show ?thesis
    using own_step.stop_one [of "finished l todo m" ls] by (simp add: finished_shut [OF c] finished_fields [OF c])
qed (use c r in \<open>auto elim!: current_cases simp: own_defs check_Inr split_beta Let_def split: if_splits\<close>)

lemma finished_create:
  assumes new: "x \<noteq> l" and free: "logs_free m" and st: "CreateLog mk level dst dir x m w = Inr (m', w', r)"
    and c: "current m = Some l"
  shows "CreateLog mk level dst dir x (finished l todo m) w = Inr (finished l todo m', w', r)"
proof -
  obtain ls run where u: "rph m = RUpd (l # ls) run" using c free by (auto elim!: current_cases simp: logs_free_def)
  obtain y where y: "Logger_Init mk level dst dir Logger_new w = Inr y"
    using st by (auto simp: CreateLog_def res_bind_Inr)
  obtain lg w1 ok where "y = (lg, w1, ok)" by (cases y) auto
  with y st new u show ?thesis
    by (cases ok; cases "mshut m") (auto simp: CreateLog_def finished_upd set_alog_def fun_upd_twist)
qed

lemma finished_step:
  assumes st: "mgr_step m m'" and c: "current m = Some l" and r: "rph m' = rph m" and made: "l \<in> made m"
  shows "mgr_step (finished l todo m) (finished l todo m')"
  using st
proof cases
  case own
  then show ?thesis using finished_own [OF _ c r] by (simp add: mgr_step.own)
next
  case start
  then show ?thesis using c by (auto simp: mgr_Start_def check_Inr current_def)
next
  case stop
  then have "finished l todo m' = stop_mark (finished l todo m)"
    using finished_changes(3) [OF c] by (simp add: stop_mark_def finished_fields [OF c])
  then show ?thesis using mgr_step.stop stop by (simp add: finished_fields [OF c])
next
  case (create x mk level dst dir w w' r)
  then have "x \<noteq> l" using made by blast
  from finished_create [OF this create(2,3) c] create show ?thesis
    by (intro mgr_step.create [of x]) (simp_all add: finished_fields [OF c])
next
  case (client x a)
  show ?thesis
  proof (cases "x = l")
    case True
    then have "client_step (alogs (finished l todo m) l) (write_all a)"
      using write_all_client client(3) by (simp add: finished_fields [OF c])
    from mgr_step.client [OF _ this] made client(1) True finished_changes(5) [OF c, of todo a] show ?thesis
      by (simp add: finished_fields [OF c] set_alog_def)
  next
    case False
    then have "client_step (alogs (finished l todo m) x) a" using client(3) by (simp add: finished_fields [OF c])
    from mgr_step.client [OF _ this] client(1,2) finished_changes(4) [OF c False, of todo a] show ?thesis
      by (simp add: finished_fields [OF c] set_alog_def)
  qed
next
  case (busy x)
  then have "finished l todo m' = fst (AddBusyLog x (finished l todo m))"
    using finished_changes(2) [OF c] by (simp add: AddBusyLog_def finished_fields [OF c])
  then show ?thesis using mgr_step.busy busy by (simp add: finished_fields [OF c])
qed

text \<open>Taking the records is the whole \<open>Update\<close> of the manager it refines.\<close>

definition updated :: "nat list \<Rightarrow> nat \<Rightarrow> mgr \<Rightarrow> mgr" where
  "updated ks l m = finished l (ainside (alogs m l) \<noteq> {}) (set_alog l (a_take ks (alogs m l)) m)"

lemma updated_simps:
  "rph m = RUpd (l # ls) run \<Longrightarrow> run_update ks l ls run m = updated ks l m"
  "rph m = RDrain kept (l # ls) \<Longrightarrow> drain_one ks kept l ls m = updated ks l m"
  by (simp_all add: updated_def finished_simps run_update_def drain_one_def set_alog_def write_all_simps(3)
      split_beta Let_def)

lemma begin_step:
  assumes "current m = Some l" "takes_all (alogs m l) ks"
  shows "own_step m (updated ks l m)"
  using assms(1)
proof (cases rule: current_cases)
  case (upd ls run)
  then show ?thesis using own_step.upd [OF upd assms(2)] by (simp add: updated_simps)
next
  case (drain kept ls)
  then show ?thesis using own_step.drain [OF drain assms(2)] by (simp add: updated_simps)
qed

lemma fm_step_ok:
  assumes st: "fm_step f u g" and inv: "fm_inv f"
  shows "fm_inv g \<and> astep (abs_mgr f) u (abs_mgr g)"
proof -
  have lm: "lists_made (fm f)" and re: "mgr_reach (abs_mgr f)" using inv by (simp_all add: fm_inv_def)
  from st have "astep (abs_mgr f) u (abs_mgr g) \<and> lists_made (fm g) \<and>
      (case updating g of None \<Rightarrow> True | Some (l, _) \<Rightarrow> current (fm g) = Some l)"
  proof cases
    case (f_begin l ks)
    from begin_step [OF f_begin(3,4)] f_begin lm show ?thesis
      by (auto simp: updated_def astep_def abs_mgr_def update_begin_def lists_made_def current_def mgr_step.own split: rphase.splits)
  next
    case (f_write l todo n)
    have c: "current (fm f) = Some l" using inv f_write(2) by (simp add: fm_inv_def)
    then have "abs_mgr g = abs_mgr f"
      using f_write by (simp add: abs_mgr_def update_some_def finished_def write_all_simps(1)) (simp add: set_alog_def)
    with c f_write lm show ?thesis
      by (auto simp: astep_def update_some_def lists_made_def current_def split: rphase.splits)
  next
    case (f_end l todo)
    then have "abs_mgr g = abs_mgr f"
      by (simp add: abs_mgr_def update_end_def finished_def write_all_simps(2) set_alog_def)
    then show ?thesis using f_end lists_made_next [OF lm] by (simp add: astep_def update_end_def)
  next
    case (f_other m)
    show ?thesis
    proof (cases "updating f")
      case None
      then show ?thesis using f_other lists_made_step [OF f_other(2) lm] by (simp add: astep_def abs_mgr_def)
    next
      case (Some p)
      obtain l todo where p: "p = (l, todo)" by fastforce
      have c: "current (fm f) = Some l" using inv Some p by (simp add: fm_inv_def)
      then have r: "rph m = rph (fm f)" using f_other(3) by simp
      have "current m = Some l" using c r by (simp add: current_def)
      with finished_step [OF f_other(2) c r current_made [OF lm c], of todo] show ?thesis
        using Some p f_other lists_made_step [OF f_other(2) lm] by (simp add: astep_def abs_mgr_def)
    qed
  qed
  with re show ?thesis using mgr_reach.step by (auto simp: fm_inv_def astep_def)
qed

interpretation fmr: simulation fm_step fm_inv astep abs_mgr
  by unfold_locales (auto dest: fm_step_ok)

lemma fm_start_inv: "fm_inv fmgr_start"
  using mgr_reach.init
  by (simp add: fm_inv_def fmgr_start_def abs_mgr_def lists_made_def LogManager_new_def)

section \<open>The two managers have the same states between Updates\<close>

lemma update_run:
  assumes "current m = Some l" "takes_all (alogs m l) ks"
  shows "run_of fm_step \<lparr>fm = m, updating = None\<rparr> [(), (), ()] \<lparr>fm = updated ks l m, updating = None\<rparr>"
proof -
  let ?f = "\<lparr>fm = m, updating = None\<rparr>"
  let ?g = "update_begin ks l ?f"
  let ?n = "length (ataken (alogs (fm ?g) l))"
  let ?h = "update_some ?n l ?g" and ?todo = "ainside (alogs m l) \<noteq> {}"
  have 1: "fm_step ?f () ?g" by (rule f_begin) (simp_all add: assms)
  have 2: "fm_step ?g () ?h" by (rule f_write [of _ _ ?todo]) (simp_all add: update_begin_def)
  have 3: "fm_step ?h () (update_end ?todo ?h)"
    by (rule f_end [of _ l]) (simp_all add: update_begin_def update_some_def a_write_def)
  have "update_end ?todo ?h = \<lparr>fm = updated ks l m, updating = None\<rparr>"
    by (simp add: updated_def update_end_def update_some_def update_begin_def finished_def write_all_def)
  moreover have "run_of fm_step ?f [(), (), ()] (update_end ?todo ?h)"
    by (rule run_Cons, rule 1, rule run_Cons, rule 2, rule run_one, rule 3)
  ultimately show ?thesis by simp
qed

lemma other_run:
  assumes "mgr_step m m'" "current m = None \<or> rph m' = rph m"
  shows "\<exists>us. run_of fm_step \<lparr>fm = m, updating = None\<rparr> us \<lparr>fm = m', updating = None\<rparr>"
proof -
  have "fm_step \<lparr>fm = m, updating = None\<rparr> () (\<lparr>fm = m, updating = None\<rparr>\<lparr>fm := m'\<rparr>)"
    by (rule f_other) (use assms in simp_all)
  then have "run_of fm_step \<lparr>fm = m, updating = None\<rparr> [()] \<lparr>fm = m', updating = None\<rparr>"
    by (intro run_one) simp
  then show ?thesis by blast
qed

lemma own_step_run:
  assumes st: "own_step m m'"
  shows "\<exists>us. run_of fm_step \<lparr>fm = m, updating = None\<rparr> us \<lparr>fm = m', updating = None\<rparr>"
proof (cases "current m = None \<or> rph m' = rph m")
  case True
  then show ?thesis using other_run mgr_step.own [OF st] by blast
next
  case False
  from st show ?thesis
  proof cases
    case (upd l ls run ks)
    then have "current m = Some l" by (simp add: current_def)
    with update_run upd show ?thesis by (auto simp: updated_simps)
  next
    case (drain kept l ls ks)
    then have "current m = Some l" by (simp add: current_def)
    with update_run drain show ?thesis by (auto simp: updated_simps)
  qed (use False in \<open>auto simp: current_def own_defs check_Inr split: list.splits\<close>)
qed

lemma mgr_step_run:
  assumes "mgr_step m m'"
  shows "\<exists>us. run_of fm_step \<lparr>fm = m, updating = None\<rparr> us \<lparr>fm = m', updating = None\<rparr>"
  using assms
proof cases
  case own
  then show ?thesis by (rule own_step_run)
next
  case create
  then have "rph m' = rph m" using CreateLog_cases by fastforce
  then show ?thesis using other_run [OF assms] by simp
qed (rule other_run [OF assms]; auto simp: mgr_Start_def check_Inr stop_mark_def AddBusyLog_def current_def)+

lemma fm_run_abs: "run_of fm_step fmgr_start us f \<Longrightarrow> fm_inv f"
  by (rule fmr.run_inv [OF _ fm_start_inv])

lemma mgr_reach_run:
  "mgr_reach m \<Longrightarrow> \<exists>us. run_of fm_step fmgr_start us \<lparr>fm = m, updating = None\<rparr>"
proof (induction rule: mgr_reach.induct)
  case init
  have "run_of fm_step fmgr_start [] \<lparr>fm = LogManager_new, updating = None\<rparr>"
    unfolding fmgr_start_def by (rule run_of.nil)
  then show ?case by blast
next
  case (step m m')
  then obtain us vs where "run_of fm_step fmgr_start us \<lparr>fm = m, updating = None\<rparr>"
    "run_of fm_step \<lparr>fm = m, updating = None\<rparr> vs \<lparr>fm = m', updating = None\<rparr>"
    using mgr_step_run by blast
  then have "run_of fm_step fmgr_start (us @ vs) \<lparr>fm = m', updating = None\<rparr>" by (metis run_trans)
  then show ?case ..
qed

section \<open>Properties\<close>

text \<open>C6: Update of a logger may be taken as one step: a manager whose IO thread takes the records, writes
  them bit by bit and returns later, while others log to the logger, shut it down or create others,
  reaches between two Updates exactly the states of the manager whose Update is one step.\<close>
theorem manager_update_atomic:
  "(\<exists>us. run_of fm_step fmgr_start us \<lparr>fm = m, updating = None\<rparr>) \<longleftrightarrow> mgr_reach m"
proof
  assume "\<exists>us. run_of fm_step fmgr_start us \<lparr>fm = m, updating = None\<rparr>"
  then obtain us where "run_of fm_step fmgr_start us \<lparr>fm = m, updating = None\<rparr>" ..
  from fm_run_abs [OF this] show "mgr_reach m" by (simp add: fm_inv_def abs_mgr_def)
next
  assume "mgr_reach m"
  then show "\<exists>us. run_of fm_step fmgr_start us \<lparr>fm = m, updating = None\<rparr>" by (rule mgr_reach_run)
qed

text \<open>C5: A logger that Stop has shut down and the IO thread has removed from the list is complete: no
  thread is inside its Flush, and every record ever stored has been written, of each thread in order.
  This holds at every moment at which the IO thread is not in the Update of that very logger.\<close>
theorem manager_complete:
  assumes "run_of fm_step fmgr_start us f" "l \<notin> set (mlogs (fm f))" "ashut (alogs (fm f) l)"
    "\<forall>todo. updating f \<noteq> Some (l, todo)"
  shows "ainside (alogs (fm f) l) = {} \<and>
    (\<forall>k. recs_of k (aout (alogs (fm f) l)) = recs_of k (astored (alogs (fm f) l)))"
proof -
  have inv: "mgr_reach (abs_mgr f)" "lists_made (fm f)"
    and cur: "\<And>x todo. updating f = Some (x, todo) \<Longrightarrow> current (fm f) = Some x"
    using fm_run_abs [OF assms(1)] by (auto simp: fm_inv_def)
  have "alogs (abs_mgr f) l = alogs (fm f) l \<and> set (mlogs (abs_mgr f)) \<subseteq> set (mlogs (fm f))"
  proof (cases "updating f")
    case None
    then show ?thesis by (simp add: abs_mgr_def)
  next
    case (Some p)
    obtain x todo where p: "p = (x, todo)" by fastforce
    have c: "current (fm f) = Some x" using cur Some p by simp
    have "x \<noteq> l" using assms(4) Some p by blast
    then show ?thesis using Some p c inv(2)
      by (auto simp: abs_mgr_def finished_fields(1) [OF c] finished_simps lists_made_def elim!: current_cases
          split: if_splits)
  qed
  with removed_complete [OF inv(1), of l] assms(2,3) show ?thesis by auto
qed

lemma manager_complete_witness:
  "\<exists>us f. run_of fm_step fmgr_start us f \<and> recs_of 7 (aout (alogs (fm f) 5)) = [(1, ''x'')]"
proof -
  obtain a where a: "mgr_reach (demo_mgr True [] REnd SJoin a)" "ashut a" "astored a = [(7, (1, ''x''))]"
    using demo_complete by blast
  obtain us where r: "run_of fm_step fmgr_start us \<lparr>fm = demo_mgr True [] REnd SJoin a, updating = None\<rparr>"
    using mgr_reach_run [OF a(1)] by blast
  have "recs_of 7 (aout a) = recs_of 7 (astored a)" using manager_complete [OF r, of 5] a(2) by simp
  then show ?thesis
    by (intro exI [of _ us] exI [of _ "\<lparr>fm = demo_mgr True [] REnd SJoin a, updating = None\<rparr>"] conjI)
      (simp_all add: r a(3))
qed

end
