(* ===== verification/ManagerStop.thy ===== *)
theory ManagerStop
  imports LogManager
begin

text \<open>
  \<open>LogManager::Stop\<close> comes to an end. The work left to it and to the IO thread is a number that the
  program text bounds: the loop over \<open>logs_\<close>, at most two more rounds of \<open>Run\<close>, and the drain, one
  logger a round. Nothing another thread does adds to it, and every step of the two takes from it as
  long as no thread stays inside \<open>Flush\<close>: a thread that does is what the drain waits for.
\<close>

section \<open>The work left\<close>

text \<open>The rounds the IO thread has before it, with \<open>b\<close> busy loggers waiting and \<open>n\<close> loggers in \<open>logs_\<close>.\<close>

fun run_work :: "nat \<Rightarrow> nat \<Rightarrow> rphase \<Rightarrow> nat" where
  "run_work b n RNone = 0"
| "run_work b n REnd = 0"
| "run_work b n (RDrain kept ls) = length ls + 2 * length kept + 1"
| "run_work b n RFinal = n + 2"
| "run_work b n (RUpd ls run) = length ls + (if run then b + 2 * n + 6 else n + 3)"
| "run_work b n (RBusy ls run) = length ls + n + (if run then b + 2 * n + 7 else n + 4)"
| "run_work b n RTop = b + 2 * n + 5"

fun shut_work :: "nat \<Rightarrow> sphase \<Rightarrow> nat" where
  "shut_work n SIdle = 0"
| "shut_work n SJoin = 1"
| "shut_work n (SShut ls) = length ls + 2"
| "shut_work n SMarked = n + 3"

definition stop_work :: "mgr \<Rightarrow> nat" where
  "stop_work m = run_work (length (busyLogs m)) (length (mlogs m)) (rph m) + shut_work (length (mlogs m)) (sph m)"

text \<open>No thread is inside \<open>Flush\<close> of a logger of the list.\<close>

definition quiet :: "mgr \<Rightarrow> bool" where
  "quiet m \<longleftrightarrow> (\<forall>l \<in> set (mlogs m). ainside (alogs m l) = {})"

lemma shut_work_mono: "k \<le> n \<Longrightarrow> shut_work k p \<le> shut_work n p"
  by (cases p) simp_all

section \<open>Every step of the two threads\<close>

lemma own_step_quiet: "own_step m m' \<Longrightarrow> locks_ok m \<Longrightarrow> quiet m \<Longrightarrow> quiet m'"
proof (induction rule: own_step.induct)
  case (stop_one m ls)
  then show ?case by (cases ls) (auto simp: quiet_def stop_shut_def)
next
  case (drain m kept l ls ks)
  then show ?case by (auto simp: quiet_def locks_ok_def rph_ok_def own_defs split_beta Let_def)
qed (auto simp: quiet_def own_defs check_Inr)

lemma own_step_work:
  "own_step m m' \<Longrightarrow> locks_ok m \<Longrightarrow> quiet m \<Longrightarrow> mshut m \<Longrightarrow> stop_work m' < stop_work m"
proof (induction rule: own_step.induct)
  case (stop_one m ls)
  then show ?case by (cases ls) (simp_all add: stop_work_def stop_shut_def)
next
  case (drain m kept l ls ks)
  have "mlogs m = kept @ l # ls" using drain(1,3) by (simp add: locks_ok_def rph_ok_def)
  moreover from this have "ainside (alogs m l) = {}" using drain(4) by (simp add: quiet_def)
  ultimately show ?case using drain(1) shut_work_mono [of "length (kept @ ls)" "length (mlogs m)" "sph m"]
    by (simp add: stop_work_def drain_one_def split_beta Let_def)
next
  case (pass m kept)
  then have "mlogs m = kept" by (simp add: locks_ok_def rph_ok_def)
  then show ?case using pass(1) by (simp add: stop_work_def drain_next_def)
qed (auto simp: stop_work_def own_defs check_Inr)

text \<open>What the other threads do while \<open>Stop\<close> runs: no logger is added, no logger becomes busy, the
  manager is not started again.\<close>

lemma mgr_step_work:
  assumes "mgr_step m m'" "locks_ok m" "quiet m" "sph m \<noteq> SIdle"
  shows "stop_work m' \<le> stop_work m"
proof -
  have down: "mshut m" "rph m \<noteq> RNone"
    using assms(2,4) by (cases "sph m"; simp add: locks_ok_def sph_ok_def)+
  from assms(1) show ?thesis
  proof cases
    case own
    from own_step_work [OF this assms(2,3) down(1)] show ?thesis by simp
  next
    case (create l mk level dst dir w w' r)
    from CreateLog_cases [OF create(3)] down(1) show ?thesis by auto
  qed (use down assms(4) in \<open>auto simp: mgr_Start_def check_Inr AddBusyLog_def stop_work_def\<close>)
qed

text \<open>C7: \<open>Stop\<close> ends. While a call has not returned, it or the IO thread can take a step; when no
  thread is inside \<open>Flush\<close>, every step of the two leaves less work, so at most \<open>stop_work\<close> steps
  remain, and no step of any thread adds work.\<close>

theorem log_manager_stop_ends:
  assumes "mgr_reach m" "sph m \<noteq> SIdle"
  shows "(\<exists>m'. own_step m m') \<and>
    (quiet m \<longrightarrow> (\<forall>m'. own_step m m' \<longrightarrow> stop_work m' < stop_work m \<and> quiet m') \<and>
      (\<forall>m'. mgr_step m m' \<longrightarrow> stop_work m' \<le> stop_work m))"
proof -
  have ok: "locks_ok m" using reach_mgr_ok [OF assms(1)] by blast
  then have "mshut m" using assms(2) by (cases "sph m") (simp_all add: locks_ok_def sph_ok_def)
  then show ?thesis
    using log_manager_no_deadlock [OF assms] own_step_work [OF _ ok] own_step_quiet [OF _ ok]
      mgr_step_work [OF _ ok _ assms(2)] by blast
qed

text \<open>One logger, nobody inside: eleven steps of the two at most.\<close>

theorem log_manager_stop_ends_witness:
  "stop_work (demo_mgr True [5] RTop SMarked alog_new) = 11 \<and>
   (\<exists>m'. own_step (demo_mgr True [5] RTop SMarked alog_new) m' \<and> stop_work m' < 11 \<and> quiet m')"
proof -
  have w: "stop_work (demo_mgr True [5] RTop SMarked alog_new) = 11" by (simp add: stop_work_def)
  have q: "quiet (demo_mgr True [5] RTop SMarked alog_new)" by (simp add: quiet_def alog_new_def)
  have s: "sph (demo_mgr True [5] RTop SMarked alog_new) \<noteq> SIdle" by simp
  from log_manager_stop_ends [OF demo_marked [OF demo_made] s] q w show ?thesis by metis
qed

end
