(* ===== verification/Thrdpool.thy ===== *)
theory Thrdpool
  imports Prelude
begin

text \<open>
  The thread pool of thrdpool/thrdpool.h and thrdpool.c. First the error handling of
  \<open>thrdpool_create\<close> and \<open>thrdpool_increase\<close>, with what the pthread calls return as inputs; then the
  pool at run time as a step relation: workers in \<open>__thrdpool_routine\<close>, callers of
  \<open>thrdpool_schedule\<close> and \<open>thrdpool_increase\<close>, and \<open>thrdpool_destroy\<close> called from outside or by a
  task. The message queue is the list of tasks in it; PoolQueue puts the queue of msgqueue.c in its place.
\<close>

section \<open>Creating a pool\<close>

text \<open>What the calls return: \<open>rc_create i\<close> is the result of the pthread_create for thread \<open>i\<close>.\<close>

record calls =
  rc_malloc :: bool
  rc_queue :: bool
  rc_mutex :: int
  rc_key :: int
  rc_attr :: int
  rc_create :: "nat \<Rightarrow> int"

text \<open>The creation loop: the number of threads running and the last return code.\<close>

function spawn_loop :: "(nat \<Rightarrow> int) \<Rightarrow> nat \<Rightarrow> nat \<Rightarrow> int \<Rightarrow> nat \<times> int" where
  "spawn_loop f n k ret =
     (if k < n then (if f k = 0 then spawn_loop f n (Suc k) 0 else (k, f k)) else (k, ret))"
  by pat_completeness auto
termination by (relation "measure (\<lambda>(f, n, k, ret). n - k)") auto

declare spawn_loop.simps [simp del]

text \<open>
  \<open>__thrdpool_create_threads\<close>: the number of threads on success, the new \<open>errno\<close> on failure, when
  every thread started has been terminated again.
\<close>

definition create_threads :: "calls \<Rightarrow> nat \<Rightarrow> int + nat" where
  "create_threads c n =
     (let ret = rc_attr c in
      if ret = 0 then
        let (k, ret) = spawn_loop (rc_create c) n 0 ret in
        if k = n then Inr k else Inl ret
      else Inl ret)"

text \<open>
  \<open>thrdpool_create\<close>: a pool with its number of threads, or the null pointer with the value that
  the function leaves in \<open>errno\<close> (\<open>None\<close>: what the failed call itself stored).
\<close>

definition thrdpool_create :: "calls \<Rightarrow> nat \<Rightarrow> int option + nat" where
  "thrdpool_create c n =
     (if \<not> rc_malloc c then Inl None
      else if rc_queue c then
        let ret = rc_mutex c in
        if ret = 0 then
          let ret = rc_key c in
          if ret = 0 then
            (case create_threads c n of Inr k \<Rightarrow> Inr k | Inl _ \<Rightarrow> Inl (Some ret))
          else Inl (Some ret)
        else Inl (Some ret)
      else Inl None)"

text \<open>\<open>thrdpool_increase\<close>: the new number of threads, or the error code.\<close>

definition thrdpool_increase :: "int \<Rightarrow> int \<Rightarrow> size_t \<Rightarrow> int + size_t" where
  "thrdpool_increase attr_ret create_ret k =
     (let ret = attr_ret in
      if ret = 0 then (let ret = create_ret in if ret = 0 then Inr (k + 1) else Inl ret)
      else Inl ret)"

lemma spawn_loop_all: "k \<le> n \<Longrightarrow> \<forall>i. k \<le> i \<and> i < n \<longrightarrow> f i = 0 \<Longrightarrow> fst (spawn_loop f n k r) = n"
  by (induction f n k r rule: spawn_loop.induct) (subst spawn_loop.simps, simp)

lemma spawn_loop_fail:
  "k \<le> j \<Longrightarrow> j < n \<Longrightarrow> f j \<noteq> 0 \<Longrightarrow> \<forall>i. k \<le> i \<and> i < j \<longrightarrow> f i = 0 \<Longrightarrow> spawn_loop f n k r = (j, f j)"
proof (induction f n k r rule: spawn_loop.induct)
  case (1 f n k r)
  then show ?case by (cases "k = j") (subst spawn_loop.simps, simp)+
qed

lemma create_threads_ok:
  "rc_attr c = 0 \<Longrightarrow> \<forall>i < n. rc_create c i = 0 \<Longrightarrow> create_threads c n = Inr n"
  using spawn_loop_all [of 0 n "rc_create c" 0] by (simp add: create_threads_def split_beta Let_def)

lemma create_threads_fails:
  "rc_attr c = 0 \<Longrightarrow> j < n \<Longrightarrow> rc_create c j \<noteq> 0 \<Longrightarrow> \<forall>i < j. rc_create c i = 0 \<Longrightarrow>
   create_threads c n = Inl (rc_create c j)"
  using spawn_loop_fail [of 0 j n "rc_create c" 0] by (simp add: create_threads_def)

section \<open>The running pool\<close>

text \<open>
  A worker: not created, at the loop test, in \<open>msgqueue_get\<close>, in a task, at the test after it, past
  the loop, in \<open>pthread_join\<close> of another worker (0: none), ended. \<open>WDestroyer\<close> threads are workers
  whose task called \<open>thrdpool_destroy\<close>; which one it is, is the field \<open>destroyer\<close>.
\<close>

datatype wphase = WNone | WLoop | WGet | WTask nat | WCheck | WExit | WJoining nat | WEnded

text \<open>
  The call of \<open>thrdpool_destroy\<close>: at the test of \<open>nthreads\<close>, asleep in \<open>pthread_cond_wait\<close> on
  \<open>terminate\<close>, joining the last worker, draining, done.
\<close>

datatype dphase = DIdle | DWait | DSleep | DJoin | DDrain | DDone

record tpool =
  nthreads :: size_t
  tid :: nat
  terminate :: bool
  nonblocking :: bool
  queue :: "nat list"
  freed :: bool
  ph :: "nat \<Rightarrow> wphase"
  ready :: bool
  adding :: bool
  dst :: dphase
  destroyer :: nat
  created :: "nat list"
  scheduled :: "nat list"
  started :: "nat list"
  pended :: "nat list"
  exits :: "nat list"
  joined :: "nat list"

definition tp_start :: tpool where
  "tp_start = \<lparr>nthreads = 0, tid = 0, terminate = False, nonblocking = False, queue = [], freed = False,
     ph = (\<lambda>_. WNone), ready = False, adding = False, dst = DIdle, destroyer = 0,
     created = [], scheduled = [], started = [], pended = [], exits = [], joined = []\<rparr>"

text \<open>\<open>pthread_create\<close> and the increment that follows it.\<close>

definition thread_begin :: "nat \<Rightarrow> tpool \<Rightarrow> tpool" where
  "thread_begin t s = s\<lparr>ph := (ph s)(t := WLoop), adding := True, created := created s @ [t]\<rparr>"

definition thread_count :: "tpool \<Rightarrow> tpool" where
  "thread_count s = s\<lparr>nthreads := nthreads s + 1, adding := False\<rparr>"

definition thrdpool_schedule :: "nat \<Rightarrow> tpool \<Rightarrow> tpool" where
  "thrdpool_schedule x s = s\<lparr>queue := queue s @ [x], scheduled := scheduled s @ [x]\<rparr>"

text \<open>\<open>thrdpool_schedule\<close> as called, with whether malloc succeeds: the pool and the value returned.\<close>

definition schedule_call :: "bool \<Rightarrow> nat \<Rightarrow> tpool \<Rightarrow> tpool \<times> int" where
  "schedule_call buf x s = (if buf then (thrdpool_schedule x s, 0) else (s, - 1))"

text \<open>The worker's loop test, its \<open>msgqueue_get\<close>, and the test after a task.\<close>

definition routine_test :: "nat \<Rightarrow> tpool \<Rightarrow> tpool" where
  "routine_test t s = s\<lparr>ph := (ph s)(t := (if \<not> terminate s then WGet else WExit))\<rparr>"

definition routine_get :: "nat \<Rightarrow> tpool \<Rightarrow> tpool option" where
  "routine_get t s =
     (case queue s of
        x # xs \<Rightarrow> Some (s\<lparr>queue := xs, ph := (ph s)(t := WTask x), started := started s @ [x]\<rparr>)
      | [] \<Rightarrow> if nonblocking s then Some (s\<lparr>ph := (ph s)(t := WExit)\<rparr>) else None)"

definition routine_check :: "nat \<Rightarrow> tpool \<Rightarrow> tpool" where
  "routine_check t s =
     (if nthreads s = 0 then s\<lparr>freed := True, ph := (ph s)(t := WEnded)\<rparr>
      else s\<lparr>ph := (ph s)(t := WLoop)\<rparr>)"

text \<open>
  The critical section at the end of the routine; the thread then joins its predecessor. The last one
  signals \<open>terminate\<close>: a destroying thread asleep in \<open>pthread_cond_wait\<close> goes back to its test, and
  without one the signal is lost.
\<close>

definition term_signal :: "dphase \<Rightarrow> dphase" where
  "term_signal d = (if d = DSleep then DWait else d)"

definition routine_exit :: "nat \<Rightarrow> tpool \<Rightarrow> tpool" where
  "routine_exit t s =
     s\<lparr>tid := t, nthreads := nthreads s - 1, ph := (ph s)(t := WJoining (tid s)),
       dst := (if nthreads s - 1 = 0 then term_signal (dst s) else dst s), exits := exits s @ [t]\<rparr>"

definition routine_join :: "nat \<Rightarrow> nat \<Rightarrow> tpool \<Rightarrow> tpool" where
  "routine_join t u s =
     s\<lparr>ph := (ph s)(t := WEnded), joined := (if u \<noteq> 0 then joined s @ [u] else joined s)\<rparr>"

text \<open>\<open>thrdpool_destroy\<close> by thread \<open>me\<close> of the pool, or from outside (\<open>me = 0\<close>).\<close>

definition terminate_begin :: "nat \<Rightarrow> tpool \<Rightarrow> tpool" where
  "terminate_begin me s =
     s\<lparr>nonblocking := True, terminate := True, dst := DWait, destroyer := me,
       nthreads := (if me \<noteq> 0 then nthreads s - 1 else nthreads s)\<rparr>"

text \<open>
  Whether thread \<open>t\<close> belongs to the pool: every worker stores the pool under its key before anything
  else. \<open>destroy_begin\<close> is the call of \<open>thrdpool_destroy\<close> by thread \<open>t\<close> up to the wait.
\<close>

definition thrdpool_in_pool :: "nat \<Rightarrow> tpool \<Rightarrow> bool" where
  "thrdpool_in_pool t s \<longleftrightarrow> ph s t \<noteq> WNone"

definition destroy_begin :: "nat \<Rightarrow> tpool \<Rightarrow> tpool" where
  "destroy_begin t s = terminate_begin (if thrdpool_in_pool t s then t else 0) s"

text \<open>
  The loop that waits: its test, which goes on to the join or to sleep, and the wait that returns without
  a signal.
\<close>

definition terminate_test :: "tpool \<Rightarrow> tpool" where
  "terminate_test s = s\<lparr>dst := (if nthreads s > 0 then DSleep else DJoin)\<rparr>"

definition terminate_wake :: "tpool \<Rightarrow> tpool" where
  "terminate_wake s = s\<lparr>dst := DWait\<rparr>"

definition terminate_join :: "tpool \<Rightarrow> tpool" where
  "terminate_join s = s\<lparr>dst := DDrain, joined := (if tid s \<noteq> 0 then joined s @ [tid s] else joined s)\<rparr>"

definition destroy_drain :: "tpool \<Rightarrow> tpool" where
  "destroy_drain s =
     (case queue s of
        x # xs \<Rightarrow> s\<lparr>queue := xs, pended := pended s @ [x]\<rparr>
      | [] \<Rightarrow> s\<lparr>dst := DDone, freed := (if destroyer s = 0 then True else freed s)\<rparr>)"

text \<open>
  \<open>n\<close> is the number of threads the pool is created with. A pool is not scheduled to before
  \<open>thrdpool_create\<close> has returned nor after it was destroyed, is destroyed once, and not while or
  before a thread is being added.
\<close>

inductive tp_step :: "nat \<Rightarrow> tpool \<Rightarrow> tpool \<Rightarrow> bool" for n where
  create_begin: "\<not> ready s \<Longrightarrow> \<not> adding s \<Longrightarrow> dst s = DIdle \<Longrightarrow> unat (nthreads s) < n \<Longrightarrow> t \<noteq> 0 \<Longrightarrow>
    ph s t = WNone \<Longrightarrow> tp_step n s (thread_begin t s)"
| create_done: "\<not> ready s \<Longrightarrow> \<not> adding s \<Longrightarrow> dst s = DIdle \<Longrightarrow> unat (nthreads s) = n \<Longrightarrow>
    tp_step n s (s\<lparr>ready := True\<rparr>)"
| increase_begin: "ready s \<Longrightarrow> \<not> adding s \<Longrightarrow> dst s = DIdle \<Longrightarrow> t \<noteq> 0 \<Longrightarrow> ph s t = WNone \<Longrightarrow>
    tp_step n s (thread_begin t s)"
| count: "adding s \<Longrightarrow> tp_step n s (thread_count s)"
| schedule: "ready s \<Longrightarrow> dst s \<noteq> DDone \<Longrightarrow> tp_step n s (thrdpool_schedule x s)"
| w_test: "ph s t = WLoop \<Longrightarrow> tp_step n s (routine_test t s)"
| w_get: "ph s t = WGet \<Longrightarrow> routine_get t s = Some s' \<Longrightarrow> tp_step n s s'"
| w_done: "ph s t = WTask x \<Longrightarrow> t = destroyer s \<longrightarrow> dst s = DDone \<Longrightarrow>
    tp_step n s (s\<lparr>ph := (ph s)(t := WCheck)\<rparr>)"
| w_check: "ph s t = WCheck \<Longrightarrow> tp_step n s (routine_check t s)"
| w_exit: "ph s t = WExit \<Longrightarrow> \<not> adding s \<Longrightarrow> tp_step n s (routine_exit t s)"
| w_join: "ph s t = WJoining u \<Longrightarrow> u = 0 \<or> ph s u = WEnded \<Longrightarrow> tp_step n s (routine_join t u s)"
| destroy_outside: "dst s = DIdle \<Longrightarrow> \<not> adding s \<Longrightarrow> tp_step n s (terminate_begin 0 s)"
| destroy_inside: "dst s = DIdle \<Longrightarrow> \<not> adding s \<Longrightarrow> ph s t = WTask x \<Longrightarrow> tp_step n s (terminate_begin t s)"
| d_wait: "dst s = DWait \<Longrightarrow> tp_step n s (terminate_test s)"
| d_spurious: "dst s = DSleep \<Longrightarrow> tp_step n s (terminate_wake s)"
| d_join: "dst s = DJoin \<Longrightarrow> tid s = 0 \<or> ph s (tid s) = WEnded \<Longrightarrow> tp_step n s (terminate_join s)"
| d_drain: "dst s = DDrain \<Longrightarrow> tp_step n s (destroy_drain s)"

inductive tp_reach :: "nat \<Rightarrow> tpool \<Rightarrow> bool" for n where
  start: "tp_reach n tp_start"
| step: "tp_reach n s \<Longrightarrow> tp_step n s s' \<Longrightarrow> tp_reach n s'"

text \<open>The two ways in which the pool can be destroyed are calls of \<open>thrdpool_destroy\<close> by a thread that is
  not a worker and by one that is in a task; a failed allocation leaves the pool as it is.\<close>

lemma destroy_begin_step:
  assumes "dst s = DIdle" "\<not> adding s" "ph s t = WNone \<or> (\<exists>x. ph s t = WTask x)"
  shows "tp_step n s (destroy_begin t s)"
  using assms by (auto simp: destroy_begin_def thrdpool_in_pool_def intro: tp_step.intros)

lemma schedule_call_step:
  "ready s \<Longrightarrow> dst s \<noteq> DDone \<Longrightarrow> tp_step n s (fst (schedule_call buf x s)) \<or> schedule_call buf x s = (s, - 1)"
  by (simp add: schedule_call_def schedule)

section \<open>Counting the workers\<close>

definition live_phase :: "wphase \<Rightarrow> bool" where
  "live_phase p = (case p of WNone \<Rightarrow> False | WJoining _ \<Rightarrow> False | WEnded \<Rightarrow> False | _ \<Rightarrow> True)"

definition live :: "tpool \<Rightarrow> nat set" where
  "live s = {t. live_phase (ph s t)}"

text \<open>Workers that run but are not in \<open>nthreads\<close>: one being added, the one that destroys.\<close>

definition uncounted :: "tpool \<Rightarrow> nat" where
  "uncounted s = (if adding s then 1 else 0) + (if dst s \<noteq> DIdle \<and> destroyer s \<in> live s then 1 else 0)"

definition count_ok :: "tpool \<Rightarrow> bool" where
  "count_ok s \<longleftrightarrow> distinct (created s) \<and> (\<forall>t. t \<in> set (created s) \<longleftrightarrow> ph s t \<noteq> WNone) \<and>
     ph s 0 = WNone \<and> unat (nthreads s) + uncounted s = card (live s)"

text \<open>Which phases a worker can be in, by the stage of the destruction and whether tasks can exist.\<close>

definition phase_ok :: "dphase \<Rightarrow> bool \<Rightarrow> wphase \<Rightarrow> bool" where
  "phase_ok d r p = (case p of WTask _ \<Rightarrow> r | WCheck \<Rightarrow> r | WExit \<Rightarrow> d \<noteq> DIdle | WJoining _ \<Rightarrow> d \<noteq> DIdle
     | WEnded \<Rightarrow> d \<noteq> DIdle | _ \<Rightarrow> True)"

definition phases_ok :: "tpool \<Rightarrow> bool" where
  "phases_ok s \<longleftrightarrow> (\<forall>t. phase_ok (dst s) (ready s) (ph s t))"

definition flags_ok :: "nat \<Rightarrow> tpool \<Rightarrow> bool" where
  "flags_ok n s \<longleftrightarrow>
     (dst s = DIdle \<longrightarrow> \<not> terminate s \<and> \<not> nonblocking s \<and> \<not> freed s \<and> destroyer s = 0) \<and>
     (\<not> ready s \<longrightarrow> queue s = []) \<and>
     (ready s \<and> dst s = DIdle \<longrightarrow> n \<le> unat (nthreads s)) \<and>
     (dst s \<noteq> DIdle \<longrightarrow> \<not> adding s \<and> terminate s \<and> nonblocking s) \<and>
     (dst s = DJoin \<or> dst s = DDrain \<or> dst s = DDone \<longrightarrow> nthreads s = 0) \<and>
     (dst s = DSleep \<longrightarrow> nthreads s \<noteq> 0)"

definition stage_ok :: "nat \<Rightarrow> tpool \<Rightarrow> bool" where
  "stage_ok n s \<longleftrightarrow> flags_ok n s \<and> phases_ok s"

text \<open>The thread that destroys the pool from inside a task, and who frees the pool.\<close>

definition destroyer_ok :: "tpool \<Rightarrow> bool" where
  "destroyer_ok s \<longleftrightarrow>
     (if destroyer s = 0 then freed s = (dst s = DDone)
      else if freed s then dst s = DDone \<and> ph s (destroyer s) = WEnded
      else if dst s = DDone then ph s (destroyer s) = WCheck \<or> (\<exists>x. ph s (destroyer s) = WTask x)
      else dst s \<noteq> DIdle \<and> (\<exists>x. ph s (destroyer s) = WTask x))"

definition pool_ok :: "nat \<Rightarrow> tpool \<Rightarrow> bool" where
  "pool_ok n s \<longleftrightarrow> count_ok s \<and> stage_ok n s \<and> destroyer_ok s"

lemma phase_ok_simps [simp]:
  "phase_ok d r WNone" "phase_ok d r WLoop" "phase_ok d r WGet" "phase_ok d r (WTask x) = r"
  "phase_ok d r WCheck = r" "phase_ok d r WExit = (d \<noteq> DIdle)" "phase_ok d r (WJoining u) = (d \<noteq> DIdle)"
  "phase_ok d r WEnded = (d \<noteq> DIdle)"
  by (simp_all add: phase_ok_def)

lemma term_signal_iff [simp]:
  "term_signal d = DIdle \<longleftrightarrow> d = DIdle" "term_signal d = DJoin \<longleftrightarrow> d = DJoin" "term_signal d = DDrain \<longleftrightarrow> d = DDrain"
  "term_signal d = DDone \<longleftrightarrow> d = DDone" "term_signal d \<noteq> DSleep"
  by (simp_all add: term_signal_def)

lemma routine_exit_sel [simp]:
  "dst (routine_exit t s) = (if nthreads s - 1 = 0 then term_signal (dst s) else dst s)"
  "ph (routine_exit t s) = (ph s)(t := WJoining (tid s))" "exits (routine_exit t s) = exits s @ [t]"
  "tid (routine_exit t s) = t" "nthreads (routine_exit t s) = nthreads s - 1" "joined (routine_exit t s) = joined s"
  "created (routine_exit t s) = created s" "adding (routine_exit t s) = adding s" "ready (routine_exit t s) = ready s"
  "destroyer (routine_exit t s) = destroyer s" "freed (routine_exit t s) = freed s" "queue (routine_exit t s) = queue s"
  "terminate (routine_exit t s) = terminate s" "nonblocking (routine_exit t s) = nonblocking s"
  "scheduled (routine_exit t s) = scheduled s" "started (routine_exit t s) = started s" "pended (routine_exit t s) = pended s"
  by (simp_all add: routine_exit_def)

lemma phases_at: "phases_ok s \<Longrightarrow> phase_ok (dst s) (ready s) (ph s t)"
  by (simp add: phases_ok_def)

lemma phase_ok_stage: "d = DIdle \<longleftrightarrow> e = DIdle \<Longrightarrow> phase_ok d r p = phase_ok e r p"
  by (cases p) simp_all

lemma phases_upd:
  "phases_ok s \<Longrightarrow> phase_ok (dst s) (ready s) p \<Longrightarrow> ph s' = (ph s)(t := p) \<Longrightarrow>
   dst s' = DIdle \<longleftrightarrow> dst s = DIdle \<Longrightarrow> ready s' = ready s \<Longrightarrow> phases_ok s'"
  using phase_ok_stage [of "dst s'" "dst s"] by (simp add: phases_ok_def)

lemma phases_same:
  "phases_ok s \<Longrightarrow> ph s' = ph s \<Longrightarrow> dst s' = DIdle \<longrightarrow> dst s = DIdle \<Longrightarrow> ready s \<longrightarrow> ready s' \<Longrightarrow> phases_ok s'"
  unfolding phases_ok_def phase_ok_def by (fastforce split: wphase.splits)

lemma pool_okD:
  assumes "pool_ok n s"
  shows "count_ok s" "flags_ok n s" "phases_ok s" "destroyer_ok s"
  using assms by (simp_all add: pool_ok_def stage_ok_def)

lemma pool_okI: "count_ok s \<Longrightarrow> flags_ok n s \<Longrightarrow> phases_ok s \<Longrightarrow> destroyer_ok s \<Longrightarrow> pool_ok n s"
  by (simp add: pool_ok_def stage_ok_def)

lemma flags_okD:
  assumes "flags_ok n s"
  shows "dst s = DIdle \<Longrightarrow> \<not> terminate s" "dst s = DIdle \<Longrightarrow> \<not> nonblocking s" "dst s = DIdle \<Longrightarrow> \<not> freed s"
    "dst s = DIdle \<Longrightarrow> destroyer s = 0" "\<not> ready s \<Longrightarrow> queue s = []"
    "ready s \<Longrightarrow> dst s = DIdle \<Longrightarrow> n \<le> unat (nthreads s)"
    "dst s \<noteq> DIdle \<Longrightarrow> \<not> adding s" "dst s \<noteq> DIdle \<Longrightarrow> terminate s" "dst s \<noteq> DIdle \<Longrightarrow> nonblocking s"
    "dst s = DJoin \<or> dst s = DDrain \<or> dst s = DDone \<Longrightarrow> nthreads s = 0"
    "dst s = DSleep \<Longrightarrow> nthreads s \<noteq> 0"
  using assms by (simp_all add: flags_ok_def)

lemma live_phase_simps [simp]:
  "\<not> live_phase WNone" "live_phase WLoop" "live_phase WGet" "live_phase (WTask x)" "live_phase WCheck"
  "live_phase WExit" "\<not> live_phase (WJoining u)" "\<not> live_phase WEnded"
  by (simp_all add: live_phase_def)

lemma live_upd:
  assumes "ph s' = (ph s)(t := p)"
  shows "live s' = (if live_phase p then insert t (live s) else live s - {t})"
  using assms by (auto simp: live_def)

lemma count_okD:
  assumes "count_ok s"
  shows "distinct (created s)" "t \<in> set (created s) \<longleftrightarrow> ph s t \<noteq> WNone" "ph s 0 = WNone"
    "unat (nthreads s) + uncounted s = card (live s)"
  using assms by (simp_all add: count_ok_def)

lemma live_created: "count_ok s \<Longrightarrow> live s \<subseteq> set (created s)"
proof
  fix t assume c: "count_ok s" and "t \<in> live s"
  then have "ph s t \<noteq> WNone" by (cases "ph s t") (simp_all add: live_def)
  then show "t \<in> set (created s)" using count_okD(2) [OF c] by simp
qed

lemma finite_live: "count_ok s \<Longrightarrow> finite (live s)"
  using live_created finite_subset by blast

lemma card_live: "count_ok s \<Longrightarrow> card (live s) \<le> length (created s)"
  using card_mono [OF _ live_created] count_okD(1) distinct_card by fastforce

lemma live_not_none: "live_phase p \<Longrightarrow> p \<noteq> WNone"
  by (cases p) simp_all

text \<open>A step of one worker that stays a worker.\<close>

lemma stay_live_count:
  assumes c: "count_ok s" and t: "live_phase (ph s t)" and p: "live_phase p"
    and s': "ph s' = (ph s)(t := p)" "created s' = created s" "nthreads s' = nthreads s"
      "adding s' = adding s" "dst s' = dst s" "destroyer s' = destroyer s"
  shows "count_ok s' \<and> live s' = live s"
proof -
  have l: "live s' = live s" using live_upd [OF s'(1)] t p by (auto simp: live_def)
  have n: "p \<noteq> WNone" "ph s t \<noteq> WNone" "t \<noteq> 0"
    using t p live_not_none count_okD(3) [OF c] by metis+
  then have "\<forall>u. u \<in> set (created s') \<longleftrightarrow> ph s' u \<noteq> WNone"
    using count_okD(2) [OF c] unfolding s'(1,2) by simp
  moreover have "ph s' 0 = WNone" using n count_okD(3) [OF c] s'(1) by simp
  moreover have "uncounted s' = uncounted s" using l s' by (simp add: uncounted_def)
  ultimately show ?thesis using count_okD(1,4) [OF c] l s'(2,3) by (simp add: count_ok_def)
qed

lemma not_zero: "pool_ok n s \<Longrightarrow> ph s t \<noteq> WNone \<Longrightarrow> t \<noteq> 0"
  using count_okD(3) [OF pool_okD(1)] by metis

lemma destroyer_phase:
  assumes "pool_ok n s" "t = destroyer s" "t \<noteq> 0"
  shows "ph s t = WEnded \<and> freed s \<and> dst s = DDone \<or> ph s t = WCheck \<and> dst s = DDone \<or> (\<exists>x. ph s t = WTask x)"
  using pool_okD(4) [OF assms(1)] assms(2,3) by (simp add: destroyer_ok_def split: if_splits)

lemma not_destroyer:
  assumes "pool_ok n s" "ph s t = p" "p = WLoop \<or> p = WGet \<or> p = WExit \<or> p = WJoining u"
  shows "t \<noteq> destroyer s"
proof
  assume t: "t = destroyer s"
  have "t \<noteq> 0" using not_zero [OF assms(1), of t] assms(2,3) by auto
  from destroyer_phase [OF assms(1) t this] assms(2,3) show False by auto
qed

lemma thread_begin_ok:
  assumes ok: "pool_ok n s" and t: "t \<noteq> 0" "ph s t = WNone" and g: "\<not> adding s" "dst s = DIdle"
  shows "pool_ok n (thread_begin t s)"
proof (rule pool_okI)
  let ?s = "thread_begin t s"
  note c = pool_okD(1) [OF ok] and fl = pool_okD(2) [OF ok]
  have l: "live ?s = insert t (live s)" "t \<notin> live s"
    using t live_upd [of ?s s t WLoop] by (auto simp: thread_begin_def live_def)
  have "card (live ?s) = Suc (card (live s))" using l finite_live [OF c] by simp
  then show "count_ok ?s"
    using c t g by (auto simp: count_ok_def uncounted_def thread_begin_def)
  show "flags_ok n ?s" using fl g by (simp add: flags_ok_def thread_begin_def)
  show "phases_ok ?s"
    by (rule phases_upd [OF pool_okD(3) [OF ok], of WLoop]) (simp_all add: thread_begin_def)
  show "destroyer_ok ?s"
    using pool_okD(4) [OF ok] flags_okD(4) [OF fl g(2)] by (simp add: destroyer_ok_def thread_begin_def)
qed

lemma thread_count_ok:
  assumes ok: "pool_ok n s" and g: "adding s" and small: "length (created s) < 2 ^ 64"
  shows "pool_ok n (thread_count s)"
proof (rule pool_okI)
  let ?s = "thread_count s"
  note c = pool_okD(1) [OF ok] and fl = pool_okD(2) [OF ok]
  have idle: "dst s = DIdle" using flags_okD(7) [OF fl] g by blast
  have l: "live ?s = live s" by (simp add: live_def thread_count_def)
  have sum: "unat (nthreads s) + 1 = card (live s)" using count_okD(4) [OF c] g idle by (simp add: uncounted_def)
  then have "unat (nthreads s) + 1 < 2 ^ 64" using card_live [OF c] small by simp
  then have n1: "unat (nthreads s + 1) = unat (nthreads s) + 1" by (simp add: unat_simps)
  show "count_ok ?s" using c sum n1 idle l by (simp add: count_ok_def uncounted_def thread_count_def)
  show "flags_ok n ?s" using fl idle n1 by (auto simp: flags_ok_def thread_count_def)
  show "phases_ok ?s" by (rule phases_same [OF pool_okD(3) [OF ok]]) (simp_all add: thread_count_def)
  show "destroyer_ok ?s" using pool_okD(4) [OF ok] by (simp add: destroyer_ok_def thread_count_def)
qed

lemma stay_ok:
  assumes ok: "pool_ok n s" and t: "live_phase (ph s t)" and p: "live_phase p" "phase_ok (dst s) (ready s) p"
    and s': "ph s' = (ph s)(t := p)" "created s' = created s" "nthreads s' = nthreads s"
      "adding s' = adding s" "dst s' = dst s" "destroyer s' = destroyer s" "terminate s' = terminate s"
      "nonblocking s' = nonblocking s" "freed s' = freed s" "ready s' = ready s"
    and q: "\<not> ready s \<Longrightarrow> queue s' = []"
    and d: "t = destroyer s \<Longrightarrow> dst s = DDone \<and> \<not> freed s \<and> p = WCheck"
  shows "pool_ok n s'"
proof (rule pool_okI)
  show "count_ok s'" using stay_live_count [OF pool_okD(1) [OF ok] t p(1) s'(1-6)] by simp
  show "flags_ok n s'" using pool_okD(2) [OF ok] q by (simp add: flags_ok_def s')
  show "phases_ok s'" by (rule phases_upd [OF pool_okD(3) [OF ok] p(2)]) (simp_all add: s')
  have "t \<noteq> 0" using not_zero [OF ok live_not_none [OF t]] .
  then show "destroyer_ok s'"
    using pool_okD(4) [OF ok] d by (cases "t = destroyer s") (simp_all add: destroyer_ok_def s')
qed

lemma routine_test_ok:
  assumes ok: "pool_ok n s" and ph: "ph s t = WLoop"
  shows "pool_ok n (routine_test t s)"
proof -
  note fl = flags_okD [OF pool_okD(2) [OF ok]] and td = not_destroyer [OF ok ph]
  show ?thesis
  proof (cases "terminate s")
    case True
    then have "dst s \<noteq> DIdle" using fl(1) by blast
    then show ?thesis using True ph td fl(5)
      by (intro stay_ok [OF ok, of t WExit]) (simp_all add: routine_test_def)
  next
    case False
    then show ?thesis using ph td fl(5)
      by (intro stay_ok [OF ok, of t WGet]) (simp_all add: routine_test_def)
  qed
qed

lemma routine_get_ok:
  assumes ok: "pool_ok n s" and ph: "ph s t = WGet" and g: "routine_get t s = Some s'"
  shows "pool_ok n s'"
proof (cases "queue s")
  case Nil
  with g have s': "s' = s\<lparr>ph := (ph s)(t := WExit)\<rparr>" "nonblocking s"
    by (auto simp: routine_get_def split: if_splits)
  then have "dst s \<noteq> DIdle" using flags_okD(2) [OF pool_okD(2) [OF ok]] by blast
  then show ?thesis using s' ph Nil not_destroyer [OF ok ph]
    by (intro stay_ok [OF ok, of t WExit]) simp_all
next
  case (Cons x xs)
  with g have s': "s' = s\<lparr>queue := xs, ph := (ph s)(t := WTask x), started := started s @ [x]\<rparr>"
    by (simp add: routine_get_def)
  have "ready s" using flags_okD(5) [OF pool_okD(2) [OF ok]] Cons by auto
  then show ?thesis using s' ph not_destroyer [OF ok ph]
    by (intro stay_ok [OF ok, of t "WTask x"]) simp_all
qed

lemma w_done_ok:
  assumes ok: "pool_ok n s" and ph: "ph s t = WTask x" and d: "t = destroyer s \<longrightarrow> dst s = DDone"
  shows "pool_ok n (s\<lparr>ph := (ph s)(t := WCheck)\<rparr>)"
proof -
  have r: "ready s" using phases_at [OF pool_okD(3) [OF ok], of t] ph by simp
  have "t = destroyer s \<Longrightarrow> \<not> freed s"
    using pool_okD(4) [OF ok] ph not_zero [OF ok, of t] by (auto simp: destroyer_ok_def split: if_splits)
  with r d ph show ?thesis by (intro stay_ok [OF ok, of t WCheck]) simp_all
qed

text \<open>
  The test after a task: only the thread that destroyed the pool can find \<open>nthreads\<close> zero, provided
  the pool was created with at least one thread.
\<close>

lemma check_zero:
  assumes ok: "pool_ok n s" and n: "0 < n" and ph: "ph s t = WCheck" and z: "nthreads s = 0"
  shows "t = destroyer s \<and> live s = {t} \<and> dst s = DDone \<and> \<not> freed s"
proof -
  note c = pool_okD(1) [OF ok] and fl = pool_okD(2) [OF ok]
  have t: "t \<in> live s" "t \<noteq> 0" using ph not_zero [OF ok, of t] by (simp_all add: live_def)
  have "ready s" using phases_at [OF pool_okD(3) [OF ok], of t] ph by simp
  then have "dst s \<noteq> DIdle" using flags_okD(6) [OF fl] n z by auto
  moreover from this have "\<not> adding s" by (rule flags_okD(7) [OF fl])
  moreover have "card (live s) = uncounted s" using count_okD(4) [OF c] z by simp
  moreover have "0 < card (live s)" using t finite_live [OF c] by (auto simp: card_gt_0_iff)
  ultimately have d: "destroyer s \<in> live s" "card (live s) = 1" by (auto simp: uncounted_def split: if_splits)
  then have l: "live s = {t}" "t = destroyer s" using t(1) by (auto simp: card_1_singleton_iff)
  with destroyer_phase [OF ok l(2) t(2)] ph have "dst s = DDone" by auto
  moreover have "\<not> freed s"
    using pool_okD(4) [OF ok] l(2) t(2) ph by (auto simp: destroyer_ok_def)
  ultimately show ?thesis using l by simp
qed

lemma routine_check_ok:
  assumes ok: "pool_ok n s" and n: "0 < n" and ph: "ph s t = WCheck"
  shows "pool_ok n (routine_check t s)"
proof (cases "nthreads s = 0")
  case False
  have "t \<noteq> destroyer s"
  proof
    assume "t = destroyer s"
    with destroyer_phase [OF ok this not_zero [OF ok]] ph have "dst s = DDone" by auto
    with flags_okD(10) [OF pool_okD(2) [OF ok]] False show False by blast
  qed
  with False ph show ?thesis
    using flags_okD(5) [OF pool_okD(2) [OF ok]]
    by (intro stay_ok [OF ok, of t WLoop]) (simp_all add: routine_check_def)
next
  case True
  from check_zero [OF ok n ph True] have z: "t = destroyer s" "live s = {t}" "dst s = DDone" by auto
  define s1 where s1: "s1 = s\<lparr>freed := True, ph := (ph s)(t := WEnded)\<rparr>"
  note c = pool_okD(1) [OF ok] and fl = pool_okD(2) [OF ok]
  have "t \<noteq> 0" using not_zero [OF ok, of t] ph by simp
  have l: "live s1 = {}" using z(2) live_upd [of s1 s t WEnded] s1 by simp
  have "\<not> adding s" using flags_okD(7) [OF fl] z(3) by simp
  then have "count_ok s1"
    using c l True ph \<open>t \<noteq> 0\<close> by (auto simp: count_ok_def uncounted_def s1)
  moreover have "flags_ok n s1" using fl z(3) by (simp add: flags_ok_def s1)
  moreover have "phases_ok s1" by (rule phases_upd [OF pool_okD(3) [OF ok], of WEnded]) (simp_all add: s1 z)
  moreover have "destroyer_ok s1" using z \<open>t \<noteq> 0\<close> by (simp add: destroyer_ok_def s1)
  moreover have "routine_check t s = s1" using True by (simp add: routine_check_def s1)
  ultimately show ?thesis by (simp add: pool_okI)
qed

lemma routine_exit_ok:
  assumes ok: "pool_ok n s" and ph: "ph s t = WExit" and a: "\<not> adding s"
  shows "pool_ok n (routine_exit t s) \<and> 0 < unat (nthreads s)"
proof -
  let ?s = "routine_exit t s"
  note c = pool_okD(1) [OF ok] and fl = pool_okD(2) [OF ok]
  have t: "t \<in> live s" "t \<noteq> 0" using ph not_zero [OF ok, of t] by (simp_all add: live_def)
  have td: "t \<noteq> destroyer s" using not_destroyer [OF ok ph] by simp
  have l: "live ?s = live s - {t}" using live_upd [of ?s s t "WJoining (tid s)"] by (simp add: routine_exit_def)
  have fin: "finite (live s)" by (rule finite_live [OF c])
  have "uncounted s < card (live s)"
  proof (cases "destroyer s \<in> live s")
    case True
    then have "card {t, destroyer s} \<le> card (live s)" using t fin by (intro card_mono) auto
    with a td show ?thesis by (simp add: uncounted_def)
  next
    case False
    then have "uncounted s = 0" using a by (simp add: uncounted_def)
    moreover have "0 < card (live s)" using t fin by (auto simp: card_gt_0_iff)
    ultimately show ?thesis by simp
  qed
  then have pos: "0 < unat (nthreads s)" using count_okD(4) [OF c] by simp
  then have n1: "unat (nthreads s - 1) = unat (nthreads s) - 1" by (simp add: unat_simps)
  have "uncounted ?s = uncounted s" using l td by (simp add: uncounted_def routine_exit_def)
  moreover have "card (live ?s) = card (live s) - 1" using l t fin by simp
  ultimately have "count_ok ?s"
    using c pos n1 t ph by (auto simp: count_ok_def routine_exit_def)
  moreover have d: "dst s \<noteq> DIdle" using phases_at [OF pool_okD(3) [OF ok], of t] ph by simp
  moreover have "nthreads s \<noteq> 0" using pos by auto
  then have "flags_ok n ?s" using fl d by (auto simp: flags_ok_def routine_exit_def)
  moreover have "phases_ok ?s"
    by (rule phases_upd [OF pool_okD(3) [OF ok], of "WJoining (tid s)"]) (simp_all add: routine_exit_def d)
  moreover have "destroyer_ok ?s" using pool_okD(4) [OF ok] td by (auto simp: destroyer_ok_def split: if_splits)
  ultimately show ?thesis using pos by (simp add: pool_okI)
qed

lemma routine_join_ok:
  assumes ok: "pool_ok n s" and ph: "ph s t = WJoining u"
  shows "pool_ok n (routine_join t u s)"
proof (rule pool_okI)
  let ?s = "routine_join t u s"
  note c = pool_okD(1) [OF ok] and fl = pool_okD(2) [OF ok]
  have t: "t \<noteq> 0" "t \<notin> live s" using ph not_zero [OF ok, of t] by (simp_all add: live_def)
  have td: "t \<noteq> destroyer s" using not_destroyer [OF ok ph] by simp
  have l: "live ?s = live s" using live_upd [of ?s s t WEnded] t by (simp add: routine_join_def)
  show "count_ok ?s" using c t ph l by (auto simp: count_ok_def uncounted_def routine_join_def)
  show "flags_ok n ?s" using fl by (simp add: flags_ok_def routine_join_def)
  have "dst s \<noteq> DIdle" using phases_at [OF pool_okD(3) [OF ok], of t] ph by simp
  then show "phases_ok ?s" by (intro phases_upd [OF pool_okD(3) [OF ok], of WEnded]) (simp_all add: routine_join_def)
  show "destroyer_ok ?s" using pool_okD(4) [OF ok] td by (simp add: destroyer_ok_def routine_join_def)
qed

lemma terminate_begin_ok:
  assumes ok: "pool_ok n s" and g: "dst s = DIdle" "\<not> adding s" and me: "me = 0 \<or> ph s me = WTask x"
  shows "pool_ok n (terminate_begin me s)"
proof (rule pool_okI)
  let ?s = "terminate_begin me s"
  note c = pool_okD(1) [OF ok] and fl = pool_okD(2) [OF ok]
  have l: "live ?s = live s" by (simp add: live_def terminate_begin_def)
  have zero: "0 \<notin> live s" using count_okD(3) [OF c] by (simp add: live_def)
  have sum: "unat (nthreads s) = card (live s)" using count_okD(4) [OF c] g by (simp add: uncounted_def)
  show "count_ok ?s"
  proof (cases "me = 0")
    case True
    with c l zero sum g show ?thesis by (simp add: count_ok_def uncounted_def terminate_begin_def)
  next
    case False
    with me have m: "me \<in> live s" by (auto simp: live_def)
    then have "0 < card (live s)" using finite_live [OF c] by (auto simp: card_gt_0_iff)
    then have "unat (nthreads s - 1) + 1 = card (live s)" using sum by (simp add: unat_simps)
    with c l m g False show ?thesis by (simp add: count_ok_def uncounted_def terminate_begin_def)
  qed
  show "flags_ok n ?s" using fl g by (simp add: flags_ok_def terminate_begin_def)
  show "phases_ok ?s" using phases_same [OF pool_okD(3) [OF ok], of ?s] by (simp add: terminate_begin_def)
  show "destroyer_ok ?s"
    using flags_okD(3) [OF fl g(1)] g me by (auto simp: destroyer_ok_def terminate_begin_def)
qed

lemma same_workers:
  assumes "pool_ok n s" and s': "ph s' = ph s" "created s' = created s" "nthreads s' = nthreads s"
    "adding s' = adding s" "dst s' = DIdle \<longleftrightarrow> dst s = DIdle" "destroyer s' = destroyer s"
    "ready s \<longrightarrow> ready s'"
  shows "count_ok s' \<and> live s' = live s \<and> phases_ok s'"
proof -
  have l: "live s' = live s" by (simp add: live_def s')
  then have "uncounted s' = uncounted s" using s' by (simp add: uncounted_def)
  then have "count_ok s'" using pool_okD(1) [OF assms(1)] s' l by (simp add: count_ok_def)
  moreover have "phases_ok s'" using phases_same [OF pool_okD(3) [OF assms(1)]] s' by blast
  ultimately show ?thesis using l by simp
qed

lemma drain_done_live:
  assumes ok: "pool_ok n s" and d: "dst s = DJoin \<or> dst s = DDrain \<or> dst s = DDone"
  shows "live s \<subseteq> {destroyer s}"
proof -
  note c = pool_okD(1) [OF ok] and fl = pool_okD(2) [OF ok]
  have a: "\<not> adding s" using flags_okD(7) [OF fl] d by auto
  have "nthreads s = 0" by (rule flags_okD(10) [OF fl d])
  then have "card (live s) = uncounted s" using count_okD(4) [OF c] by simp
  with a have "live s = {} \<or> destroyer s \<in> live s \<and> card (live s) = 1"
    using finite_live [OF c] by (auto simp: uncounted_def split: if_splits)
  then show ?thesis by (auto simp: card_1_singleton_iff)
qed

lemma destroyer_same:
  "destroyer_ok s \<Longrightarrow> ph s' = ph s \<Longrightarrow> destroyer s' = destroyer s \<Longrightarrow> freed s' = freed s \<Longrightarrow>
   dst s' = DDone \<longleftrightarrow> dst s = DDone \<Longrightarrow> dst s' = DIdle \<longleftrightarrow> dst s = DIdle \<Longrightarrow> destroyer_ok s'"
  by (simp add: destroyer_ok_def)

lemma same_pool_ok:
  assumes ok: "pool_ok n s" and s': "ph s' = ph s" "created s' = created s" "nthreads s' = nthreads s"
    "adding s' = adding s" "dst s' = DIdle \<longleftrightarrow> dst s = DIdle" "destroyer s' = destroyer s"
    "ready s \<longrightarrow> ready s'"
    and f: "freed s' = freed s" "dst s' = DDone \<longleftrightarrow> dst s = DDone" "flags_ok n s'"
  shows "pool_ok n s'"
  using same_workers [OF ok s'] destroyer_same [OF pool_okD(4) [OF ok] s'(1,6) f(1,2) s'(5)] f(3)
  by (intro pool_okI) blast+

lemma d_wait_ok:
  assumes ok: "pool_ok n s" and g: "dst s = DWait"
  shows "pool_ok n (terminate_test s)"
  using pool_okD(2) [OF ok] g
  by (intro same_pool_ok [OF ok]) (auto simp: flags_ok_def terminate_test_def word_gt_0)

lemma d_spurious_ok:
  assumes ok: "pool_ok n s" and g: "dst s = DSleep"
  shows "pool_ok n (terminate_wake s)"
  using pool_okD(2) [OF ok] g by (intro same_pool_ok [OF ok]) (simp_all add: flags_ok_def terminate_wake_def)

lemma d_join_ok:
  assumes ok: "pool_ok n s" and g: "dst s = DJoin"
  shows "pool_ok n (terminate_join s)"
  using pool_okD(2) [OF ok] g by (intro same_pool_ok [OF ok]) (simp_all add: flags_ok_def terminate_join_def)

lemma create_done_ok:
  assumes ok: "pool_ok n s" and g: "unat (nthreads s) = n"
  shows "pool_ok n (s\<lparr>ready := True\<rparr>)"
  using pool_okD(2) [OF ok] g by (intro same_pool_ok [OF ok]) (simp_all add: flags_ok_def)

lemma schedule_ok:
  assumes ok: "pool_ok n s" and g: "ready s"
  shows "pool_ok n (thrdpool_schedule x s)"
  using pool_okD(2) [OF ok] g
  by (intro same_pool_ok [OF ok]) (simp_all add: flags_ok_def thrdpool_schedule_def)

lemma d_drain_ok:
  assumes ok: "pool_ok n s" and g: "dst s = DDrain"
  shows "pool_ok n (destroy_drain s)"
proof (rule pool_okI)
  have w: "count_ok (destroy_drain s) \<and> live (destroy_drain s) = live s \<and> phases_ok (destroy_drain s)"
    by (rule same_workers [OF ok]) (simp_all add: destroy_drain_def g split: list.splits)
  then show "count_ok (destroy_drain s)" "phases_ok (destroy_drain s)" by blast+
  show "flags_ok n (destroy_drain s)"
    using pool_okD(2) [OF ok] g by (auto simp: flags_ok_def destroy_drain_def split: list.splits)
  show "destroyer_ok (destroy_drain s)"
    using pool_okD(4) [OF ok] g by (auto simp: destroyer_ok_def destroy_drain_def split: list.splits if_splits)
qed

lemma start_ok: "pool_ok n tp_start"
  by (intro pool_okI)
    (simp_all add: count_ok_def uncounted_def live_def phases_ok_def flags_ok_def destroyer_ok_def tp_start_def)

lemma step_pool_ok:
  assumes "tp_step n s s'" and ok: "pool_ok n s" and "0 < n" "length (created s) < 2 ^ 64"
  shows "pool_ok n s'"
  using assms(1)
proof cases
  case (count)
  then show ?thesis using thread_count_ok [OF ok] assms(4) by simp
next
  case (w_check t)
  then show ?thesis using routine_check_ok [OF ok \<open>0 < n\<close>] by simp
next
  case (w_get t)
  then show ?thesis using routine_get_ok [OF ok] by blast
next
  case (destroy_inside t x)
  then show ?thesis using terminate_begin_ok [OF ok, of t x] by simp
qed (simp_all add: ok thread_begin_ok create_done_ok schedule_ok routine_test_ok w_done_ok
    routine_exit_ok routine_join_ok d_wait_ok d_spurious_ok d_join_ok d_drain_ok terminate_begin_ok)

lemma step_created: "tp_step n s s' \<Longrightarrow> \<exists>ts. created s' = created s @ ts"
  by (induction rule: tp_step.induct)
    (auto simp: thread_begin_def thread_count_def thrdpool_schedule_def routine_test_def routine_get_def
      routine_check_def routine_exit_def routine_join_def terminate_begin_def terminate_join_def
      terminate_test_def terminate_wake_def destroy_drain_def split: list.splits if_splits)

section \<open>One thread joins another\<close>

text \<open>
  Workers that have left the loop. \<open>exits\<close> lists them in the order of their critical sections; the
  first \<open>m\<close> of them have ended, each other one waits for its predecessor in the list, and a thread
  has been joined when its successor has ended. The last one is left for the destroying thread.
\<close>

definition gone_phase :: "wphase \<Rightarrow> bool" where
  "gone_phase p = (case p of WJoining _ \<Rightarrow> True | WEnded \<Rightarrow> True | _ \<Rightarrow> False)"

definition gone :: "tpool \<Rightarrow> nat set" where
  "gone s = {t. gone_phase (ph s t)}"

definition drained :: "tpool \<Rightarrow> bool" where
  "drained s \<longleftrightarrow> dst s = DDrain \<or> dst s = DDone"

definition chain_ok :: "nat \<Rightarrow> tpool \<Rightarrow> bool" where
  "chain_ok m s \<longleftrightarrow> distinct (exits s) \<and> m \<le> length (exits s) \<and> tid s = last (0 # exits s) \<and>
     (\<forall>i < length (exits s). ph s (exits s ! i) = (if i < m then WEnded else WJoining ((0 # exits s) ! i))) \<and>
     joined s = (if drained s then exits s else take (m - 1) (exits s)) \<and>
     (drained s \<longrightarrow> m = length (exits s)) \<and> set (exits s) = gone s - {destroyer s}"

lemma gone_phase_simps [simp]:
  "\<not> gone_phase WNone" "\<not> gone_phase WLoop" "\<not> gone_phase WGet" "\<not> gone_phase (WTask x)"
  "\<not> gone_phase WCheck" "\<not> gone_phase WExit" "gone_phase (WJoining u)" "gone_phase WEnded"
  by (simp_all add: gone_phase_def)

lemma live_not_gone: "live_phase p \<Longrightarrow> \<not> gone_phase p"
  by (cases p) simp_all

lemma gone_upd:
  assumes "ph s' = (ph s)(t := p)"
  shows "gone s' = (if gone_phase p then insert t (gone s) else gone s - {t})"
  using assms by (auto simp: gone_def)

lemma chain_okD:
  assumes "chain_ok m s"
  shows "distinct (exits s)" "m \<le> length (exits s)" "tid s = last (0 # exits s)"
    "i < m \<Longrightarrow> ph s (exits s ! i) = WEnded"
    "m \<le> i \<Longrightarrow> i < length (exits s) \<Longrightarrow> ph s (exits s ! i) = WJoining ((0 # exits s) ! i)"
    "drained s \<Longrightarrow> joined s = exits s" "\<not> drained s \<Longrightarrow> joined s = take (m - 1) (exits s)"
    "drained s \<Longrightarrow> m = length (exits s)" "set (exits s) = gone s - {destroyer s}"
  using assms by (simp_all add: chain_ok_def)

lemma exits_frame:
  assumes ch: "chain_ok m s" and s': "exits s' = exits s" "joined s' = joined s" "tid s' = tid s"
    "drained s' = drained s" and g: "gone s' - {destroyer s'} = gone s - {destroyer s}"
    and p: "\<forall>u \<in> set (exits s). ph s' u = ph s u"
  shows "chain_ok m s'"
proof -
  have "\<forall>i < length (exits s). ph s' (exits s ! i) = ph s (exits s ! i)" using p by simp
  then show ?thesis using ch g unfolding chain_ok_def s' by simp
qed

lemma chain_live_step:
  assumes ch: "chain_ok m s" and t: "\<not> gone_phase (ph s t)" and p: "\<not> gone_phase p"
    and s': "ph s' = (ph s)(t := p)" "exits s' = exits s" "joined s' = joined s" "tid s' = tid s"
      "dst s' = dst s" "destroyer s' = destroyer s"
  shows "chain_ok m s'"
proof (rule exits_frame [OF ch s'(2-4)])
  show "drained s' = drained s" by (simp add: drained_def s')
  show "gone s' - {destroyer s'} = gone s - {destroyer s}"
    using gone_upd [OF s'(1)] p t s'(6) by (auto simp: gone_def)
  have "t \<notin> set (exits s)" using chain_okD(9) [OF ch] t by (simp add: gone_def)
  then show "\<forall>u \<in> set (exits s). ph s' u = ph s u" by (auto simp: s')
qed

lemma chain_same_ph:
  assumes ch: "chain_ok m s" and s': "ph s' = ph s" "exits s' = exits s" "joined s' = joined s"
    "tid s' = tid s" "drained s' = drained s" "destroyer s' = destroyer s"
  shows "chain_ok m s'"
  by (rule exits_frame [OF ch s'(2-5)]) (simp_all add: s' gone_def)

lemma chain_check:
  assumes ok: "pool_ok n s" "0 < n" and ch: "chain_ok m s" and ph: "ph s t = WCheck"
  shows "chain_ok m (routine_check t s)"
proof (cases "nthreads s = 0")
  case True
  define s1 where s1: "s1 = s\<lparr>freed := True, ph := (ph s)(t := WEnded)\<rparr>"
  have t: "t = destroyer s" using check_zero [OF ok ph True] by simp
  have "chain_ok m s1"
  proof (rule exits_frame [OF ch])
    show "gone s1 - {destroyer s1} = gone s - {destroyer s}"
      using gone_upd [of s1 s t WEnded] t by (auto simp: s1)
    have "t \<notin> set (exits s)" using chain_okD(9) [OF ch] t by simp
    then show "\<forall>u \<in> set (exits s). ph s1 u = ph s u" by (auto simp: s1)
  qed (simp_all add: s1 drained_def)
  then show ?thesis using True by (simp add: routine_check_def s1)
next
  case False
  then show ?thesis using ph
    by (intro chain_live_step [OF ch, of t WLoop]) (simp_all add: routine_check_def)
qed

lemma nth_Cons_snoc: "i < length xs \<Longrightarrow> (y # xs @ [x]) ! i = (y # xs) ! i"
  by (cases i) (simp_all add: nth_append)

lemma chain_exit:
  assumes ok: "pool_ok n s" and ch: "chain_ok m s" and ph: "ph s t = WExit"
  shows "chain_ok m (routine_exit t s)"
proof -
  let ?s = "routine_exit t s"
  have td: "t \<noteq> destroyer s" using not_destroyer [OF ok ph] by simp
  have "t \<in> live s" using ph by (simp add: live_def)
  then have dr: "\<not> drained s" using drain_done_live [OF ok] td by (auto simp: drained_def)
  have new: "t \<notin> set (exits s)" using chain_okD(9) [OF ch] ph by (simp add: gone_def)
  have g: "gone ?s = insert t (gone s)"
    using gone_upd [of ?s s t "WJoining (tid s)"] by (simp add: routine_exit_def)
  have "\<forall>i < length (exits ?s). ph ?s (exits ?s ! i) = (if i < m then WEnded else WJoining ((0 # exits ?s) ! i))"
  proof (intro allI impI)
    fix i assume i: "i < length (exits ?s)"
    show "ph ?s (exits ?s ! i) = (if i < m then WEnded else WJoining ((0 # exits ?s) ! i))"
    proof (cases "i < length (exits s)")
      case True
      then have "exits s ! i \<noteq> t" using new by auto
      then show ?thesis
        using True chain_okD(4,5) [OF ch, of i] by (simp add: routine_exit_def nth_append nth_Cons_snoc)
    next
      case False
      with i have e: "i = length (exits s)" by (simp add: routine_exit_def)
      have "(0 # exits s @ [t]) ! length (exits s) = last (0 # exits s)"
        by (cases "exits s" rule: rev_cases) (simp_all add: nth_append)
      then show ?thesis using e chain_okD(2,3) [OF ch] by (simp add: routine_exit_def nth_append)
    qed
  qed
  moreover have "joined ?s = take (m - 1) (exits ?s)"
    using chain_okD(2,7) [OF ch] dr by (simp add: routine_exit_def)
  moreover have "\<not> drained ?s" using dr by (simp add: drained_def routine_exit_def)
  moreover have "set (exits ?s) = gone ?s - {destroyer ?s}"
    using g td chain_okD(9) [OF ch] by (auto simp: routine_exit_def)
  ultimately show ?thesis
    using chain_okD(1,2,3) [OF ch] new unfolding chain_ok_def by (simp add: routine_exit_def)
qed

lemma chain_join:
  assumes ok: "pool_ok n s" and ch: "chain_ok m s" and ph: "ph s t = WJoining u"
    and u: "u = 0 \<or> ph s u = WEnded"
  shows "m < length (exits s) \<and> t = exits s ! m \<and> chain_ok (Suc m) (routine_join t u s)"
proof -
  let ?s = "routine_join t u s"
  note e = chain_okD [OF ch]
  have td: "t \<noteq> destroyer s" using not_destroyer [OF ok ph] by simp
  then have "t \<in> set (exits s)" using e(9) ph by (simp add: gone_def)
  then obtain i where i: "i < length (exits s)" "t = exits s ! i" by (auto simp: in_set_conv_nth)
  have im: "m \<le> i" using e(4) [of i] ph i(2) by (cases "i < m") auto
  then have ui: "u = (0 # exits s) ! i" using e(5) [OF im i(1)] ph i(2) by simp
  have "i = m"
  proof (rule ccontr)
    assume "i \<noteq> m"
    then obtain k where k: "i = Suc k" "m \<le> k" using im by (cases i) auto
    then have "u = exits s ! k" using ui by simp
    moreover have "ph s (exits s ! k) = WJoining ((0 # exits s) ! k)" using e(5) k i(1) by simp
    moreover have "exits s ! k \<noteq> 0" using not_zero [OF ok] calculation(2) by simp
    ultimately show False using u by simp
  qed
  with i have m: "m < length (exits s)" "t = exits s ! m" by simp_all
  have dr: "\<not> drained s" using e(8) m(1) by auto
  have "\<forall>i < length (exits s). ph ?s (exits s ! i) =
      (if i < Suc m then WEnded else WJoining ((0 # exits s) ! i))"
  proof (intro allI impI)
    fix i assume i: "i < length (exits s)"
    have "exits s ! i = t \<longleftrightarrow> i = m" using m i e(1) by (simp add: nth_eq_iff_index_eq)
    then show "ph ?s (exits s ! i) = (if i < Suc m then WEnded else WJoining ((0 # exits s) ! i))"
      using e(4,5) [of i] i by (auto simp: routine_join_def)
  qed
  moreover have "joined ?s = take m (exits s)"
  proof (cases m)
    case 0
    then show ?thesis using e(7) [OF dr] ui \<open>i = m\<close> by (simp add: routine_join_def)
  next
    case (Suc k)
    then have "u = exits s ! k" "k < length (exits s)" using ui \<open>i = m\<close> m(1) by simp_all
    moreover from this have "u \<noteq> 0" using not_zero [OF ok, of u] e(4) [of k] Suc by simp
    ultimately show ?thesis using e(7) [OF dr] Suc by (simp add: routine_join_def take_Suc_conv_app_nth)
  qed
  moreover have "gone ?s = gone s"
    using gone_upd [of ?s s t WEnded] ph by (auto simp: routine_join_def gone_def)
  moreover have "drained ?s = drained s" "exits ?s = exits s" "tid ?s = tid s" "destroyer ?s = destroyer s"
    by (simp_all add: routine_join_def drained_def)
  ultimately have "chain_ok (Suc m) ?s"
    using e(1,3,9) m(1) dr unfolding chain_ok_def by simp
  then show ?thesis using m by simp
qed

lemma chain_terminate_begin:
  assumes ok: "pool_ok n s" and ch: "chain_ok m s" and g: "dst s = DIdle" and me: "me = 0 \<or> ph s me = WTask x"
  shows "chain_ok m (terminate_begin me s)"
proof (rule exits_frame [OF ch])
  have d: "destroyer s = 0" by (rule flags_okD(4) [OF pool_okD(2) [OF ok] g])
  have "0 \<notin> gone s" "me \<notin> gone s" using me count_okD(3) [OF pool_okD(1) [OF ok]] by (auto simp: gone_def)
  then show "gone (terminate_begin me s) - {destroyer (terminate_begin me s)} = gone s - {destroyer s}"
    using d by (simp add: terminate_begin_def gone_def)
qed (simp_all add: terminate_begin_def drained_def g)

lemma chain_terminate_join:
  assumes ok: "pool_ok n s" and ch: "chain_ok m s" and g: "dst s = DJoin"
    and t: "tid s = 0 \<or> ph s (tid s) = WEnded"
  shows "chain_ok m (terminate_join s)"
proof -
  note e = chain_okD [OF ch]
  have nd: "\<not> drained s" by (simp add: drained_def g)
  have "m = length (exits s) \<and> joined (terminate_join s) = exits s"
  proof (cases "exits s" rule: rev_cases)
    case Nil
    then show ?thesis using e(2,3) e(7) [OF nd] by (simp add: terminate_join_def)
  next
    case (snoc us u)
    then have tid: "tid s = u" using e(3) by simp
    have gu: "gone_phase (ph s u)" using e(9) snoc by (auto simp: gone_def)
    then have "u \<noteq> 0" using not_zero [OF ok, of u] by (cases "ph s u") simp_all
    then have "ph s u = WEnded" using t tid by simp
    then have "m = length (exits s)" using e(2) e(5) [of "length us"] snoc by (cases "m = length (exits s)") auto
    then show ?thesis using e(7) [OF nd] snoc tid \<open>u \<noteq> 0\<close> by (simp add: terminate_join_def)
  qed
  moreover have "exits (terminate_join s) = exits s" "ph (terminate_join s) = ph s" "tid (terminate_join s) = tid s"
    "gone (terminate_join s) = gone s" "destroyer (terminate_join s) = destroyer s" "drained (terminate_join s)"
    by (simp_all add: terminate_join_def gone_def drained_def)
  ultimately show ?thesis using ch unfolding chain_ok_def by simp
qed

section \<open>Each task once\<close>

text \<open>Tasks are started in the order of their scheduling; those left are passed to \<open>pending\<close>.\<close>

definition tasks_ok :: "tpool \<Rightarrow> bool" where
  "tasks_ok s \<longleftrightarrow> scheduled s = started s @ pended s @ queue s \<and> (pended s \<noteq> [] \<longrightarrow> drained s) \<and>
     (dst s = DDone \<longrightarrow> queue s = [])"

lemma tasks_same:
  "tasks_ok s \<Longrightarrow> scheduled s' = scheduled s \<Longrightarrow> started s' = started s \<Longrightarrow> pended s' = pended s \<Longrightarrow>
   queue s' = queue s \<Longrightarrow> dst s' = dst s \<or> \<not> drained s \<and> dst s' \<noteq> DDone \<Longrightarrow> tasks_ok s'"
  by (auto simp: tasks_ok_def drained_def)

lemma tasks_get:
  assumes ok: "pool_ok n s" and tk: "tasks_ok s" and ph: "ph s t = WGet" and g: "routine_get t s = Some s'"
  shows "tasks_ok s'"
proof -
  have "t \<noteq> destroyer s" using not_destroyer [OF ok ph] by simp
  moreover have "t \<in> live s" using ph by (simp add: live_def)
  ultimately have "\<not> drained s" using drain_done_live [OF ok] by (auto simp: drained_def)
  then show ?thesis
    using tk g by (auto simp: tasks_ok_def routine_get_def drained_def split: list.splits if_splits)
qed

lemma tasks_drain: "tasks_ok s \<Longrightarrow> dst s = DDrain \<Longrightarrow> tasks_ok (destroy_drain s)"
  by (auto simp: tasks_ok_def destroy_drain_def drained_def split: list.splits)

lemma tasks_schedule: "tasks_ok s \<Longrightarrow> dst s \<noteq> DDone \<Longrightarrow> tasks_ok (thrdpool_schedule x s)"
  by (auto simp: tasks_ok_def thrdpool_schedule_def drained_def)

lemma step_tasks_ok:
  assumes "tp_step n s s'" and ok: "pool_ok n s" and tk: "tasks_ok s"
  shows "tasks_ok s'"
  using assms(1)
proof cases
  case (w_get t)
  then show ?thesis using tasks_get [OF ok tk] by blast
next
  case (d_drain)
  then show ?thesis using tasks_drain [OF tk] by simp
next
  case (schedule x)
  then show ?thesis using tasks_schedule [OF tk] by simp
qed (auto intro!: tasks_same [OF tk] simp: thread_begin_def thread_count_def routine_test_def routine_check_def
    routine_exit_def routine_join_def terminate_begin_def terminate_join_def terminate_test_def
    terminate_wake_def drained_def)

lemma step_chain_ok:
  assumes "tp_step n s s'" and ok: "pool_ok n s" "0 < n" and ch: "chain_ok m s"
  shows "\<exists>m'. chain_ok m' s'"
  using assms(1)
proof cases
  case (create_begin t)
  then show ?thesis using chain_live_step [OF ch, of t WLoop s'] by (auto simp: thread_begin_def)
next
  case (increase_begin t)
  then show ?thesis using chain_live_step [OF ch, of t WLoop s'] by (auto simp: thread_begin_def)
next
  case (w_test t)
  then show ?thesis
    using chain_live_step [OF ch, of t "if \<not> terminate s then WGet else WExit" s'] by (auto simp: routine_test_def)
next
  case (w_get t)
  then show ?thesis
    using chain_live_step [OF ch, of t "ph s' t" s'] by (auto simp: routine_get_def split: list.splits if_splits)
next
  case (w_done t x)
  then show ?thesis using chain_live_step [OF ch, of t WCheck s'] by auto
next
  case (w_check t)
  then show ?thesis using chain_check [OF ok ch] by blast
next
  case (w_exit t)
  then show ?thesis using chain_exit [OF ok(1) ch] by blast
next
  case (w_join t u)
  then show ?thesis using chain_join [OF ok(1) ch] by blast
next
  case (destroy_outside)
  then show ?thesis using chain_terminate_begin [OF ok(1) ch, of 0] by blast
next
  case (destroy_inside t x)
  then show ?thesis using chain_terminate_begin [OF ok(1) ch, of t x] by blast
next
  case (d_join)
  then show ?thesis using chain_terminate_join [OF ok(1) ch] by blast
next
  case (d_drain)
  then have "chain_ok m (destroy_drain s)"
    by (intro chain_same_ph [OF ch]) (simp_all add: destroy_drain_def drained_def split: list.splits)
  with d_drain show ?thesis by blast
next
  case (create_done)
  then have "chain_ok m s'" by (intro chain_same_ph [OF ch]) (simp_all add: drained_def)
  then show ?thesis ..
next
  case (count)
  then have "chain_ok m s'" by (intro chain_same_ph [OF ch]) (simp_all add: drained_def thread_count_def)
  then show ?thesis ..
next
  case (schedule x)
  then have "chain_ok m s'" by (intro chain_same_ph [OF ch]) (simp_all add: drained_def thrdpool_schedule_def)
  then show ?thesis ..
next
  case (d_wait)
  then have "chain_ok m s'" by (intro chain_same_ph [OF ch]) (simp_all add: drained_def terminate_test_def)
  then show ?thesis ..
next
  case (d_spurious)
  then have "chain_ok m s'" by (intro chain_same_ph [OF ch]) (simp_all add: drained_def terminate_wake_def)
  then show ?thesis ..
qed

lemma reach_all_ok:
  "tp_reach n s \<Longrightarrow> 0 < n \<Longrightarrow> length (created s) < 2 ^ 64 \<Longrightarrow>
   pool_ok n s \<and> tasks_ok s \<and> (\<exists>m. chain_ok m s)"
proof (induction rule: tp_reach.induct)
  case start
  have "chain_ok 0 tp_start" by (simp add: chain_ok_def tp_start_def drained_def gone_def)
  moreover have "tasks_ok tp_start" by (simp add: tasks_ok_def tp_start_def)
  ultimately show ?case using start_ok by blast
next
  case (step s s')
  then have "length (created s) < 2 ^ 64" using step_created by fastforce
  with step show ?case
    using step_pool_ok [OF step(2)] step_tasks_ok [OF step(2)] step_chain_ok [OF step(2)] by blast
qed

section \<open>Destruction comes to an end\<close>

text \<open>
  What is left to do once \<open>thrdpool_destroy\<close> has been called: the remaining steps of each worker, the
  tasks in the queue and the remaining steps of the destroying thread.
\<close>

primrec weight :: "wphase \<Rightarrow> nat" where
  "weight WNone = 0"
| "weight WLoop = 4"
| "weight WGet = 7"
| "weight (WTask x) = 6"
| "weight WCheck = 5"
| "weight WExit = 3"
| "weight (WJoining u) = 1"
| "weight WEnded = 0"

primrec dweight :: "dphase \<Rightarrow> nat" where
  "dweight DIdle = 5"
| "dweight DWait = 4"
| "dweight DSleep = 3"
| "dweight DJoin = 2"
| "dweight DDrain = 1"
| "dweight DDone = 0"

definition work :: "tpool \<Rightarrow> nat" where
  "work s = (\<Sum>t \<in> set (created s). weight (ph s t)) + length (queue s) + dweight (dst s)"

text \<open>
  A step of the pool's own threads or of the destroying one: any step but a new task and a spurious
  wake-up, which nobody may count on.
\<close>

definition spurious :: "tpool \<Rightarrow> tpool \<Rightarrow> bool" where
  "spurious s s' \<longleftrightarrow> dst s = DSleep \<and> s' = terminate_wake s"

definition tp_move :: "nat \<Rightarrow> tpool \<Rightarrow> tpool \<Rightarrow> bool" where
  "tp_move n s s' \<longleftrightarrow> tp_step n s s' \<and> scheduled s' = scheduled s \<and> \<not> spurious s s'"

lemma not_spurious_same [simp]: "\<not> spurious s s"
  by (auto simp: spurious_def terminate_wake_def dest: arg_cong [of _ _ dst])

lemma worker_moves:
  assumes "tp_step n s s'" "scheduled s' = scheduled s" "ph s' t \<noteq> ph s t"
  shows "\<exists>s'. tp_move n s s'"
  using assms unfolding tp_move_def spurious_def terminate_wake_def by (intro exI [of _ s']) auto

lemma destroyer_moves:
  assumes "tp_step n s s'" "scheduled s' = scheduled s" "dst s \<noteq> DSleep"
  shows "\<exists>s'. tp_move n s s'"
  using assms unfolding tp_move_def spurious_def by blast

lemma work_upd:
  assumes ok: "pool_ok n s" and t: "ph s t \<noteq> WNone"
    and p: "weight p + dweight (dst s') < weight (ph s t) + dweight (dst s)"
    and s': "ph s' = (ph s)(t := p)" "created s' = created s" "length (queue s') \<le> length (queue s)"
  shows "work s' < work s"
proof -
  let ?A = "set (created s)"
  have t: "t \<in> ?A" using count_okD(2) [OF pool_okD(1) [OF ok]] t by blast
  have "(\<Sum>u \<in> ?A. weight (ph s u)) = weight (ph s t) + (\<Sum>u \<in> ?A - {t}. weight (ph s u))"
    by (rule sum.remove) (simp_all add: t)
  moreover have "(\<Sum>u \<in> ?A. weight (ph s' u)) = weight (ph s' t) + (\<Sum>u \<in> ?A - {t}. weight (ph s' u))"
    by (rule sum.remove) (simp_all add: t)
  moreover have "(\<Sum>u \<in> ?A - {t}. weight (ph s' u)) = (\<Sum>u \<in> ?A - {t}. weight (ph s u))"
    by (rule sum.cong) (simp_all add: s'(1))
  ultimately show ?thesis using p s' by (simp add: work_def)
qed

lemma step_work:
  assumes "tp_move n s s'" and ok: "pool_ok n s" and d: "dst s \<noteq> DIdle"
  shows "work s' < work s"
proof -
  note fl = flags_okD [OF pool_okD(2) [OF ok]]
  have st: "tp_step n s s'" and sch: "scheduled s' = scheduled s" and sp: "\<not> spurious s s'"
    using assms(1) by (simp_all add: tp_move_def)
  from st show ?thesis
  proof cases
    case (w_get t)
    then show ?thesis
      by (intro work_upd [OF ok, of t "ph s' t"]) (auto simp: routine_get_def split: list.splits if_splits)
  next
    case (w_test t)
    then show ?thesis using fl(8) [OF d]
      by (intro work_upd [OF ok, of t WExit]) (simp_all add: routine_test_def)
  next
    case (w_done t x)
    then show ?thesis by (intro work_upd [OF ok, of t WCheck]) simp_all
  next
    case (w_check t)
    then show ?thesis
      by (intro work_upd [OF ok, of t "ph s' t"]) (simp_all add: routine_check_def)
  next
    case (w_exit t)
    then show ?thesis by (intro work_upd [OF ok, of t "WJoining (tid s)"]) (simp_all add: term_signal_def)
  next
    case (w_join t u)
    then show ?thesis by (intro work_upd [OF ok, of t WEnded]) (simp_all add: routine_join_def)
  next
    case (d_drain)
    then show ?thesis by (simp add: work_def destroy_drain_def split: list.splits)
  qed (use sch sp d fl(7) [OF d] in
      \<open>simp_all add: thrdpool_schedule_def work_def terminate_join_def terminate_test_def spurious_def\<close>)
qed

lemma live_can_move:
  assumes ok: "pool_ok n s" and d: "dst s \<noteq> DIdle" and t: "t \<in> live s" "t \<noteq> destroyer s"
  shows "\<exists>s'. tp_move n s s'"
proof -
  note fl = flags_okD [OF pool_okD(2) [OF ok]]
  show ?thesis
  proof (cases "ph s t")
    case WLoop
    from w_test [OF this] show ?thesis by (rule worker_moves [of _ _ _ t]) (simp_all add: routine_test_def WLoop)
  next
    case WGet
    obtain s' where g: "routine_get t s = Some s'" "scheduled s' = scheduled s" "ph s' t \<noteq> WGet"
      using fl(9) [OF d] by (cases "queue s") (simp_all add: routine_get_def)
    from w_get [OF WGet g(1)] show ?thesis by (rule worker_moves [of _ _ _ t]) (simp_all add: g WGet)
  next
    case (WTask x)
    from w_done [OF this] t(2) show ?thesis using WTask
      by (intro worker_moves [of n s "s\<lparr>ph := (ph s)(t := WCheck)\<rparr>" t]) simp_all
  next
    case WCheck
    from w_check [OF this] show ?thesis
      by (rule worker_moves [of _ _ _ t]) (simp_all add: routine_check_def WCheck)
  next
    case WExit
    from w_exit [OF this fl(7) [OF d]] show ?thesis by (rule worker_moves [of _ _ _ t]) (simp_all add: WExit)
  qed (use t in \<open>simp_all add: live_def\<close>)
qed

lemma join_can_move:
  assumes ok: "pool_ok n s" and ch: "chain_ok m s" and d: "dst s = DJoin"
  shows "\<exists>s'. tp_move n s s'"
proof (cases "m < length (exits s)")
  case True
  note e = chain_okD [OF ch]
  have p: "ph s (exits s ! m) = WJoining ((0 # exits s) ! m)" using e(5) True by simp
  have "(0 # exits s) ! m = 0 \<or> ph s ((0 # exits s) ! m) = WEnded" using e(4) by (cases m) simp_all
  from w_join [OF p this] show ?thesis
    by (rule worker_moves [of _ _ _ "exits s ! m"]) (simp_all add: routine_join_def p)
next
  case False
  note e = chain_okD [OF ch]
  have "tid s = 0 \<or> ph s (tid s) = WEnded"
    using e(2,3) e(4) [of "length (exits s) - 1"] False by (cases "exits s" rule: rev_cases) (auto simp: nth_append)
  from d_join [OF d this] show ?thesis by (rule destroyer_moves) (simp_all add: terminate_join_def d)
qed

text \<open>While the destroying thread sleeps, a worker that will wake it is still there.\<close>

lemma sleep_worker:
  assumes ok: "pool_ok n s" and d: "dst s = DSleep"
  shows "\<exists>t \<in> live s. t \<noteq> destroyer s"
proof (rule ccontr)
  assume "\<not> ?thesis"
  then have "live s = {} \<or> live s = {destroyer s}" by auto
  then have "card (live s) = uncounted s"
    using d flags_okD(7) [OF pool_okD(2) [OF ok]] by (auto simp: uncounted_def)
  then have "unat (nthreads s) = 0" using count_okD(4) [OF pool_okD(1) [OF ok]] by simp
  with flags_okD(11) [OF pool_okD(2) [OF ok] d] show False by (simp add: unat_eq_0)
qed

lemma destroy_can_move:
  assumes ok: "pool_ok n s" and ch: "chain_ok m s" and d: "dst s \<noteq> DIdle" and f: "\<not> freed s"
  shows "\<exists>s'. tp_move n s s'"
proof (cases "dst s")
  case DWait
  from d_wait [OF this] show ?thesis by (rule destroyer_moves) (simp_all add: terminate_test_def DWait)
next
  case DSleep
  then show ?thesis using live_can_move [OF ok d] sleep_worker [OF ok] by blast
next
  case DJoin
  then show ?thesis by (rule join_can_move [OF ok ch])
next
  case DDrain
  from d_drain [OF this] show ?thesis
    by (rule destroyer_moves) (simp_all add: destroy_drain_def DDrain split: list.splits)
next
  case DDone
  let ?t = "destroyer s"
  have nz: "?t \<noteq> 0" using pool_okD(4) [OF ok] f DDone by (auto simp: destroyer_ok_def split: if_splits)
  then consider "ph s ?t = WCheck" | x where "ph s ?t = WTask x"
    using pool_okD(4) [OF ok] f DDone by (auto simp: destroyer_ok_def)
  then show ?thesis
  proof cases
    case 1
    from w_check [OF this] show ?thesis by (rule destroyer_moves) (simp_all add: routine_check_def DDone)
  next
    case 2
    from w_done [OF this] DDone show ?thesis
      by (intro destroyer_moves [of n s "s\<lparr>ph := (ph s)(?t := WCheck)\<rparr>"]) simp_all
  qed
qed (use d in simp)

text \<open>After the pool has been freed every worker has ended and nobody takes a step.\<close>

lemma done_phases:
  assumes ok: "pool_ok n s" and ch: "chain_ok m s" and d: "dst s = DDone" and t: "t \<noteq> destroyer s"
  shows "ph s t = WNone \<or> ph s t = WEnded \<and> t \<in> set (exits s)"
proof -
  note e = chain_okD [OF ch]
  have "t \<notin> live s" using drain_done_live [OF ok] d t by blast
  then have "ph s t = WNone \<or> gone_phase (ph s t)" by (cases "ph s t") (simp_all add: live_def)
  moreover have "gone_phase (ph s t) \<Longrightarrow> t \<in> set (exits s)" using e(9) t by (simp add: gone_def)
  moreover have "t \<in> set (exits s) \<Longrightarrow> ph s t = WEnded"
    using e(4,8) d by (auto simp: in_set_conv_nth drained_def)
  ultimately show ?thesis by blast
qed

lemma freed_ended:
  assumes ok: "pool_ok n s" and ch: "chain_ok m s" and f: "freed s"
  shows "dst s = DDone \<and> (\<forall>t. ph s t = WNone \<or> ph s t = WEnded)"
proof -
  have d: "dst s = DDone" using pool_okD(4) [OF ok] f by (simp add: destroyer_ok_def split: if_splits)
  have "ph s (destroyer s) = WNone \<or> ph s (destroyer s) = WEnded"
    using pool_okD(4) [OF ok] f count_okD(3) [OF pool_okD(1) [OF ok]]
    by (cases "destroyer s = 0") (simp_all add: destroyer_ok_def)
  then have "ph s t = WNone \<or> ph s t = WEnded" for t
    using done_phases [OF ok ch d, of t] by (cases "t = destroyer s") auto
  with d show ?thesis by simp
qed

lemma freed_stuck:
  assumes "dst s = DDone" "\<not> adding s" "\<forall>t. ph s t = WNone \<or> ph s t = WEnded" and st: "tp_step n s s'"
  shows False
  using st assms(1,2) assms(3) [THEN spec]
  by cases (metis dphase.distinct wphase.distinct)+

section \<open>Two runs\<close>

text \<open>
  A pool of one thread; a task 7 is scheduled; the pool is destroyed from outside before the worker
  takes the task, and the destroying thread is asleep when the worker leaves, or by the task.
\<close>

definition demo_pool :: tpool where
  "demo_pool = thrdpool_schedule 7 ((thread_count (thread_begin 1 tp_start))\<lparr>ready := True\<rparr>)"

definition demo_outside :: tpool where
  "demo_outside = terminate_test (routine_join 1 0 (routine_exit 1 (routine_test 1
     (terminate_test (terminate_begin 0 demo_pool)))))"

definition demo_inside :: tpool where
  "demo_inside = terminate_begin 1 (the (routine_get 1 (routine_test 1 demo_pool)))"

lemmas demo_defs = tp_start_def thread_begin_def thread_count_def thrdpool_schedule_def routine_test_def
  routine_get_def routine_exit_def routine_join_def terminate_begin_def terminate_test_def term_signal_def
  terminate_join_def destroy_drain_def demo_pool_def

lemma demo_pool_reach: "tp_reach 1 demo_pool"
proof -
  have "tp_reach 1 (thread_begin 1 tp_start)"
    by (rule tp_reach.step [OF tp_reach.start create_begin]) (simp_all add: tp_start_def)
  from tp_reach.step [OF this count] have 1: "tp_reach 1 (thread_count (thread_begin 1 tp_start))"
    by (simp add: thread_begin_def)
  have "tp_reach 1 ((thread_count (thread_begin 1 tp_start))\<lparr>ready := True\<rparr>)"
    by (rule tp_reach.step [OF 1 create_done]) (simp_all add: demo_defs)
  from tp_reach.step [OF this schedule [where x = 7]] show ?thesis by (simp add: demo_defs)
qed

lemma demo_outside_reach: "tp_reach 1 demo_outside"
proof -
  let ?a = "terminate_test (terminate_begin 0 demo_pool)"
  have "tp_reach 1 (terminate_begin 0 demo_pool)"
    by (rule tp_reach.step [OF demo_pool_reach destroy_outside]) (simp_all add: demo_defs)
  from tp_reach.step [OF this d_wait] have "tp_reach 1 ?a" by (simp add: terminate_begin_def)
  from tp_reach.step [OF this w_test [where t = 1]] have "tp_reach 1 (routine_test 1 ?a)"
    by (simp add: demo_defs)
  from tp_reach.step [OF this w_exit [where t = 1]] have "tp_reach 1 (routine_exit 1 (routine_test 1 ?a))"
    by (simp add: demo_defs)
  from tp_reach.step [OF this w_join [where t = 1 and u = 0]]
  have "tp_reach 1 (routine_join 1 0 (routine_exit 1 (routine_test 1 ?a)))" by (simp add: demo_defs)
  from tp_reach.step [OF this d_wait] show ?thesis by (simp add: demo_defs demo_outside_def)
qed

lemma demo_outside_done: "tp_reach 1 (destroy_drain (destroy_drain (terminate_join demo_outside)))"
proof -
  have "tp_reach 1 (terminate_join demo_outside)"
    by (rule tp_reach.step [OF demo_outside_reach d_join]) (simp_all add: demo_defs demo_outside_def)
  from tp_reach.step [OF this d_drain] have "tp_reach 1 (destroy_drain (terminate_join demo_outside))"
    by (simp add: demo_defs demo_outside_def)
  from tp_reach.step [OF this d_drain] show ?thesis by (simp add: demo_defs demo_outside_def)
qed

lemma demo_inside_reach: "tp_reach 1 demo_inside"
proof -
  let ?a = "routine_test 1 demo_pool"
  from tp_reach.step [OF demo_pool_reach w_test [where t = 1]] have a: "tp_reach 1 ?a" by (simp add: demo_defs)
  have "tp_reach 1 (the (routine_get 1 ?a))"
    by (rule tp_reach.step [OF a w_get [where t = 1]]) (simp_all add: demo_defs)
  from tp_reach.step [OF this destroy_inside [where t = 1 and x = 7]] show ?thesis
    by (simp add: demo_defs demo_inside_def)
qed

section \<open>The properties of the pool\<close>

text \<open>thrdpool_create yields a pool with the requested number of threads exactly when the allocation,
  the queue, the mutex, the key, the thread attributes and every pthread_create succeed.\<close>
theorem thrdpool_create_succeeds:
  "thrdpool_create c n = Inr k \<longleftrightarrow>
     k = n \<and> rc_malloc c \<and> rc_queue c \<and> rc_mutex c = 0 \<and> rc_key c = 0 \<and> rc_attr c = 0 \<and>
     (\<forall>i < n. rc_create c i = 0)"
proof -
  have "create_threads c n = Inr k \<longleftrightarrow> k = n \<and> rc_attr c = 0 \<and> (\<forall>i < n. rc_create c i = 0)"
  proof (cases "rc_attr c = 0"; cases "\<forall>i < n. rc_create c i = 0")
    assume "rc_attr c = 0" "\<forall>i < n. rc_create c i = 0"
    with create_threads_ok [of c n] show ?thesis by auto
  next
    assume a: "rc_attr c = 0" and False: "\<not> (\<forall>i < n. rc_create c i = 0)"
    define j where "j = (LEAST i. i < n \<and> rc_create c i \<noteq> 0)"
    have j: "j < n" "rc_create c j \<noteq> 0" using LeastI_ex [of "\<lambda>i. i < n \<and> rc_create c i \<noteq> 0"] False
      by (auto simp: j_def)
    then have "\<forall>i < j. rc_create c i = 0" using not_less_Least unfolding j_def by fastforce
    from create_threads_fails [OF a j this] False show ?thesis by simp
  qed (simp_all add: create_threads_def)
  then show ?thesis by (auto simp: thrdpool_create_def Let_def split: sum.splits)
qed

lemma thrdpool_create_succeeds_witness:
  "thrdpool_create \<lparr>rc_malloc = True, rc_queue = True, rc_mutex = 0, rc_key = 0, rc_attr = 0,
     rc_create = (\<lambda>_. 0)\<rparr> 3 = Inr 3"
  using thrdpool_create_succeeds [of "\<lparr>rc_malloc = True, rc_queue = True, rc_mutex = 0, rc_key = 0,
     rc_attr = 0, rc_create = (\<lambda>_. 0)\<rparr>" 3 3] by simp

text \<open>when a pthread_create fails, thrdpool_create returns the null pointer with errno set to 0, the
  result of the pthread_key_create before it: the error code that __thrdpool_create_threads has stored
  in errno is overwritten.\<close>
theorem thrdpool_create_errno:
  assumes "rc_malloc c" "rc_queue c" "rc_mutex c = 0" "rc_key c = 0" "rc_attr c = 0"
    "j < n" "rc_create c j \<noteq> 0" "\<forall>i < j. rc_create c i = 0"
  shows "create_threads c n = Inl (rc_create c j) \<and> thrdpool_create c n = Inl (Some 0)"
  using create_threads_fails [OF assms(5-8)] assms(1-4) by (simp add: thrdpool_create_def)

lemma thrdpool_create_errno_witness:
  "let c = \<lparr>rc_malloc = True, rc_queue = True, rc_mutex = 0, rc_key = 0, rc_attr = 0,
      rc_create = (\<lambda>i. if i < 2 then 0 else 11)\<rparr>
   in create_threads c 4 = Inl 11 \<and> thrdpool_create c 4 = Inl (Some 0)"
  using thrdpool_create_errno [of "\<lparr>rc_malloc = True, rc_queue = True, rc_mutex = 0, rc_key = 0, rc_attr = 0,
      rc_create = (\<lambda>i. if i < 2 then 0 else 11)\<rparr>" 2 4] by simp



text \<open>the tasks that workers have started, the tasks passed to the pending callback and the tasks still
  queued are, in this order, the tasks scheduled; when thrdpool_destroy returns none is queued. So each
  task is run or handed back exactly once, in the order of scheduling.\<close>
theorem thrdpool_tasks_once:
  assumes "tp_reach n s" "0 < n" "length (created s) < 2 ^ 64"
  shows "scheduled s = started s @ pended s @ queue s \<and> (dst s = DDone \<longrightarrow> queue s = [])"
  using reach_all_ok [OF assms] by (auto simp: tasks_ok_def)

lemma thrdpool_tasks_once_witness:
  "let s = destroy_drain (destroy_drain (terminate_join demo_outside))
   in scheduled s = [7] \<and> started s = [] \<and> pended s = [7]"
  using thrdpool_tasks_once [OF demo_outside_done] by (simp add: demo_defs demo_outside_def)

text \<open>C19: in a pool created with at least one thread, once the pool has been freed every worker has ended
  and no thread can take a further step of the pool's code: there is no use after the free, and no
  second free.\<close>
theorem thrdpool_no_use_after_free:
  assumes "tp_reach n s" "0 < n" "length (created s) < 2 ^ 64" "freed s"
  shows "(\<forall>t. ph s t = WNone \<or> ph s t = WEnded) \<and> \<not> (\<exists>s'. tp_step n s s')"
proof -
  obtain m where ok: "pool_ok n s" and ch: "chain_ok m s" using reach_all_ok [OF assms(1-3)] by blast
  have "dst s = DDone" "\<forall>t. ph s t = WNone \<or> ph s t = WEnded" using freed_ended [OF ok ch assms(4)] by blast+
  moreover have "\<not> adding s" using flags_okD(7) [OF pool_okD(2) [OF ok]] calculation(1) by simp
  ultimately show ?thesis using freed_stuck by blast
qed

lemma thrdpool_no_use_after_free_witness:
  "\<not> (\<exists>s'. tp_step 1 (destroy_drain (destroy_drain (terminate_join demo_outside))) s')"
  using thrdpool_no_use_after_free [OF demo_outside_done] by (simp add: demo_defs demo_outside_def)

text \<open>thrdpool_destroy comes to an end, called from outside or by a task: until the pool is freed some
  thread can take a step, and every step but the scheduling of a further task and a spurious wake-up
  makes the work left smaller. In particular the thread that sleeps in pthread_cond_wait is woken.\<close>
theorem thrdpool_destroy_ends:
  assumes "tp_reach n s" "0 < n" "length (created s) < 2 ^ 64" "dst s \<noteq> DIdle"
  shows "(\<not> freed s \<longrightarrow> (\<exists>s'. tp_move n s s')) \<and> (\<forall>s'. tp_move n s s' \<longrightarrow> work s' < work s)"
proof -
  obtain m where ok: "pool_ok n s" and ch: "chain_ok m s" using reach_all_ok [OF assms(1-3)] by blast
  show ?thesis using destroy_can_move [OF ok ch assms(4)] step_work [OF _ ok assms(4)] by blast
qed

lemma thrdpool_destroy_ends_witness: "\<exists>s'. tp_move 1 demo_inside s' \<and> work s' < work demo_inside"
proof -
  have "created demo_inside = [1]" "dst demo_inside \<noteq> DIdle" "\<not> freed demo_inside"
    by (simp_all add: demo_defs demo_inside_def)
  with thrdpool_destroy_ends [OF demo_inside_reach] show ?thesis by auto
qed

text \<open>C40: a pool may be created with no thread and enlarged later. Then the first worker can finish a task
  before thrdpool_increase has counted it: it finds nthreads zero, takes the pool for destroyed and
  frees it, while thrdpool_increase is still at work on it.\<close>
theorem thrdpool_increase_race:
  "\<exists>s. tp_reach 0 s \<and> freed s \<and> adding s \<and> dst s = DIdle \<and> tp_step 0 s (thread_count s)"
proof -
  let ?a = "thrdpool_schedule 7 (tp_start\<lparr>ready := True\<rparr>)"
  let ?b = "routine_test 1 (thread_begin 1 ?a)"
  let ?c = "the (routine_get 1 ?b)"
  let ?d = "?c\<lparr>ph := (ph ?c)(1 := WCheck)\<rparr>"
  have "tp_reach 0 (tp_start\<lparr>ready := True\<rparr>)"
    by (rule tp_reach.step [OF tp_reach.start create_done]) (simp_all add: tp_start_def)
  from tp_reach.step [OF this schedule [where x = 7]] have "tp_reach 0 ?a" by (simp add: tp_start_def)
  from tp_reach.step [OF this increase_begin [where t = 1]] have "tp_reach 0 (thread_begin 1 ?a)"
    by (simp add: demo_defs)
  from tp_reach.step [OF this w_test [where t = 1]] have b: "tp_reach 0 ?b" by (simp add: demo_defs)
  have "tp_reach 0 ?c" by (rule tp_reach.step [OF b w_get [where t = 1]]) (simp_all add: demo_defs)
  from tp_reach.step [OF this w_done [where t = 1 and x = 7]] have "tp_reach 0 ?d" by (simp add: demo_defs)
  from tp_reach.step [OF this w_check [where t = 1]] have "tp_reach 0 (routine_check 1 ?d)" by simp
  moreover have "freed (routine_check 1 ?d)" "adding (routine_check 1 ?d)" "dst (routine_check 1 ?d) = DIdle"
    by (simp_all add: demo_defs routine_check_def)
  ultimately show ?thesis using tp_step.count by blast
qed

end
