(* ===== verification/Msgqueue.thy ===== *)
theory Msgqueue
  imports Prelude
begin

text \<open>
  The message queue of thrdpool/msgqueue.h and msgqueue.c: two singly linked lists threaded
  through the messages, one for the getters and one for the putters, swapped when the first is
  empty. The memory is a map from addresses to the pointers stored there. The parts of
  \<open>msgqueue_put\<close> and \<open>msgqueue_get\<close> between lock operations are definitions of their own; here
  they are composed for one caller at a time, the interleavings are in MsgqueueConc. The contract
  for clients is in the locales \<open>fifo_store\<close> and \<open>fifo_queue\<close>.
\<close>

section \<open>Memory\<close>

text \<open>
  \<open>Head1\<close> and \<open>Head2\<close> are the members \<open>head1\<close> and \<open>head2\<close> of the queue, \<open>Link a\<close> is the link
  word at address \<open>a\<close> inside a message.
\<close>

datatype addr = Null | Head1 | Head2 | Link int

type_synonym heap = "addr \<Rightarrow> addr option"

definition load :: "heap \<Rightarrow> addr \<Rightarrow> addr res" where
  "load h a = (case h a of None \<Rightarrow> Inl NullDeref | Some v \<Rightarrow> Inr v)"

definition store :: "addr \<Rightarrow> addr \<Rightarrow> heap \<Rightarrow> heap res" where
  "store a v h = (if a = Null then Inl NullDeref else Inr (h(a \<mapsto> v)))"

section \<open>The queue\<close>

record msgqueue =
  msg_max :: size_t
  msg_cnt :: size_t
  linkoff :: int
  nonblock :: int
  get_head :: addr
  put_head :: addr
  put_tail :: addr

text \<open>
  \<open>msgqueue_create\<close>: \<open>alloc\<close> says whether \<open>malloc\<close> succeeds, the four numbers are what the
  \<open>init\<close> calls return, in order. A failure reports \<open>errno\<close> (none for a failed \<open>malloc\<close>, whose
  own value is kept) and the objects destroyed on the way out.
\<close>

datatype sync_obj = GetMutex | PutMutex | GetCond | PutCond

datatype created = Created msgqueue heap | NotCreated "int option" "sync_obj list"

definition msgqueue_create ::
  "bool \<Rightarrow> int \<Rightarrow> int \<Rightarrow> int \<Rightarrow> int \<Rightarrow> size_t \<Rightarrow> int \<Rightarrow> created" where
  "msgqueue_create alloc r1 r2 r3 r4 maxlen off =
     (if \<not> alloc then NotCreated None []
      else if r1 = 0 then
        if r2 = 0 then
          if r3 = 0 then
            if r4 = 0 then
              Created \<lparr>msg_max = maxlen, msg_cnt = 0, linkoff = off, nonblock = 0,
                       get_head = Head1, put_head = Head2, put_tail = Head2\<rparr>
                [Head1 \<mapsto> Null, Head2 \<mapsto> Null]
            else NotCreated (Some r4) [GetCond, PutMutex, GetMutex]
          else NotCreated (Some r3) [PutMutex, GetMutex]
        else NotCreated (Some r2) [GetMutex]
      else NotCreated (Some r1) [])"

definition msgqueue_destroy :: "sync_obj list" where
  "msgqueue_destroy = [PutCond, GetCond, PutMutex, GetMutex]"

definition set_nonblock_flag :: "msgqueue \<Rightarrow> msgqueue" where
  "set_nonblock_flag q = q\<lparr>nonblock := 1\<rparr>"

definition msgqueue_set_block :: "msgqueue \<Rightarrow> msgqueue" where
  "msgqueue_set_block q = q\<lparr>nonblock := 0\<rparr>"

section \<open>\<open>msgqueue_put\<close>\<close>

definition link_of :: "msgqueue \<Rightarrow> int \<Rightarrow> addr" where
  "link_of q msg = Link (msg + linkoff q)"

definition put_link :: "int \<Rightarrow> msgqueue \<Rightarrow> heap \<Rightarrow> heap res" where
  "put_link msg q h = store (link_of q msg) Null h"

definition put_must_wait :: "msgqueue \<Rightarrow> bool" where
  "put_must_wait q = (msg_max q - 1 < msg_cnt q \<and> nonblock q = 0)"

definition put_append :: "int \<Rightarrow> msgqueue \<Rightarrow> heap \<Rightarrow> (msgqueue \<times> heap) res" where
  "put_append msg q h =
     res_bind (store (put_tail q) (link_of q msg) h) (\<lambda>h.
       Inr (q\<lparr>put_tail := link_of q msg, msg_cnt := msg_cnt q + 1\<rparr>, h))"

text \<open>A call that has to wait on a condition variable is \<open>Waits\<close>.\<close>

datatype 'a outcome = Waits | Returns 'a

definition msgqueue_put :: "int \<Rightarrow> msgqueue \<Rightarrow> heap \<Rightarrow> (msgqueue \<times> heap) outcome res" where
  "msgqueue_put msg q h =
     res_bind (put_link msg q h) (\<lambda>h.
       if put_must_wait q then Inr Waits
       else res_bind (put_append msg q h) (\<lambda>x. Inr (Returns x)))"

section \<open>\<open>msgqueue_get\<close>\<close>

definition swap_begin :: "msgqueue \<Rightarrow> msgqueue \<times> addr" where
  "swap_begin q = (q\<lparr>get_head := put_head q\<rparr>, get_head q)"

definition swap_must_wait :: "msgqueue \<Rightarrow> bool" where
  "swap_must_wait q = (msg_cnt q = 0 \<and> nonblock q = 0)"

text \<open>The result carries the count and whether \<open>put_cond\<close> is broadcast.\<close>

definition swap_end :: "addr \<Rightarrow> msgqueue \<Rightarrow> msgqueue \<times> size_t \<times> bool" where
  "swap_end old q =
     (q\<lparr>put_head := old, put_tail := old, msg_cnt := 0\<rparr>, msg_cnt q, msg_max q - 1 < msg_cnt q)"

definition get_take :: "msgqueue \<Rightarrow> heap \<Rightarrow> (int \<times> heap) res" where
  "get_take q h =
     res_bind (load h (get_head q)) (\<lambda>first.
       case first of
         Link a \<Rightarrow>
           res_bind (load h first) (\<lambda>nxt.
           res_bind (store (get_head q) nxt h) (\<lambda>h. Inr (a - linkoff q, h)))
       | _ \<Rightarrow> Inl NullDeref)"

text \<open>The result \<open>None\<close> is the null pointer, with \<open>errno\<close> set to \<open>ENOENT\<close>.\<close>

definition msgqueue_get :: "msgqueue \<Rightarrow> heap \<Rightarrow> (int option \<times> msgqueue \<times> heap) outcome res" where
  "msgqueue_get q h =
     res_bind (load h (get_head q)) (\<lambda>first.
       if first \<noteq> Null then
         res_bind (get_take q h) (\<lambda>(m, h). Inr (Returns (Some m, q, h)))
       else
         let (q, old) = swap_begin q in
         if swap_must_wait q then Inr Waits
         else
           let (q, cnt, _) = swap_end old q in
           if 0 < cnt then res_bind (get_take q h) (\<lambda>(m, h). Inr (Returns (Some m, q, h)))
           else Inr (Returns (None, q, h)))"

section \<open>Chains\<close>

primrec chain :: "heap \<Rightarrow> addr \<Rightarrow> int list \<Rightarrow> bool" where
  "chain h a [] = (h a = Some Null)"
| "chain h a (l # ls) = (h a = Some (Link l) \<and> chain h (Link l) ls)"

definition tail_of :: "addr \<Rightarrow> int list \<Rightarrow> addr" where
  "tail_of a ls = (if ls = [] then a else Link (last ls))"

lemma chain_frame: "chain h a ls \<Longrightarrow> x \<noteq> a \<Longrightarrow> x \<notin> Link ` set ls \<Longrightarrow> chain (h(x \<mapsto> v)) a ls"
  by (induction ls arbitrary: a) auto

lemma chain_append:
  assumes "chain h a ls" "h (Link l) = Some Null" "a \<noteq> Link l" "l \<notin> set ls" "distinct ls" "a \<notin> Link ` set ls"
  shows "chain (h(tail_of a ls \<mapsto> Link l)) a (ls @ [l])"
  using assms
proof (induction ls arbitrary: a)
  case Nil
  then show ?case by (simp add: tail_of_def)
next
  case (Cons m ls)
  have "tail_of a (m # ls) = tail_of (Link m) ls" by (simp add: tail_of_def)
  moreover have "tail_of (Link m) ls \<noteq> a" using Cons.prems by (auto simp: tail_of_def)
  moreover have "chain (h(tail_of (Link m) ls \<mapsto> Link l)) (Link m) (ls @ [l])"
    using Cons.prems by (intro Cons.IH) auto
  moreover have "(h(t \<mapsto> Link l)) a = Some (Link m)" if "t \<noteq> a" for t
    using that Cons.prems by simp
  ultimately show ?case unfolding append_Cons chain.simps by metis
qed

text \<open>
  The queue holds the list \<open>G\<close> for the getters and \<open>P\<close> for the putters, given by the addresses
  of their link words.
\<close>

definition mq_inv :: "msgqueue \<Rightarrow> heap \<Rightarrow> int list \<Rightarrow> int list \<Rightarrow> bool" where
  "mq_inv q h G P \<longleftrightarrow>
     {get_head q, put_head q} = {Head1, Head2} \<and>
     chain h (get_head q) G \<and> chain h (put_head q) P \<and> put_tail q = tail_of (put_head q) P \<and>
     distinct (G @ P) \<and> unat (msg_cnt q) = length P"

lemma heads_facts:
  assumes "{x, y} = {Head1, Head2}"
  shows "x \<noteq> Null" "y \<noteq> Null" "x \<noteq> y" "x \<noteq> Link l" "y \<noteq> Link l" "x \<in> {Head1, Head2}" "y \<in> {Head1, Head2}"
  using assms by (auto simp: doubleton_eq_iff)

lemma msgqueue_create_inv:
  "msgqueue_create alloc r1 r2 r3 r4 maxlen off = Created q h \<Longrightarrow>
   mq_inv q h [] [] \<and> msg_max q = maxlen \<and> linkoff q = off \<and> nonblock q = 0"
  by (auto simp: msgqueue_create_def mq_inv_def tail_of_def split: if_splits)

lemma put_append_inv:
  assumes inv: "mq_inv q h G P" and link: "h (link_of q msg) = Some Null"
    and new: "msg + linkoff q \<notin> set (G @ P)" and room: "length P < 2 ^ 64 - 1"
  shows "\<exists>h'. put_append msg q h =
      Inr (q\<lparr>put_tail := link_of q msg, msg_cnt := msg_cnt q + 1\<rparr>, h') \<and>
    mq_inv (q\<lparr>put_tail := link_of q msg, msg_cnt := msg_cnt q + 1\<rparr>) h' G (P @ [msg + linkoff q]) \<and>
    (\<forall>a. a \<notin> insert Head1 (insert Head2 (Link ` set P)) \<longrightarrow> h' a = h a)"
proof -
  let ?l = "msg + linkoff q" and ?t = "tail_of (put_head q) P"
  from inv have heads: "{get_head q, put_head q} = {Head1, Head2}"
    and c: "chain h (get_head q) G" "chain h (put_head q) P" and t: "put_tail q = ?t"
    and d: "distinct (G @ P)" and n: "unat (msg_cnt q) = length P" by (simp_all add: mq_inv_def)
  note hd = heads_facts [OF heads]
  then have nn: "?t \<noteq> Null" by (simp add: tail_of_def)
  then have e: "put_append msg q h = Inr (q\<lparr>put_tail := link_of q msg, msg_cnt := msg_cnt q + 1\<rparr>,
      h(?t \<mapsto> Link ?l))"
    by (simp add: put_append_def store_def t link_of_def)
  have "chain (h(?t \<mapsto> Link ?l)) (put_head q) (P @ [?l])"
    using c(2) link new d hd by (intro chain_append) (auto simp: link_of_def)
  moreover have "?t \<noteq> get_head q" "?t \<notin> Link ` set G"
    using hd d by (auto simp: tail_of_def)
  then have "chain (h(?t \<mapsto> Link ?l)) (get_head q) G" by (intro chain_frame c(1))
  moreover have "unat (msg_cnt q + 1) = length (P @ [?l])"
    using n room by (simp add: unat_simps)
  ultimately have "mq_inv (q\<lparr>put_tail := link_of q msg, msg_cnt := msg_cnt q + 1\<rparr>) (h(?t \<mapsto> Link ?l)) G (P @ [?l])"
    using heads d new by (simp add: mq_inv_def tail_of_def link_of_def)
  moreover have "(h(?t \<mapsto> Link ?l)) a = h a"
    if "a \<notin> insert Head1 (insert Head2 (Link ` set P))" for a
    using that hd(7) by (auto simp: tail_of_def)
  ultimately show ?thesis using e by blast
qed

lemma get_take_inv:
  assumes inv: "mq_inv q h (l # G) P"
  shows "\<exists>h'. get_take q h = Inr (l - linkoff q, h') \<and> mq_inv q h' G P \<and>
    (\<forall>a. a \<notin> {Head1, Head2} \<longrightarrow> h' a = h a)"
proof -
  from inv have heads: "{get_head q, put_head q} = {Head1, Head2}"
    and c: "h (get_head q) = Some (Link l)" "chain h (Link l) G" "chain h (put_head q) P"
    and d: "distinct (l # G @ P)" by (simp_all add: mq_inv_def)
  note hd = heads_facts [OF heads]
  obtain v where v: "h (Link l) = Some v" using c(2) by (cases G) auto
  let ?h = "h(get_head q \<mapsto> v)"
  have "get_take q h = Inr (l - linkoff q, ?h)"
    using c(1) v hd by (simp add: get_take_def load_def store_def)
  moreover have "chain ?h (get_head q) G"
  proof (cases G)
    case Nil
    with c(2) v show ?thesis by simp
  next
    case (Cons m ms)
    then have "v = Link m" "chain h (Link m) ms" using c(2) v by auto
    moreover have "chain ?h (Link m) ms"
      using hd calculation(2) by (intro chain_frame) auto
    ultimately show ?thesis using Cons by simp
  qed
  moreover have "chain ?h (put_head q) P" using hd by (intro chain_frame c(3)) auto
  moreover have "?h a = h a" if "a \<notin> {Head1, Head2}" for a
    using that hd(6) by auto
  ultimately show ?thesis using inv by (auto simp: mq_inv_def)
qed

lemma swap_inv:
  assumes inv: "mq_inv q h [] P"
  shows "mq_inv (fst (swap_end (get_head q) (q\<lparr>get_head := put_head q\<rparr>))) h P []"
  using inv by (auto simp: mq_inv_def swap_end_def tail_of_def insert_commute)

section \<open>One caller at a time\<close>

definition mq_contents :: "msgqueue \<Rightarrow> int list \<Rightarrow> int list" where
  "mq_contents q ls = map (\<lambda>l. l - linkoff q) ls"

text \<open>The abstract value of a queue: the messages in it, first to come out first.\<close>

definition mq_holds :: "msgqueue \<Rightarrow> heap \<Rightarrow> int list \<Rightarrow> bool" where
  "mq_holds q h ms \<longleftrightarrow> (\<exists>G P. mq_inv q h G P \<and> ms = map (\<lambda>l. l - linkoff q) (G @ P))"

lemma mq_holds_I: "mq_inv q h G P \<Longrightarrow> mq_holds q h (map (\<lambda>l. l - linkoff q) (G @ P))"
  by (auto simp: mq_holds_def)

lemma put_must_wait_iff:
  "put_must_wait q \<longleftrightarrow> nonblock q = 0 \<and> 0 < unat (msg_max q) \<and> unat (msg_max q) \<le> unat (msg_cnt q)"
proof (cases "msg_max q = 0")
  case True
  have "\<not> (- 1 :: size_t) < msg_cnt q"
    using word_order.extremum_strict [of "msg_cnt q"] by simp
  with True show ?thesis by (simp add: put_must_wait_def)
next
  case False
  then have "0 < unat (msg_max q)" by (simp add: unat_gt_0)
  moreover from this have "unat (msg_max q - 1) = unat (msg_max q) - 1" by (simp add: unat_simps)
  ultimately show ?thesis by (auto simp: put_must_wait_def less64_iff)
qed

lemma msgqueue_put_adds:
  assumes h: "mq_holds q h ms" and new: "msg \<notin> set ms" and room: "length ms < 2 ^ 64 - 1"
  shows "\<exists>q' h'. msgqueue_put msg q h = (if put_must_wait q then Inr Waits else Inr (Returns (q', h'))) \<and>
    mq_holds q' h' (ms @ [msg]) \<and> msg_max q' = msg_max q \<and> nonblock q' = nonblock q \<and>
    linkoff q' = linkoff q"
proof -
  from h obtain G P where inv: "mq_inv q h G P" and ms: "ms = map (\<lambda>l. l - linkoff q) (G @ P)"
    by (auto simp: mq_holds_def)
  have fresh: "msg + linkoff q \<notin> set (G @ P)" using new ms by force
  let ?h = "h(link_of q msg \<mapsto> Null)"
  have st: "put_link msg q h = Inr ?h" by (simp add: put_link_def store_def link_of_def)
  have heads: "{get_head q, put_head q} = {Head1, Head2}" using inv by (simp add: mq_inv_def)
  have "chain ?h (get_head q) G" "chain ?h (put_head q) P"
    using inv fresh heads_facts [OF heads]
    by (auto simp: mq_inv_def link_of_def intro!: chain_frame simp del: fun_upd_apply)
  then have inv': "mq_inv q ?h G P" using inv by (simp add: mq_inv_def)
  have "length P < 2 ^ 64 - 1" using room ms by simp
  from put_append_inv [OF inv' _ fresh this] obtain h' where
    a: "put_append msg q ?h = Inr (q\<lparr>put_tail := link_of q msg, msg_cnt := msg_cnt q + 1\<rparr>, h')"
      "mq_inv (q\<lparr>put_tail := link_of q msg, msg_cnt := msg_cnt q + 1\<rparr>) h' G (P @ [msg + linkoff q])" by auto
  have "mq_holds (q\<lparr>put_tail := link_of q msg, msg_cnt := msg_cnt q + 1\<rparr>) h' (ms @ [msg])"
    using mq_holds_I [OF a(2)] ms by simp
  with st a(1) show ?thesis
    by (intro exI [of _ "q\<lparr>put_tail := link_of q msg, msg_cnt := msg_cnt q + 1\<rparr>"] exI [of _ h'])
      (simp add: msgqueue_put_def)
qed

lemma get_head_empty: "mq_inv q h G P \<Longrightarrow> load h (get_head q) = Inr (case G of [] \<Rightarrow> Null | l # _ \<Rightarrow> Link l)"
  by (cases G) (auto simp: mq_inv_def load_def)

lemma msgqueue_get_takes:
  assumes h: "mq_holds q h (m # ms)"
  shows "\<exists>q' h'. msgqueue_get q h = Inr (Returns (Some m, q', h')) \<and> mq_holds q' h' ms \<and>
    msg_max q' = msg_max q \<and> nonblock q' = nonblock q \<and> linkoff q' = linkoff q"
proof -
  from h obtain G P where inv: "mq_inv q h G P" and ms: "m # ms = map (\<lambda>l. l - linkoff q) (G @ P)"
    by (auto simp: mq_holds_def)
  show ?thesis
  proof (cases G)
    case (Cons l G')
    from get_take_inv [OF inv [unfolded Cons]] obtain h' where
      g: "get_take q h = Inr (l - linkoff q, h')" "mq_inv q h' G' P" by blast
    with get_head_empty [OF inv] ms Cons mq_holds_I [OF g(2)] show ?thesis
      by (intro exI [of _ q] exI [of _ h']) (simp add: msgqueue_get_def)
  next
    case Nil
    let ?q = "fst (swap_end (get_head q) (q\<lparr>get_head := put_head q\<rparr>))"
    have sw: "mq_inv ?q h P []" using swap_inv inv Nil by simp
    from Nil ms obtain l P' where P: "P = l # P'" by (cases P) auto
    from get_take_inv [OF sw [unfolded P]] obtain h' where
      g: "get_take ?q h = Inr (l - linkoff ?q, h')" "mq_inv ?q h' P' []" by blast
    have cnt: "0 < msg_cnt q" using inv P by (auto simp: mq_inv_def word_neq_0_conv [symmetric])
    have off: "linkoff ?q = linkoff q" by (simp add: swap_end_def)
    have "\<not> swap_must_wait (q\<lparr>get_head := put_head q\<rparr>)" using cnt by (auto simp: swap_must_wait_def)
    then have "msgqueue_get q h = Inr (Returns (Some (l - linkoff q), ?q, h'))"
      using get_head_empty [OF inv] Nil cnt g(1)
      by (simp add: msgqueue_get_def swap_begin_def swap_end_def)
    moreover have "mq_holds ?q h' ms" using mq_holds_I [OF g(2)] ms Nil P off by simp
    ultimately show ?thesis using ms Nil P
      by (intro exI [of _ ?q] exI [of _ h']) (simp add: swap_end_def)
  qed
qed

text \<open>On an empty queue the caller waits in blocking mode and gets the null pointer otherwise.\<close>

lemma msgqueue_get_empty:
  assumes h: "mq_holds q h []"
  shows "\<exists>q'. msgqueue_get q h = Inr (if nonblock q = 0 then Waits else Returns (None, q', h)) \<and>
    mq_holds q' h [] \<and> msg_max q' = msg_max q \<and> nonblock q' = nonblock q \<and> linkoff q' = linkoff q"
proof -
  from h have inv: "mq_inv q h [] []" by (auto simp: mq_holds_def)
  let ?q = "fst (swap_end (get_head q) (q\<lparr>get_head := put_head q\<rparr>))"
  have "mq_inv ?q h [] []" using swap_inv [OF inv] .
  then have "mq_holds ?q h []" using mq_holds_I by fastforce
  moreover have "msg_cnt q = 0" using inv by (simp add: mq_inv_def unat_eq_0)
  ultimately show ?thesis using get_head_empty [OF inv]
    by (intro exI [of _ ?q])
      (auto simp: msgqueue_get_def swap_begin_def swap_end_def swap_must_wait_def)
qed

section \<open>The contract for clients\<close>

text \<open>Taking until the queue reports that it is empty, at most \<open>n\<close> times.\<close>

primrec drain_queue :: "nat \<Rightarrow> ('s \<Rightarrow> ('m option \<times> 's) res) \<Rightarrow> 's \<Rightarrow> ('m list \<times> 's) res" where
  "drain_queue 0 get s = Inr ([], s)"
| "drain_queue (Suc n) get s =
     res_bind (get s) (\<lambda>(m, s).
       case m of
         None \<Rightarrow> Inr ([], s)
       | Some m \<Rightarrow> res_bind (drain_queue n get s) (\<lambda>(ms, s). Inr (m # ms, s)))"

text \<open>What holds in both modes, up to a limit; and what a nonblocking queue adds.\<close>

locale fifo_store =
  fixes put :: "'m \<Rightarrow> 's \<Rightarrow> 's res"
    and get :: "'s \<Rightarrow> ('m option \<times> 's) res"
    and holds_list :: "'s \<Rightarrow> 'm list \<Rightarrow> bool"
    and limit :: nat
  assumes put_adds: "holds_list s ms \<Longrightarrow> m \<notin> set ms \<Longrightarrow> length ms < limit \<Longrightarrow>
      \<exists>s'. put m s = Inr s' \<and> holds_list s' (ms @ [m])"
    and get_takes: "holds_list s (m # ms) \<Longrightarrow> \<exists>s'. get s = Inr (Some m, s') \<and> holds_list s' ms"
begin

lemma put_all:
  assumes "holds_list s ms" "distinct (ms @ ns)" "length ms + length ns \<le> limit"
  shows "\<exists>s'. res_fold put ns s = Inr s' \<and> holds_list s' (ms @ ns)"
  using assms
proof (induction ns arbitrary: s ms)
  case (Cons n ns)
  from put_adds [of s ms n] Cons.prems obtain s1 where
    s1: "put n s = Inr s1" "holds_list s1 (ms @ [n])" by auto
  from Cons.IH [OF s1(2)] Cons.prems s1(1) show ?case by auto
qed auto

lemma take_all: "holds_list s ms \<Longrightarrow> \<exists>s'. drain_queue (length ms) get s = Inr (ms, s') \<and> holds_list s' []"
proof (induction ms arbitrary: s)
  case (Cons m ms)
  with get_takes obtain s1 where "get s = Inr (Some m, s1)" "holds_list s1 ms" by blast
  with Cons.IH [of s1] show ?case by auto
qed simp

end

locale fifo_queue = fifo_store +
  assumes get_empty: "holds_list s [] \<Longrightarrow> \<exists>s'. get s = Inr (None, s') \<and> holds_list s' []"
begin

lemma drain_all:
  assumes "holds_list s ms" "length ms < n"
  shows "\<exists>s'. drain_queue n get s = Inr (ms, s') \<and> holds_list s' []"
  using assms
proof (induction n arbitrary: s ms)
  case (Suc n)
  show ?case
  proof (cases ms)
    case Nil
    with get_empty Suc.prems show ?thesis by fastforce
  next
    case (Cons m ns)
    with get_takes Suc.prems obtain s1 where "get s = Inr (Some m, s1)" "holds_list s1 ns" by blast
    with Suc.IH [of s1 ns] Suc.prems Cons show ?thesis by auto
  qed
qed simp

end

text \<open>
  A caller alone that has to wait is never woken, so its call does not return. In nonblocking
  mode neither operation waits.
\<close>

definition returns :: "'a outcome res \<Rightarrow> 'a res" where
  "returns r = res_bind r (\<lambda>x. case x of Waits \<Rightarrow> Inl Diverges | Returns y \<Rightarrow> Inr y)"

definition mq_put :: "int \<Rightarrow> msgqueue \<times> heap \<Rightarrow> (msgqueue \<times> heap) res" where
  "mq_put m x = returns (msgqueue_put m (fst x) (snd x))"

definition mq_get :: "msgqueue \<times> heap \<Rightarrow> (int option \<times> msgqueue \<times> heap) res" where
  "mq_get x = returns (msgqueue_get (fst x) (snd x))"

interpretation mq: fifo_queue mq_put mq_get
  "\<lambda>x ms. mq_holds (fst x) (snd x) ms \<and> nonblock (fst x) \<noteq> 0" "2 ^ 64 - 1"
proof unfold_locales
  fix x :: "msgqueue \<times> heap" and ms m
  assume a: "mq_holds (fst x) (snd x) ms \<and> nonblock (fst x) \<noteq> 0" "m \<notin> set ms" "length ms < 2 ^ 64 - 1"
  then have "\<not> put_must_wait (fst x)" by (simp add: put_must_wait_def)
  with a msgqueue_put_adds [of "fst x" "snd x" ms m]
  show "\<exists>x'. mq_put m x = Inr x' \<and> mq_holds (fst x') (snd x') (ms @ [m]) \<and> nonblock (fst x') \<noteq> 0"
    by (fastforce simp: mq_put_def returns_def)
next
  fix x :: "msgqueue \<times> heap" and ms m
  assume "mq_holds (fst x) (snd x) (m # ms) \<and> nonblock (fst x) \<noteq> 0"
  with msgqueue_get_takes [of "fst x" "snd x" m ms]
  show "\<exists>x'. mq_get x = Inr (Some m, x') \<and> mq_holds (fst x') (snd x') ms \<and> nonblock (fst x') \<noteq> 0"
    by (fastforce simp: mq_get_def returns_def)
next
  fix x :: "msgqueue \<times> heap"
  assume "mq_holds (fst x) (snd x) [] \<and> nonblock (fst x) \<noteq> 0"
  with msgqueue_get_empty [of "fst x" "snd x"]
  show "\<exists>x'. mq_get x = Inr (None, x') \<and> mq_holds (fst x') (snd x') [] \<and> nonblock (fst x') \<noteq> 0"
    by (fastforce simp: mq_get_def returns_def)
qed

text \<open>In either mode, as long as no more than \<open>room\<close> messages are in a queue that has room for them.\<close>

definition mq_room :: "nat \<Rightarrow> bool \<Rightarrow> msgqueue \<times> heap \<Rightarrow> int list \<Rightarrow> bool" where
  "mq_room room nb x ms \<longleftrightarrow> mq_holds (fst x) (snd x) ms \<and> (nonblock (fst x) \<noteq> 0 \<longleftrightarrow> nb) \<and>
     (nb \<or> msg_max (fst x) = 0 \<or> room \<le> unat (msg_max (fst x)))"

lemma mq_cnt_le: "mq_holds q h ms \<Longrightarrow> unat (msg_cnt q) \<le> length ms"
  by (auto simp: mq_holds_def mq_inv_def)

lemma mq_room_no_wait: "mq_room room nb x ms \<Longrightarrow> length ms < room \<Longrightarrow> \<not> put_must_wait (fst x)"
  using mq_cnt_le [of "fst x" "snd x" ms] by (auto simp: mq_room_def put_must_wait_iff)

interpretation mqs: fifo_store mq_put mq_get "mq_room room nb" "min room (2 ^ 64 - 1)" for room nb
proof unfold_locales
  fix x :: "msgqueue \<times> heap" and ms m
  assume a: "mq_room room nb x ms" "m \<notin> set ms" "length ms < min room (2 ^ 64 - 1)"
  then have "\<not> put_must_wait (fst x)" using mq_room_no_wait by simp
  with a msgqueue_put_adds [of "fst x" "snd x" ms m]
  show "\<exists>x'. mq_put m x = Inr x' \<and> mq_room room nb x' (ms @ [m])"
    by (fastforce simp: mq_put_def returns_def mq_room_def)
next
  fix x :: "msgqueue \<times> heap" and ms m
  assume "mq_room room nb x (m # ms)"
  with msgqueue_get_takes [of "fst x" "snd x" m ms]
  show "\<exists>x'. mq_get x = Inr (Some m, x') \<and> mq_room room nb x' ms"
    by (fastforce simp: mq_get_def returns_def mq_room_def)
qed

text \<open>Puts alone: the counter is the number of messages.\<close>

lemma mq_put_count:
  "mq_put m x = Inr x' \<Longrightarrow> msg_cnt (fst x') = msg_cnt (fst x) + 1 \<and> msg_max (fst x') = msg_max (fst x) \<and>
   nonblock (fst x') = nonblock (fst x)"
  by (auto simp: mq_put_def returns_def msgqueue_put_def put_append_def res_bind_Inr split: if_splits outcome.splits)

lemma mq_puts_count:
  "res_fold mq_put ms x = Inr x' \<Longrightarrow> msg_cnt (fst x') = msg_cnt (fst x) + of_nat (length ms) \<and>
   msg_max (fst x') = msg_max (fst x) \<and> nonblock (fst x') = nonblock (fst x)"
  by (induction ms arbitrary: x) (auto simp: res_bind_Inr dest!: mq_put_count)

lemma put_waits: "put_must_wait q \<Longrightarrow> msgqueue_put m q h = Inr Waits"
  by (simp add: msgqueue_put_def put_link_def store_def link_of_def)

section \<open>Properties\<close>

text \<open>C30: One caller of a queue just created, in its blocking mode or set to nonblocking. As many messages as
  maxlen allows in blocking mode (any number with maxlen 0), and any number in nonblocking mode, are put
  without waiting and handed out, each exactly once and in the order of the puts; the next get waits in
  blocking mode and returns the null pointer in nonblocking mode. In blocking mode the put after maxlen
  messages waits.\<close>

theorem msgqueue_fifo:
  assumes "msgqueue_create alloc r1 r2 r3 r4 maxlen off = Created q h" "distinct ms" "length ms < 2 ^ 64"
    "x = (if nb then set_nonblock_flag q else q, h)"
  shows "(nb \<or> maxlen = 0 \<or> length ms \<le> unat maxlen \<longrightarrow>
      (\<exists>x1 q2 h2 q3. res_fold mq_put ms x = Inr x1 \<and> drain_queue (length ms) mq_get x1 = Inr (ms, q2, h2) \<and>
         msgqueue_get q2 h2 = Inr (if nb then Returns (None, q3, h2) else Waits))) \<and>
    (\<not> nb \<and> maxlen \<noteq> 0 \<and> unat maxlen < length ms \<longrightarrow>
      (\<exists>q1 h1. res_fold mq_put (take (unat maxlen) ms) x = Inr (q1, h1) \<and>
         msgqueue_put (ms ! unat maxlen) q1 h1 = Inr Waits))"
proof -
  have q: "mq_inv q h [] []" "msg_max q = maxlen" "nonblock q = 0" "msg_cnt q = 0"
    using msgqueue_create_inv [OF assms(1)] by (simp_all add: mq_inv_def unat_eq_0)
  then have "mq_inv (fst x) (snd x) [] []" by (simp add: assms(4) mq_inv_def set_nonblock_flag_def)
  from mq_holds_I [OF this] have start: "mq_room r nb x []" if "nb \<or> maxlen = 0 \<or> r \<le> unat maxlen" for r
    using that q(2,3) by (auto simp: mq_room_def assms(4) set_nonblock_flag_def)
  show ?thesis
  proof (intro conjI impI)
    assume "nb \<or> maxlen = 0 \<or> length ms \<le> unat maxlen"
    from mqs.put_all [OF start [OF this], of ms] assms(2,3) obtain x1 where
      x1: "res_fold mq_put ms x = Inr x1" "mq_room (length ms) nb x1 ms" by auto
    from mqs.take_all [OF x1(2)] obtain q2 h2 where
      x2: "drain_queue (length ms) mq_get x1 = Inr (ms, q2, h2)" "mq_room (length ms) nb (q2, h2) []" by auto
    then have "mq_holds q2 h2 []" "nonblock q2 \<noteq> 0 \<longleftrightarrow> nb" by (simp_all add: mq_room_def)
    from msgqueue_get_empty [OF this(1)] this(2) obtain q3 where
      "msgqueue_get q2 h2 = Inr (if nb then Returns (None, q3, h2) else Waits)" by auto
    with x1(1) x2(1) show
      "\<exists>x1 q2 h2 q3. res_fold mq_put ms x = Inr x1 \<and> drain_queue (length ms) mq_get x1 = Inr (ms, q2, h2) \<and>
         msgqueue_get q2 h2 = Inr (if nb then Returns (None, q3, h2) else Waits)" by blast
  next
    assume b: "\<not> nb \<and> maxlen \<noteq> 0 \<and> unat maxlen < length ms"
    let ?ms = "take (unat maxlen) ms"
    have len: "length ?ms = unat maxlen" "distinct ?ms" using b assms(2) by simp_all
    then have "mq_room (length ?ms) nb x []" by (intro start) simp
    from mqs.put_all [OF this, of ?ms] len b assms(3) obtain q1 h1 where
      x1: "res_fold mq_put ?ms x = Inr (q1, h1)" by auto
    from mq_puts_count [OF this] have "msg_cnt q1 = maxlen" "msg_max q1 = maxlen" "nonblock q1 = 0"
      using q b len(1) by (simp_all add: assms(4))
    moreover have "0 < unat maxlen" using b by (simp add: unat_gt_0)
    ultimately have "put_must_wait q1" by (simp add: put_must_wait_iff)
    with x1 put_waits show "\<exists>q1 h1. res_fold mq_put ?ms x = Inr (q1, h1) \<and>
        msgqueue_put (ms ! unat maxlen) q1 h1 = Inr Waits" by blast
  qed
qed

theorem msgqueue_fifo_witness:
  "\<exists>q h x1 q2 h2 q1 h1. msgqueue_create True 0 0 0 0 2 8 = Created q h \<and>
    res_fold mq_put [100, 40] (q, h) = Inr x1 \<and> drain_queue 2 mq_get x1 = Inr ([100, 40], q2, h2) \<and>
    msgqueue_get q2 h2 = Inr Waits \<and> msgqueue_put 70 q1 h1 = Inr Waits"
proof -
  obtain q h where c: "msgqueue_create True 0 0 0 0 2 8 = Created q h"
    by (simp add: msgqueue_create_def)
  have l: "Suc (Suc 0) = 2" "length [100, 40 :: int] = 2" by simp_all
  have "\<exists>x1 q2 h2. res_fold mq_put [100, 40] (q, h) = Inr x1 \<and> drain_queue 2 mq_get x1 = Inr ([100, 40], q2, h2) \<and>
      msgqueue_get q2 h2 = Inr Waits"
    using conjunct1 [OF msgqueue_fifo [OF c, of "[100, 40]" "(q, h)" False]] unfolding l(2) by simp
  moreover have "\<exists>q1 h1. msgqueue_put 70 q1 h1 = Inr Waits"
    using conjunct2 [OF msgqueue_fifo [OF c, of "[100, 40, 70]" "(q, h)" False]] by auto
  ultimately show ?thesis using c by blast
qed

text \<open>A failed \<open>msgqueue_create\<close> destroys exactly the objects it had initialised, in reverse
  order, and reports the code of the call that failed.\<close>

theorem msgqueue_create_cleans_up:
  "msgqueue_create True r1 r2 r3 r4 maxlen off = NotCreated e objs \<longleftrightarrow>
     (\<exists>k < 4. e = Some ([r1, r2, r3, r4] ! k) \<and> [r1, r2, r3, r4] ! k \<noteq> 0 \<and>
        (\<forall>i < k. [r1, r2, r3, r4] ! i = 0) \<and> objs = rev (take k [GetMutex, PutMutex, GetCond, PutCond]))"
proof -
  have four: "(\<exists>k < 4. Q k) \<longleftrightarrow> Q 0 \<or> Q 1 \<or> Q 2 \<or> Q (3::nat)" for Q
    by (auto simp: eval_nat_numeral Ex_less_Suc)
  have all: "(\<forall>i < 1. Q i) \<longleftrightarrow> Q (0::nat)" "(\<forall>i < 2. Q i) \<longleftrightarrow> Q 0 \<and> Q (1::nat)"
    "(\<forall>i < 3. Q i) \<longleftrightarrow> Q 0 \<and> Q 1 \<and> Q (2::nat)" for Q
    by (auto simp: eval_nat_numeral All_less_Suc)
  show ?thesis unfolding four all by (auto simp: msgqueue_create_def numeral_2_eq_2 numeral_3_eq_3)
qed

lemma msgqueue_create_cleans_up_witness:
  "msgqueue_create True 0 0 11 0 5 8 = NotCreated (Some 11) [PutMutex, GetMutex]"
  using msgqueue_create_cleans_up [of 0 0 11 0 5 8 "Some 11" "[PutMutex, GetMutex]"]
  by (simp add: msgqueue_create_def)

end
