(* ===== verification/MsgqueueConc.thy ===== *)
theory MsgqueueConc
  imports Msgqueue
begin

text \<open>
  The message queue of thrdpool/msgqueue.c under any number of putting and getting threads: a
  step relation whose steps are the critical sections of the code, with condition variables that
  may also wake spuriously. The ghost fields \<open>puts\<close> and \<open>gets\<close> record the messages in the order in
  which they were linked and handed out. Shown for every reachable state: messages come out in
  the order they went in, none lost or doubled; no step faults; the bound of the comment in
  msgqueue.h; no wake-up is lost.
\<close>

section \<open>Threads\<close>

text \<open>
  A putting thread: outside; its link word cleared, about to take the lock; in \<open>pthread_cond_wait\<close>;
  past the unlock, about to signal \<open>get_cond\<close>.
\<close>

datatype put_phase = PIdle | PLinked int | PWaiting int | PSignal

text \<open>
  Whoever holds \<open>get_mutex\<close> (a thread number): at the test of \<open>*get_head\<close>; inside \<open>__msgqueue_swap\<close>
  with the old \<open>get_head\<close>, ready or in \<open>pthread_cond_wait\<close>; back from it with the count.
\<close>

datatype get_phase = GFree | GLocked nat | GSwap nat addr | GWaiting nat addr | GTake nat size_t

record mqs =
  mq :: msgqueue
  mem :: heap
  pp :: "nat \<Rightarrow> put_phase"
  gp :: get_phase
  nbcall :: bool
  nb_used :: bool
  puts :: "int list"
  gets :: "int list"

definition wake_put :: "put_phase \<Rightarrow> put_phase" where
  "wake_put p = (case p of PWaiting m \<Rightarrow> PLinked m | _ \<Rightarrow> p)"

definition wake_get :: "get_phase \<Rightarrow> get_phase" where
  "wake_get g = (case g of GWaiting t old \<Rightarrow> GSwap t old | _ \<Rightarrow> g)"

definition pending_msgs :: "mqs \<Rightarrow> int list" where
  "pending_msgs s = drop (length (gets s)) (puts s)"

definition put_msg :: "put_phase \<Rightarrow> int option" where
  "put_msg p = (case p of PLinked m \<Rightarrow> Some m | PWaiting m \<Rightarrow> Some m | _ \<Rightarrow> None)"

section \<open>Steps\<close>

text \<open>
  A caller owns the message it puts: it is not in the queue and no other thread is putting it.
\<close>

inductive mq_step :: "mqs \<Rightarrow> mqs \<Rightarrow> bool" where
  put_start: "pp s t = PIdle \<Longrightarrow> m \<notin> set (pending_msgs s) \<Longrightarrow> \<forall>u. put_msg (pp s u) \<noteq> Some m \<Longrightarrow>
    put_link m (mq s) (mem s) = Inr h \<Longrightarrow> mq_step s (s\<lparr>mem := h, pp := (pp s)(t := PLinked m)\<rparr>)"
| put_wait: "pp s t = PLinked m \<Longrightarrow> put_must_wait (mq s) \<Longrightarrow>
    mq_step s (s\<lparr>pp := (pp s)(t := PWaiting m)\<rparr>)"
| put_do: "pp s t = PLinked m \<Longrightarrow> \<not> put_must_wait (mq s) \<Longrightarrow> put_append m (mq s) (mem s) = Inr (q, h) \<Longrightarrow>
    mq_step s (s\<lparr>mq := q, mem := h, pp := (pp s)(t := PSignal), puts := puts s @ [m]\<rparr>)"
| put_spurious: "pp s t = PWaiting m \<Longrightarrow> mq_step s (s\<lparr>pp := (pp s)(t := PLinked m)\<rparr>)"
| put_signal: "pp s t = PSignal \<Longrightarrow>
    mq_step s (s\<lparr>pp := (pp s)(t := PIdle), gp := wake_get (gp s)\<rparr>)"
| get_lock: "gp s = GFree \<Longrightarrow> mq_step s (s\<lparr>gp := GLocked t\<rparr>)"
| get_fast: "gp s = GLocked t \<Longrightarrow> load (mem s) (get_head (mq s)) = Inr a \<Longrightarrow> a \<noteq> Null \<Longrightarrow>
    get_take (mq s) (mem s) = Inr (m, h) \<Longrightarrow> mq_step s (s\<lparr>mem := h, gp := GFree, gets := gets s @ [m]\<rparr>)"
| get_swap: "gp s = GLocked t \<Longrightarrow> load (mem s) (get_head (mq s)) = Inr Null \<Longrightarrow>
    swap_begin (mq s) = (q, old) \<Longrightarrow> mq_step s (s\<lparr>mq := q, gp := GSwap t old\<rparr>)"
| swap_wait: "gp s = GSwap t old \<Longrightarrow> swap_must_wait (mq s) \<Longrightarrow> mq_step s (s\<lparr>gp := GWaiting t old\<rparr>)"
| swap_do: "gp s = GSwap t old \<Longrightarrow> \<not> swap_must_wait (mq s) \<Longrightarrow> swap_end old (mq s) = (q, cnt, broadcast) \<Longrightarrow>
    mq_step s (s\<lparr>mq := q, gp := GTake t cnt, pp := (if broadcast then wake_put \<circ> pp s else pp s)\<rparr>)"
| get_spurious: "gp s = GWaiting t old \<Longrightarrow> mq_step s (s\<lparr>gp := GSwap t old\<rparr>)"
| take_some: "gp s = GTake t cnt \<Longrightarrow> 0 < cnt \<Longrightarrow> get_take (mq s) (mem s) = Inr (m, h) \<Longrightarrow>
    mq_step s (s\<lparr>mem := h, gp := GFree, gets := gets s @ [m]\<rparr>)"
| take_none: "gp s = GTake t 0 \<Longrightarrow> mq_step s (s\<lparr>gp := GFree\<rparr>)"
| nonblock_flag: "mq_step s (s\<lparr>mq := set_nonblock_flag (mq s), nbcall := True, nb_used := True\<rparr>)"
| nonblock_signal: "nbcall s \<Longrightarrow>
    mq_step s (s\<lparr>nbcall := False, gp := wake_get (gp s), pp := wake_put \<circ> pp s\<rparr>)"
| block_flag: "mq_step s (s\<lparr>mq := msgqueue_set_block (mq s)\<rparr>)"

definition mq_start :: "msgqueue \<Rightarrow> heap \<Rightarrow> mqs" where
  "mq_start q h = \<lparr>mq = q, mem = h, pp = (\<lambda>_. PIdle), gp = GFree, nbcall = False, nb_used = False,
                   puts = [], gets = []\<rparr>"

inductive mq_reach :: "size_t \<Rightarrow> int \<Rightarrow> mqs \<Rightarrow> bool" for maxlen off where
  start: "msgqueue_create True 0 0 0 0 maxlen off = Created q h \<Longrightarrow> mq_reach maxlen off (mq_start q h)"
| step: "mq_reach maxlen off s \<Longrightarrow> mq_step s s' \<Longrightarrow> mq_reach maxlen off s'"

section \<open>The invariant\<close>

text \<open>
  Between \<open>swap_begin\<close> and \<open>swap_end\<close> both heads are the same cell and the old one is empty; the
  queue is then seen with its old \<open>get_head\<close>.
\<close>

definition seen :: "mqs \<Rightarrow> msgqueue" where
  "seen s = (case gp s of GSwap _ old \<Rightarrow> (mq s)\<lparr>get_head := old\<rparr>
     | GWaiting _ old \<Rightarrow> (mq s)\<lparr>get_head := old\<rparr> | _ \<Rightarrow> mq s)"

definition swapping :: "mqs \<Rightarrow> bool" where
  "swapping s = (case gp s of GSwap _ _ \<Rightarrow> True | GWaiting _ _ \<Rightarrow> True | _ \<Rightarrow> False)"

text \<open>The two lists, and where the messages of the history are.\<close>

definition lists_ok :: "mqs \<Rightarrow> int list \<Rightarrow> int list \<Rightarrow> bool" where
  "lists_ok s G P \<longleftrightarrow> mq_inv (seen s) (mem s) G P \<and>
     (swapping s \<longrightarrow> G = [] \<and> get_head (mq s) = put_head (mq s)) \<and>
     (\<forall>t cnt. gp s = GTake t cnt \<longrightarrow> (0 < cnt \<longleftrightarrow> G \<noteq> [])) \<and>
     puts s = gets s @ map (\<lambda>l. l - linkoff (mq s)) (G @ P)"

text \<open>Cleared link words wait to be linked; the messages are distinct and not in the queue.\<close>

definition putters_ok :: "mqs \<Rightarrow> bool" where
  "putters_ok s \<longleftrightarrow>
     (\<forall>t m. put_msg (pp s t) = Some m \<longrightarrow>
        mem s (link_of (mq s) m) = Some Null \<and> m \<notin> set (pending_msgs s)) \<and>
     (\<forall>t u m. put_msg (pp s t) = Some m \<longrightarrow> put_msg (pp s u) = Some m \<longrightarrow> t = u)"

text \<open>A waiting thread has a reason to wait, or somebody is about to wake it.\<close>

definition wakeups_ok :: "mqs \<Rightarrow> bool" where
  "wakeups_ok s \<longleftrightarrow>
     (\<forall>t m. pp s t = PWaiting m \<longrightarrow> msg_max (mq s) - 1 < msg_cnt (mq s) \<and>
        (nonblock (mq s) \<noteq> 0 \<longrightarrow> nbcall s)) \<and>
     (\<forall>t old. gp s = GWaiting t old \<longrightarrow> (msg_cnt (mq s) \<noteq> 0 \<longrightarrow> (\<exists>u. pp s u = PSignal)) \<and>
        (nonblock (mq s) \<noteq> 0 \<longrightarrow> nbcall s))"

text \<open>As long as the queue was never nonblocking, each list has at most \<open>maxlen\<close> messages.\<close>

definition bounds_ok :: "mqs \<Rightarrow> int list \<Rightarrow> int list \<Rightarrow> bool" where
  "bounds_ok s G P \<longleftrightarrow> (\<not> nb_used s \<longrightarrow> nonblock (mq s) = 0 \<and> \<not> nbcall s) \<and>
     (\<not> nb_used s \<and> msg_max (mq s) \<noteq> 0 \<longrightarrow>
        length G \<le> unat (msg_max (mq s)) \<and> length P \<le> unat (msg_max (mq s)))"

definition mqs_inv :: "mqs \<Rightarrow> bool" where
  "mqs_inv s \<longleftrightarrow> (\<exists>G P. lists_ok s G P \<and> bounds_ok s G P) \<and> putters_ok s \<and> wakeups_ok s"

lemma put_msg_wake [simp]: "put_msg (wake_put p) = put_msg p"
  by (simp add: wake_put_def put_msg_def split: put_phase.splits)

lemma wake_put_not_waiting [simp]: "wake_put p \<noteq> PWaiting m"
  by (simp add: wake_put_def split: put_phase.splits)

lemma wake_put_PSignal [simp]: "wake_put p = PSignal \<longleftrightarrow> p = PSignal"
  by (simp add: wake_put_def split: put_phase.splits)

lemma wake_get_not_waiting [simp]: "wake_get g \<noteq> GWaiting t old"
  by (simp add: wake_get_def split: get_phase.splits)

lemma wake_get_seen [simp]:
  "seen (s\<lparr>gp := wake_get (gp s)\<rparr>) = seen s" "swapping (s\<lparr>gp := wake_get (gp s)\<rparr>) = swapping s"
  "wake_get (gp s) = GTake t cnt \<longleftrightarrow> gp s = GTake t cnt"
  by (auto simp: wake_get_def seen_def swapping_def split: get_phase.splits)

lemma seen_fields [simp]:
  "msg_max (seen s) = msg_max (mq s)" "msg_cnt (seen s) = msg_cnt (mq s)"
  "linkoff (seen s) = linkoff (mq s)" "put_head (seen s) = put_head (mq s)"
  "put_tail (seen s) = put_tail (mq s)" "nonblock (seen s) = nonblock (mq s)"
  by (simp_all add: seen_def split: get_phase.splits)

lemma lists_pending: "lists_ok s G P \<Longrightarrow> pending_msgs s = map (\<lambda>l. l - linkoff (mq s)) (G @ P)"
  by (simp add: lists_ok_def pending_msgs_def)

lemma link_in_lists: "lists_ok s G P \<Longrightarrow> m \<notin> set (pending_msgs s) \<Longrightarrow> m + linkoff (mq s) \<notin> set (G @ P)"
  unfolding lists_pending by force

lemma chain_cong:
  "chain h a ls \<Longrightarrow> h' a = h a \<Longrightarrow> (\<And>l. l \<in> set ls \<Longrightarrow> h' (Link l) = h (Link l)) \<Longrightarrow> chain h' a ls"
  by (induction ls arbitrary: a) auto

lemma mq_inv_mem:
  assumes "mq_inv q h G P" "\<And>a. a \<in> {Head1, Head2} \<Longrightarrow> h' a = h a"
    "\<And>l. l \<in> set (G @ P) \<Longrightarrow> h' (Link l) = h (Link l)"
  shows "mq_inv q h' G P"
proof -
  have "{get_head q, put_head q} = {Head1, Head2}" using assms(1) by (simp add: mq_inv_def)
  note hd = heads_facts [OF this]
  have "chain h' (get_head q) G" "chain h' (put_head q) P"
    using assms hd(6,7) by (auto simp: mq_inv_def intro!: chain_cong [of h])
  then show ?thesis using assms(1) by (simp add: mq_inv_def)
qed

section \<open>Every step keeps the invariant\<close>

text \<open>Steps that change neither the queue nor the memory nor the histories.\<close>

lemma quiet_step:
  assumes inv: "mqs_inv s" and same: "mq s' = mq s" "mem s' = mem s" "puts s' = puts s" "gets s' = gets s"
    "nbcall s' = nbcall s" "nb_used s' = nb_used s"
    and view: "seen s' = seen s" "swapping s' = swapping s" "\<And>t cnt. gp s' = GTake t cnt \<Longrightarrow> gp s = GTake t cnt"
    and msgs: "\<And>t. put_msg (pp s' t) = put_msg (pp s t)" and wake: "wakeups_ok s'"
  shows "mqs_inv s'"
proof -
  from inv obtain G P where "lists_ok s G P" "bounds_ok s G P" by (auto simp: mqs_inv_def)
  then have "lists_ok s' G P" "bounds_ok s' G P"
    unfolding lists_ok_def bounds_ok_def view(1,2) same using view(3) by blast+
  moreover have "putters_ok s'"
    using inv unfolding mqs_inv_def putters_ok_def pending_msgs_def msgs same by simp
  ultimately show ?thesis using wake by (auto simp: mqs_inv_def)
qed

lemma signal_survives:
  "pp s t \<noteq> PSignal \<Longrightarrow> \<exists>u. pp s u = PSignal \<Longrightarrow> \<exists>u. ((pp s)(t := x)) u = PSignal"
  by force

lemma wakeups_upd:
  assumes w: "wakeups_ok s" and t: "pp s t \<noteq> PSignal"
    and x: "\<And>m. x = PWaiting m \<Longrightarrow> msg_max (mq s) - 1 < msg_cnt (mq s) \<and> (nonblock (mq s) \<noteq> 0 \<longrightarrow> nbcall s)"
    and same: "mq s' = mq s" "nbcall s' = nbcall s" "gp s' = gp s" "pp s' = (pp s)(t := x)"
  shows "wakeups_ok s'"
proof -
  have "msg_max (mq s) - 1 < msg_cnt (mq s) \<and> (nonblock (mq s) \<noteq> 0 \<longrightarrow> nbcall s)"
    if "((pp s)(t := x)) u = PWaiting m" for u m
    using that w x [of m] by (cases "u = t") (auto simp: wakeups_ok_def)
  moreover have "(msg_cnt (mq s) \<noteq> 0 \<longrightarrow> (\<exists>u. ((pp s)(t := x)) u = PSignal)) \<and> (nonblock (mq s) \<noteq> 0 \<longrightarrow> nbcall s)"
    if "gp s = GWaiting u old" for u old
    using that w signal_survives [OF t, of x] unfolding wakeups_ok_def by blast
  ultimately show ?thesis unfolding wakeups_ok_def same by blast
qed

lemma put_start_inv:
  assumes inv: "mqs_inv s" and idle: "pp s t = PIdle" and new: "m \<notin> set (pending_msgs s)"
    "\<forall>u. put_msg (pp s u) \<noteq> Some m" and h: "put_link m (mq s) (mem s) = Inr h"
  shows "mqs_inv (s\<lparr>mem := h, pp := (pp s)(t := PLinked m)\<rparr>)" (is "mqs_inv ?s")
proof -
  from inv obtain G P where l: "lists_ok s G P" and b: "bounds_ok s G P"
    and p: "putters_ok s" and w: "wakeups_ok s" by (auto simp: mqs_inv_def)
  have hh: "h = (mem s)(link_of (mq s) m \<mapsto> Null)" using h by (simp add: put_link_def store_def link_of_def)
  have fresh: "m + linkoff (mq s) \<notin> set (G @ P)" by (rule link_in_lists [OF l new(1)])
  have view: "seen ?s = seen s" "swapping ?s = swapping s" "pending_msgs ?s = pending_msgs s"
    by (simp_all add: seen_def swapping_def pending_msgs_def split: get_phase.splits)
  have i0: "mq_inv (seen s) (mem s) G P" using l by (simp add: lists_ok_def)
  have "mq_inv (seen s) h G P"
  proof (rule mq_inv_mem [OF i0])
    fix a :: addr assume "a \<in> {Head1, Head2}"
    then show "h a = mem s a" by (auto simp: hh link_of_def)
  next
    fix k assume "k \<in> set (G @ P)"
    with fresh have "k \<noteq> m + linkoff (mq s)" by metis
    then show "h (Link k) = mem s (Link k)" by (simp add: hh link_of_def)
  qed
  then have "lists_ok ?s G P" using l view by (simp add: lists_ok_def)
  moreover have "bounds_ok ?s G P" using b by (simp add: bounds_ok_def)
  moreover have "putters_ok ?s"
    unfolding putters_ok_def view
    using p new by (auto simp: putters_ok_def hh put_msg_def link_of_def split: if_splits)
  moreover have "wakeups_ok ?s" using idle by (intro wakeups_upd [OF w, of t "PLinked m"]) simp_all
  ultimately show ?thesis by (auto simp: mqs_inv_def)
qed

lemma put_do_inv:
  assumes inv: "mqs_inv s" and ph: "pp s t = PLinked m" and go: "\<not> put_must_wait (mq s)"
    and ap: "put_append m (mq s) (mem s) = Inr (q, h)" and room: "length (puts s) + 1 < 2 ^ 64"
  shows "mqs_inv (s\<lparr>mq := q, mem := h, pp := (pp s)(t := PSignal), puts := puts s @ [m]\<rparr>)" (is "mqs_inv ?s")
proof -
  from inv obtain G P where l: "lists_ok s G P" and b: "bounds_ok s G P"
    and p: "putters_ok s" and w: "wakeups_ok s" by (auto simp: mqs_inv_def)
  have mine: "put_msg (pp s t) = Some m" using ph by (simp add: put_msg_def)
  with p have link: "mem s (link_of (mq s) m) = Some Null" and new: "m \<notin> set (pending_msgs s)"
    by (auto simp: putters_ok_def)
  let ?l = "m + linkoff (mq s)"
  have fresh: "?l \<notin> set (G @ P)" by (rule link_in_lists [OF l new])
  have inv0: "mq_inv (seen s) (mem s) G P" using l by (simp add: lists_ok_def)
  have lseen: "link_of (seen s) m = link_of (mq s) m" by (simp add: link_of_def)
  have "length P \<le> length (puts s)" using l by (simp add: lists_ok_def)
  then have "length P < 2 ^ 64 - 1" using room by simp
  from put_append_inv [OF inv0 _ _ this, of m] link fresh lseen obtain h' where
    h': "put_append m (seen s) (mem s) =
        Inr ((seen s)\<lparr>put_tail := link_of (mq s) m, msg_cnt := msg_cnt (mq s) + 1\<rparr>, h')"
      "mq_inv ((seen s)\<lparr>put_tail := link_of (mq s) m, msg_cnt := msg_cnt (mq s) + 1\<rparr>) h' G (P @ [?l])"
      "\<forall>a. a \<notin> insert Head1 (insert Head2 (Link ` set P)) \<longrightarrow> h' a = mem s a" by auto
  have q: "q = (mq s)\<lparr>put_tail := link_of (mq s) m, msg_cnt := msg_cnt (mq s) + 1\<rparr>" and hh: "h = h'"
    using ap h'(1) by (auto simp: put_append_def res_bind_Inr store_def link_of_def split: if_splits)
  have view: "seen ?s = (seen s)\<lparr>put_tail := link_of (mq s) m, msg_cnt := msg_cnt (mq s) + 1\<rparr>"
    "swapping ?s = swapping s" by (simp_all add: seen_def swapping_def q split: get_phase.splits)
  have hist: "puts s = gets s @ map (\<lambda>l. l - linkoff (mq s)) (G @ P)" using l by (simp add: lists_ok_def)
  have "lists_ok ?s G (P @ [?l])"
    unfolding lists_ok_def view using l h'(2) hh hist by (auto simp: lists_ok_def q)
  moreover have cnt: "unat (msg_cnt (mq s)) = length P" using inv0 by (simp add: mq_inv_def)
  then have cnt1: "unat (msg_cnt (mq s) + 1) = length P + 1"
    using \<open>length P < 2 ^ 64 - 1\<close> by (simp add: unat_simps)
  have "bounds_ok ?s G (P @ [?l])"
    using b go cnt by (auto simp: bounds_ok_def put_must_wait_iff q unat_gt_0)
  moreover have pend: "pending_msgs ?s = pending_msgs s @ [m]"
    using hist by (simp add: pending_msgs_def)
  have "putters_ok ?s"
    unfolding putters_ok_def
  proof (intro conjI allI impI)
    fix u n assume a: "put_msg (pp ?s u) = Some n"
    then have u: "u \<noteq> t" "put_msg (pp s u) = Some n" by (auto simp: put_msg_def split: if_splits)
    then have n: "n \<noteq> m" "mem s (link_of (mq s) n) = Some Null" "n \<notin> set (pending_msgs s)"
      using p mine by (auto simp: putters_ok_def)
    have "n + linkoff (mq s) \<notin> set (G @ P)" by (rule link_in_lists [OF l n(3)])
    then have "link_of (mq s) n \<notin> insert Head1 (insert Head2 (Link ` set P))" by (auto simp: link_of_def)
    with h'(3) n(2) show "mem ?s (link_of (mq ?s) n) = Some Null"
      by (simp add: hh q link_of_def)
    show "n \<notin> set (pending_msgs ?s)" unfolding pend using n by simp
  next
    fix u v n assume "put_msg (pp ?s u) = Some n" "put_msg (pp ?s v) = Some n"
    then have "put_msg (pp s u) = Some n" "put_msg (pp s v) = Some n"
      by (auto simp: put_msg_def split: if_splits)
    with p show "u = v" by (auto simp: putters_ok_def)
  qed
  moreover have "wakeups_ok ?s"
    using w cnt cnt1 by (auto simp: wakeups_ok_def q less64_iff)
  ultimately show ?thesis by (auto simp: mqs_inv_def)
qed

text \<open>Handing out a message, from either place.\<close>

lemma get_take_step:
  assumes inv: "mqs_inv s" and ns: "\<not> swapping s" and g: "get_take (mq s) (mem s) = Inr (m, h)"
  shows "mqs_inv (s\<lparr>mem := h, gp := GFree, gets := gets s @ [m]\<rparr>)" (is "mqs_inv ?s")
proof -
  from inv obtain G P where l: "lists_ok s G P" and b: "bounds_ok s G P"
    and p: "putters_ok s" and w: "wakeups_ok s" by (auto simp: mqs_inv_def)
  have seen: "seen s = mq s" using ns by (simp add: swapping_def seen_def split: get_phase.splits)
  have i: "mq_inv (mq s) (mem s) G P" using l seen by (simp add: lists_ok_def)
  have "G \<noteq> []"
  proof
    assume "G = []"
    with get_head_empty [OF i] g show False by (simp add: get_take_def)
  qed
  then obtain k G' where G: "G = k # G'" by (cases G) auto
  from get_take_inv [OF i [unfolded G]] obtain h' where
    h': "get_take (mq s) (mem s) = Inr (k - linkoff (mq s), h')" "mq_inv (mq s) h' G' P"
      "\<forall>a. a \<notin> {Head1, Head2} \<longrightarrow> h' a = mem s a" by blast
  have e: "m = k - linkoff (mq s)" "h = h'" using g h'(1) by auto
  have view: "seen ?s = mq s" "swapping ?s = False" by (simp_all add: seen_def swapping_def)
  have hist: "puts s = gets s @ map (\<lambda>l. l - linkoff (mq s)) (G @ P)" using l by (simp add: lists_ok_def)
  have "lists_ok ?s G' P" unfolding lists_ok_def view using h'(2) hist G e by simp
  moreover have "bounds_ok ?s G' P" using b G by (auto simp: bounds_ok_def)
  moreover have pend: "set (pending_msgs ?s) \<subseteq> set (pending_msgs s)"
    using hist G e by (auto simp: pending_msgs_def)
  have "putters_ok ?s"
    using p pend h'(3) by (auto simp: putters_ok_def e link_of_def)
  moreover have "wakeups_ok ?s" using w by (auto simp: wakeups_ok_def)
  ultimately show ?thesis by (auto simp: mqs_inv_def)
qed

lemma get_swap_inv:
  assumes inv: "mqs_inv s" and ph: "gp s = GLocked t" and empty: "load (mem s) (get_head (mq s)) = Inr Null"
    and sb: "swap_begin (mq s) = (q, old)"
  shows "mqs_inv (s\<lparr>mq := q, gp := GSwap t old\<rparr>)" (is "mqs_inv ?s")
proof -
  from inv obtain G P where l: "lists_ok s G P" and b: "bounds_ok s G P"
    and p: "putters_ok s" and w: "wakeups_ok s" by (auto simp: mqs_inv_def)
  have seen: "seen s = mq s" "\<not> swapping s" using ph by (simp_all add: seen_def swapping_def)
  have i: "mq_inv (mq s) (mem s) G P" using l seen by (simp add: lists_ok_def)
  have G: "G = []" using get_head_empty [OF i] empty by (cases G) auto
  have q: "q = (mq s)\<lparr>get_head := put_head (mq s)\<rparr>" "old = get_head (mq s)"
    using sb by (simp_all add: swap_begin_def)
  have view: "seen ?s = mq s" "swapping ?s" "pending_msgs ?s = pending_msgs s"
    by (simp_all add: seen_def swapping_def q pending_msgs_def)
  have "lists_ok ?s G P" unfolding lists_ok_def view using l i G by (simp add: q lists_ok_def)
  moreover have "bounds_ok ?s G P" using b by (simp add: bounds_ok_def q)
  moreover have "putters_ok ?s" using p view(3) by (simp add: putters_ok_def q link_of_def)
  moreover have "wakeups_ok ?s" using w by (simp add: wakeups_ok_def q)
  ultimately show ?thesis by (auto simp: mqs_inv_def)
qed

lemma swap_do_inv:
  assumes inv: "mqs_inv s" and ph: "gp s = GSwap t old" and se: "swap_end old (mq s) = (q, cnt, broadcast)"
  shows "mqs_inv (s\<lparr>mq := q, gp := GTake t cnt, pp := (if broadcast then wake_put \<circ> pp s else pp s)\<rparr>)"
    (is "mqs_inv ?s")
proof -
  from inv obtain G P where l: "lists_ok s G P" and b: "bounds_ok s G P"
    and p: "putters_ok s" and w: "wakeups_ok s" by (auto simp: mqs_inv_def)
  have seen: "seen s = (mq s)\<lparr>get_head := old\<rparr>" "swapping s" using ph by (simp_all add: seen_def swapping_def)
  have i: "mq_inv ((mq s)\<lparr>get_head := old\<rparr>) (mem s) [] P" "G = []" "get_head (mq s) = put_head (mq s)"
    using l seen by (auto simp: lists_ok_def)
  have q: "q = (mq s)\<lparr>put_head := old, put_tail := old, msg_cnt := 0\<rparr>" "cnt = msg_cnt (mq s)"
    "broadcast = (msg_max (mq s) - 1 < msg_cnt (mq s))" using se by (auto simp: swap_end_def)
  have n: "unat (msg_cnt (mq s)) = length P" using i(1) by (simp add: mq_inv_def)
  have "mq_inv q (mem s) P []"
    using swap_inv [OF i(1)] i(3) by (simp add: q swap_end_def mq_inv_def)
  moreover have view: "seen ?s = q" "swapping ?s = False" "pending_msgs ?s = pending_msgs s"
    by (simp_all add: seen_def swapping_def pending_msgs_def)
  moreover have "0 < cnt \<longleftrightarrow> P \<noteq> []" using n q(2) by (auto simp: word_neq_0_conv [symmetric] unat_eq_0)
  ultimately have "lists_ok ?s P []"
    unfolding lists_ok_def view using l i(2) by (auto simp: lists_ok_def q)
  moreover have "bounds_ok ?s P []" using b by (auto simp: bounds_ok_def q)
  moreover have "putters_ok ?s" using p unfolding putters_ok_def view(3) by (auto simp: q link_of_def)
  moreover have "wakeups_ok ?s"
    using w unfolding q by (auto simp: wakeups_ok_def)
  ultimately show ?thesis unfolding mqs_inv_def by blast
qed

lemma flag_inv:
  assumes inv: "mqs_inv s" and s': "s' = s\<lparr>mq := (mq s)\<lparr>nonblock := n\<rparr>, nbcall := c, nb_used := u\<rparr>"
    and n: "n \<noteq> 0 \<Longrightarrow> c" "nbcall s \<Longrightarrow> c" "\<not> u \<Longrightarrow> n = 0 \<and> \<not> c" "nb_used s \<Longrightarrow> u"
  shows "mqs_inv s'"
proof -
  from inv obtain G P where l: "lists_ok s G P" and b: "bounds_ok s G P"
    and p: "putters_ok s" and w: "wakeups_ok s" by (auto simp: mqs_inv_def)
  have view: "seen s' = (seen s)\<lparr>nonblock := n\<rparr>" "swapping s' = swapping s" "pending_msgs s' = pending_msgs s"
    by (simp_all add: seen_def swapping_def pending_msgs_def s' split: get_phase.splits)
  have "mq_inv (seen s') (mem s) G P" using l unfolding view by (simp add: lists_ok_def mq_inv_def)
  then have "lists_ok s' G P" using l view(2) unfolding lists_ok_def by (simp add: s')
  moreover have "bounds_ok s' G P" using b n by (auto simp: bounds_ok_def s')
  moreover have "putters_ok s'" using p unfolding putters_ok_def view(3) by (simp add: s' link_of_def)
  moreover have "wakeups_ok s'" using w n by (auto simp: wakeups_ok_def s')
  ultimately show ?thesis by (auto simp: mqs_inv_def)
qed

lemma mq_step_inv:
  assumes step: "mq_step s s'" and inv: "mqs_inv s" and room: "length (puts s') < 2 ^ 64"
  shows "mqs_inv s'"
  using step
proof cases
  case (put_start t m h)
  then show ?thesis using put_start_inv [OF inv] by blast
next
  case (put_do t m q h)
  then show ?thesis using put_do_inv [OF inv] room by simp
next
  case (put_wait t m)
  have w: "wakeups_ok s" using inv by (simp add: mqs_inv_def)
  have "wakeups_ok s'" using put_wait
    by (intro wakeups_upd [OF w, of t "PWaiting m"]) (auto simp: put_must_wait_def)
  then show ?thesis using put_wait
    by (intro quiet_step [OF inv]) (auto simp: seen_def swapping_def put_msg_def split: get_phase.splits)
next
  case (put_spurious t m)
  have w: "wakeups_ok s" using inv by (simp add: mqs_inv_def)
  have "wakeups_ok s'" using put_spurious by (intro wakeups_upd [OF w, of t "PLinked m"]) auto
  then show ?thesis using put_spurious
    by (intro quiet_step [OF inv]) (auto simp: seen_def swapping_def put_msg_def split: get_phase.splits)
next
  case (put_signal t)
  have "wakeups_ok s'" using inv put_signal by (auto simp: mqs_inv_def wakeups_ok_def)
  then show ?thesis using put_signal
    by (intro quiet_step [OF inv])
      (auto simp: seen_def swapping_def put_msg_def wake_get_def split: get_phase.splits)
next
  case (get_lock t)
  then have "wakeups_ok s'" using inv by (auto simp: mqs_inv_def wakeups_ok_def)
  then show ?thesis using get_lock
    by (intro quiet_step [OF inv]) (auto simp: seen_def swapping_def)
next
  case (get_fast t a m h)
  then show ?thesis using get_take_step [OF inv] by (simp add: swapping_def)
next
  case (get_swap t q old)
  then show ?thesis using get_swap_inv [OF inv] by blast
next
  case (swap_wait t old)
  then have "wakeups_ok s'" using inv by (auto simp: mqs_inv_def wakeups_ok_def swap_must_wait_def)
  then show ?thesis using swap_wait
    by (intro quiet_step [OF inv]) (auto simp: seen_def swapping_def)
next
  case (swap_do t old q cnt broadcast)
  then show ?thesis using swap_do_inv [OF inv] by blast
next
  case (get_spurious t old)
  then have "wakeups_ok s'" using inv by (auto simp: mqs_inv_def wakeups_ok_def)
  then show ?thesis using get_spurious
    by (intro quiet_step [OF inv]) (auto simp: seen_def swapping_def)
next
  case (take_some t cnt m h)
  then show ?thesis using get_take_step [OF inv] by (simp add: swapping_def)
next
  case (take_none t)
  then have "wakeups_ok s'" using inv by (auto simp: mqs_inv_def wakeups_ok_def)
  then show ?thesis using take_none
    by (intro quiet_step [OF inv]) (auto simp: seen_def swapping_def)
next
  case nonblock_flag
  then show ?thesis
    by (intro flag_inv [OF inv, where n = 1 and c = True and u = True]) (auto simp: set_nonblock_flag_def)
next
  case nonblock_signal
  from inv obtain G P where l: "lists_ok s G P" and b: "bounds_ok s G P"
    and p: "putters_ok s" by (auto simp: mqs_inv_def)
  have view: "seen s' = seen s" "swapping s' = swapping s"
    using nonblock_signal by (auto simp: seen_def swapping_def wake_get_def split: get_phase.splits)
  have "lists_ok s' G P" using l unfolding lists_ok_def view using nonblock_signal by simp
  moreover have "bounds_ok s' G P" using b nonblock_signal by (auto simp: bounds_ok_def)
  moreover have "putters_ok s'" using p nonblock_signal by (simp add: putters_ok_def pending_msgs_def)
  moreover have "wakeups_ok s'" using nonblock_signal by (auto simp: wakeups_ok_def)
  ultimately show ?thesis unfolding mqs_inv_def by blast
next
  case block_flag
  have "\<not> nb_used s \<Longrightarrow> \<not> nbcall s" using inv by (auto simp: mqs_inv_def bounds_ok_def)
  then show ?thesis using block_flag
    by (intro flag_inv [OF inv, where n = 0 and c = "nbcall s" and u = "nb_used s"]) (auto simp: msgqueue_set_block_def)
qed

lemma mq_step_puts: "mq_step s s' \<Longrightarrow> length (puts s) \<le> length (puts s')"
  by (induction rule: mq_step.induct) auto

lemma mq_step_config:
  "mq_step s s' \<Longrightarrow> msg_max (mq s') = msg_max (mq s) \<and> linkoff (mq s') = linkoff (mq s)"
  by (erule mq_step.cases) (auto simp: put_append_def swap_begin_def swap_end_def set_nonblock_flag_def
      msgqueue_set_block_def res_bind_Inr)

lemma mq_start_inv:
  assumes "msgqueue_create True 0 0 0 0 maxlen off = Created q h"
  shows "mqs_inv (mq_start q h)"
proof -
  have q: "mq_inv q h [] []" "nonblock q = 0" using msgqueue_create_inv [OF assms] by simp_all
  then have "lists_ok (mq_start q h) [] []" "bounds_ok (mq_start q h) [] []"
    by (simp_all add: lists_ok_def bounds_ok_def mq_start_def seen_def swapping_def)
  then show ?thesis by (auto simp: mqs_inv_def putters_ok_def wakeups_ok_def mq_start_def put_msg_def)
qed

lemma mq_reach_inv:
  assumes "mq_reach maxlen off s" "length (puts s) < 2 ^ 64"
  shows "mqs_inv s \<and> msg_max (mq s) = maxlen \<and> linkoff (mq s) = off"
  using assms
proof (induction rule: mq_reach.induct)
  case (start q h)
  then show ?case using mq_start_inv msgqueue_create_inv [OF start(1)] by (simp add: mq_start_def)
next
  case (step s s')
  then have "length (puts s) < 2 ^ 64" using mq_step_puts [OF step.hyps(2)] by linarith
  with step.IH have i: "mqs_inv s" "msg_max (mq s) = maxlen" "linkoff (mq s) = off" by simp_all
  moreover note mq_step_config [OF step.hyps(2)]
  ultimately show ?case using mq_step_inv [OF step.hyps(2) i(1) step.prems] by simp
qed

section \<open>Instances\<close>

definition demo_q :: msgqueue where
  "demo_q = \<lparr>msg_max = 1, msg_cnt = 0, linkoff = 8, nonblock = 0, get_head = Head1, put_head = Head2,
             put_tail = Head2\<rparr>"

definition demo_heap :: heap where
  "demo_heap = [Head1 \<mapsto> Null, Head2 \<mapsto> Null]"

lemma demo_created: "msgqueue_create True 0 0 0 0 1 8 = Created demo_q demo_heap"
  by (simp add: msgqueue_create_def demo_q_def demo_heap_def)

text \<open>Thread 0 has put message 100 and is about to signal; thread 1 waits to put message 200.\<close>

definition demo_full :: mqs where
  "demo_full = (mq_start demo_q demo_heap)\<lparr>
     mq := demo_q\<lparr>put_tail := Link 108, msg_cnt := 1\<rparr>,
     mem := demo_heap(Link 108 \<mapsto> Null, Head2 \<mapsto> Link 108, Link 208 \<mapsto> Null),
     pp := (\<lambda>_. PIdle)(0 := PSignal, 1 := PWaiting 200), puts := [100]\<rparr>"

lemma demo_full_reach: "mq_reach 1 8 demo_full"
proof -
  let ?s0 = "mq_start demo_q demo_heap"
  let ?s1 = "?s0\<lparr>mem := demo_heap(Link 108 \<mapsto> Null), pp := (pp ?s0)(0 := PLinked 100)\<rparr>"
  let ?s2 = "?s1\<lparr>mq := demo_q\<lparr>put_tail := Link 108, msg_cnt := 1\<rparr>,
     mem := demo_heap(Link 108 \<mapsto> Null, Head2 \<mapsto> Link 108), pp := (pp ?s1)(0 := PSignal),
     puts := puts ?s1 @ [100]\<rparr>"
  let ?s3 = "?s2\<lparr>mem := demo_heap(Link 108 \<mapsto> Null, Head2 \<mapsto> Link 108, Link 208 \<mapsto> Null),
     pp := (pp ?s2)(1 := PLinked 200)\<rparr>"
  let ?s4 = "?s3\<lparr>pp := (pp ?s3)(1 := PWaiting 200)\<rparr>"
  have r0: "mq_reach 1 8 ?s0" by (rule mq_reach.start [OF demo_created])
  have "mq_step ?s0 ?s1"
    by (rule mq_step.put_start) (simp_all add: mq_start_def pending_msgs_def put_msg_def put_link_def
        store_def link_of_def demo_q_def)
  note r1 = mq_reach.step [OF r0 this]
  have "mq_step ?s1 ?s2"
    by (rule mq_step.put_do) (simp_all add: mq_start_def put_must_wait_def put_append_def store_def
        link_of_def demo_q_def)
  note r2 = mq_reach.step [OF r1 this]
  have "mq_step ?s2 ?s3"
    by (rule mq_step.put_start) (auto simp: mq_start_def pending_msgs_def put_msg_def put_link_def
        store_def link_of_def demo_q_def)
  note r3 = mq_reach.step [OF r2 this]
  have "mq_step ?s3 ?s4"
    by (rule mq_step.put_wait) (simp_all add: mq_start_def put_must_wait_def demo_q_def)
  from mq_reach.step [OF r3 this] show ?thesis
    by (simp add: demo_full_def mq_start_def)
qed

section \<open>Properties\<close>

text \<open>Under every interleaving of putting and getting threads the messages handed out are, in
  order, a prefix of the messages linked in: none is lost, doubled or overtaken.\<close>

theorem mq_conc_fifo:
  assumes "mq_reach maxlen off s" "length (puts s) < 2 ^ 64"
  shows "\<exists>G P. mq_inv (seen s) (mem s) G P \<and> puts s = gets s @ map (\<lambda>l. l - off) (G @ P)"
  using mq_reach_inv [OF assms] by (auto simp: mqs_inv_def lists_ok_def)

theorem mq_conc_fifo_witness:
  "\<exists>G P. mq_inv (seen demo_full) (mem demo_full) G P \<and> [100] = map (\<lambda>l. l - 8) (G @ P)"
  using mq_conc_fifo [OF demo_full_reach] by (simp add: demo_full_def mq_start_def)

text \<open>C29: A queue that was never set to nonblocking holds at most twice \<open>maxlen\<close> messages, as
  msgqueue.h says, for every \<open>maxlen\<close> but zero.\<close>

theorem mq_conc_bound:
  assumes "mq_reach maxlen off s" "length (puts s) < 2 ^ 64" "\<not> nb_used s" "maxlen \<noteq> 0"
  shows "length (pending_msgs s) \<le> 2 * unat maxlen"
proof -
  from mq_reach_inv [OF assms(1,2)] obtain G P where l: "lists_ok s G P" and b: "bounds_ok s G P"
    and m: "msg_max (mq s) = maxlen" by (auto simp: mqs_inv_def)
  have "length G \<le> unat maxlen" "length P \<le> unat maxlen" using b m assms(3,4) by (auto simp: bounds_ok_def)
  then show ?thesis unfolding lists_pending [OF l] by simp
qed

theorem mq_conc_bound_witness: "length (pending_msgs demo_full) \<le> 2"
  using mq_conc_bound [OF demo_full_reach] by (simp add: demo_full_def mq_start_def)

text \<open>With \<open>maxlen\<close> zero the test \<open>msg_cnt > msg_max - 1\<close> wraps and never holds: no putter
  ever waits, and the queue is unbounded also in blocking mode.\<close>

theorem mq_conc_maxlen_zero:
  assumes "mq_reach 0 off s" "length (puts s) < 2 ^ 64"
  shows "\<not> put_must_wait (mq s)"
  using mq_reach_inv [OF assms] by (simp add: put_must_wait_iff)

theorem mq_conc_maxlen_zero_witness:
  "\<exists>q h. mq_reach 0 8 (mq_start q h) \<and> \<not> put_must_wait q"
proof -
  obtain q h where "msgqueue_create True 0 0 0 0 0 8 = Created q h" by (simp add: msgqueue_create_def)
  then have "mq_reach 0 8 (mq_start q h)" by (rule mq_reach.start)
  with mq_conc_maxlen_zero [of 8 "mq_start q h"] show ?thesis by (auto simp: mq_start_def)
qed

text \<open>C20: No wake-up is lost: a thread waiting in \<open>msgqueue_get\<close> has nothing to get, or a putter is
  about to signal, or \<open>set_nonblock\<close> is; a thread waiting in \<open>msgqueue_put\<close> still has to wait, and
  then there is a message to get, or \<open>set_nonblock\<close> is about to wake it.\<close>

theorem mq_conc_no_lost_wakeup:
  assumes "mq_reach maxlen off s" "length (puts s) < 2 ^ 64"
  shows "(\<forall>t old. gp s = GWaiting t old \<longrightarrow>
      swap_must_wait (mq s) \<or> (\<exists>u. pp s u = PSignal) \<or> nbcall s) \<and>
    (\<forall>t m. pp s t = PWaiting m \<longrightarrow> pending_msgs s \<noteq> [] \<and> (put_must_wait (mq s) \<or> nbcall s))"
proof -
  from mq_reach_inv [OF assms] obtain G P where l: "lists_ok s G P" and w: "wakeups_ok s"
    by (auto simp: mqs_inv_def)
  have n: "unat (msg_cnt (mq s)) = length P" using l by (simp add: lists_ok_def mq_inv_def)
  have "P \<noteq> []" if "msg_max (mq s) - 1 < msg_cnt (mq s)"
    using that n by (auto simp: less64_iff)
  then show ?thesis
    using w unfolding lists_pending [OF l] wakeups_ok_def put_must_wait_def swap_must_wait_def by auto
qed

theorem mq_conc_no_lost_wakeup_witness:
  "pending_msgs demo_full \<noteq> [] \<and> (put_must_wait (mq demo_full) \<or> nbcall demo_full)"
proof -
  have "length (puts demo_full) < 2 ^ 64" "pp demo_full 1 = PWaiting 200"
    by (simp_all add: demo_full_def)
  with mq_conc_no_lost_wakeup [OF demo_full_reach] show ?thesis by blast
qed

lemma mqs_no_fault:
  assumes "mqs_inv s"
  shows "(\<forall>m. \<exists>x. put_append m (mq s) (mem s) = Inr x) \<and>
    (\<forall>t. gp s = GLocked t \<longrightarrow> (\<exists>a. load (mem s) (get_head (mq s)) = Inr a \<and>
        (a \<noteq> Null \<longrightarrow> (\<exists>x. get_take (mq s) (mem s) = Inr x)))) \<and>
    (\<forall>t cnt. gp s = GTake t cnt \<longrightarrow> 0 < cnt \<longrightarrow> (\<exists>x. get_take (mq s) (mem s) = Inr x))"
proof -
  from assms obtain G P where l: "lists_ok s G P" by (auto simp: mqs_inv_def)
  then have i: "mq_inv (seen s) (mem s) G P" by (simp add: lists_ok_def)
  then have "{get_head (seen s), put_head (mq s)} = {Head1, Head2}" "put_tail (mq s) = tail_of (put_head (mq s)) P"
    by (simp_all add: mq_inv_def)
  then have "put_tail (mq s) \<noteq> Null" using heads_facts(2) by (auto simp: tail_of_def)
  then have "\<forall>m. \<exists>x. put_append m (mq s) (mem s) = Inr x" by (simp add: put_append_def store_def)
  moreover have "\<exists>a. load (mem s) (get_head (mq s)) = Inr a \<and>
      (a \<noteq> Null \<longrightarrow> (\<exists>x. get_take (mq s) (mem s) = Inr x))" if "gp s = GLocked t" for t
  proof -
    have seen: "seen s = mq s" using that by (simp add: seen_def)
    show ?thesis
    proof (cases G)
      case Nil
      with get_head_empty [OF i] seen show ?thesis by simp
    next
      case (Cons k G')
      with get_head_empty [OF i] get_take_inv [of "mq s" "mem s" k G' P] i seen show ?thesis by auto
    qed
  qed
  moreover have "\<exists>x. get_take (mq s) (mem s) = Inr x" if "gp s = GTake t cnt" "0 < cnt" for t cnt
  proof -
    have "seen s = mq s" "G \<noteq> []" using that l by (simp_all add: seen_def lists_ok_def)
    then obtain k G' where "mq_inv (mq s) (mem s) (k # G') P" using i by (cases G) auto
    from get_take_inv [OF this] show ?thesis by blast
  qed
  ultimately show ?thesis by blast
qed

text \<open>No step of any thread goes through a bad pointer: whatever a thread is about to do to the
  lists succeeds in every reachable state.\<close>

theorem mq_conc_no_fault:
  assumes "mq_reach maxlen off s" "length (puts s) < 2 ^ 64"
  shows "(\<forall>m. \<exists>x. put_append m (mq s) (mem s) = Inr x) \<and>
    (\<forall>t. gp s = GLocked t \<longrightarrow> (\<exists>a. load (mem s) (get_head (mq s)) = Inr a \<and>
        (a \<noteq> Null \<longrightarrow> (\<exists>x. get_take (mq s) (mem s) = Inr x)))) \<and>
    (\<forall>t cnt. gp s = GTake t cnt \<longrightarrow> 0 < cnt \<longrightarrow> (\<exists>x. get_take (mq s) (mem s) = Inr x))"
  using mqs_no_fault mq_reach_inv [OF assms] by blast

theorem mq_conc_no_fault_witness: "\<exists>x. put_append 200 (mq demo_full) (mem demo_full) = Inr x"
proof -
  have "length (puts demo_full) < 2 ^ 64" by (simp add: demo_full_def)
  with mq_conc_no_fault [OF demo_full_reach] show ?thesis by blast
qed

end
