(* ===== verification/QueueSpec.thy ===== *)
theory QueueSpec
  imports Runs
begin

text \<open>
  What the message queue promises to those who use it: a list of messages and the nonblocking flag,
  with the operations a client can observe as labels. The concurrent queue of MsgqueueConc implements
  it and the pool of Thrdpool uses its queue in this way.
\<close>

section \<open>The abstract queue\<close>

datatype 'm label = Put 'm | Get 'm | Empty | Blocking bool | Tau

record 'm aqueue =
  aitems :: "'m list"
  anonblock :: bool

inductive aq_step :: "'m aqueue \<Rightarrow> 'm label \<Rightarrow> 'm aqueue \<Rightarrow> bool" where
  put: "aq_step a (Put m) (a\<lparr>aitems := aitems a @ [m]\<rparr>)"
| get: "aitems a = m # ms \<Longrightarrow> aq_step a (Get m) (a\<lparr>aitems := ms\<rparr>)"
| empty: "aitems a = [] \<Longrightarrow> anonblock a \<Longrightarrow> aq_step a Empty a"
| flag: "aq_step a (Blocking b) (a\<lparr>anonblock := \<not> b\<rparr>)"
| tau: "aq_step a Tau a"

inductive_simps aq_step_simps:
  "aq_step a (Put m) b" "aq_step a (Get m) b" "aq_step a Empty b" "aq_step a (Blocking c) b" "aq_step a Tau b"

fun puts_of :: "'m label list \<Rightarrow> 'm list" where
  "puts_of [] = []"
| "puts_of (Put m # ls) = m # puts_of ls"
| "puts_of (_ # ls) = puts_of ls"

fun gets_of :: "'m label list \<Rightarrow> 'm list" where
  "gets_of [] = []"
| "gets_of (Get m # ls) = m # gets_of ls"
| "gets_of (_ # ls) = gets_of ls"

lemma puts_of_append [simp]: "puts_of (ls @ ks) = puts_of ls @ puts_of ks"
  by (induction ls rule: puts_of.induct) auto

lemma gets_of_append [simp]: "gets_of (ls @ ks) = gets_of ls @ gets_of ks"
  by (induction ls rule: gets_of.induct) auto

lemma aq_run_items: "run_of aq_step a ls b \<Longrightarrow> aitems a @ puts_of ls = gets_of ls @ aitems b"
proof (induction rule: run_of.induct)
  case (snoc a ls b l c)
  then show ?case by (cases l) (auto simp: aq_step_simps)
qed simp

text \<open>What holds of every run from the empty queue: first in, first out, and empty-handed gets only when
  there is nothing in the queue.\<close>

definition aq_new :: "'m aqueue" where
  "aq_new = \<lparr>aitems = [], anonblock = False\<rparr>"

lemma aq_run_new:
  assumes "run_of aq_step aq_new ls b"
  shows "puts_of ls = gets_of ls @ aitems b"
    and "ls = ks @ Empty # rest \<Longrightarrow> puts_of ks = gets_of ks"
proof -
  show "puts_of ls = gets_of ls @ aitems b" using aq_run_items [OF assms] by (simp add: aq_new_def)
  assume ls: "ls = ks @ Empty # rest"
  then have "run_of aq_step aq_new ((ks @ [Empty]) @ rest) b" using assms by simp
  then obtain u where "run_of aq_step aq_new (ks @ [Empty]) u" using run_of_append by metis
  then obtain c where c: "run_of aq_step aq_new ks c" "aq_step c Empty u" by (rule run_snocE) blast
  then have "aitems c = []" by (simp add: aq_step_simps)
  then show "puts_of ks = gets_of ks" using aq_run_items [OF c(1)] by (simp add: aq_new_def)
qed

end
