(* ===== verification/MsgqueueRef.thy ===== *)
theory MsgqueueRef
  imports MsgqueueConc QueueSpec
begin

text \<open>
  The queue of thrdpool/msgqueue.c, under every interleaving of its callers, implements the abstract
  queue of QueueSpec. A put takes effect when its message is linked, a get when it unlinks its message,
  and a get that returns the null pointer when \<open>__msgqueue_swap\<close> has read the count zero: a single point
  within each call, so the queue is linearizable.
\<close>

definition abs_mq :: "mqs \<Rightarrow> int aqueue" where
  "abs_mq s = \<lparr>aitems = pending_msgs s, anonblock = (nonblock (mq s) \<noteq> 0)\<rparr>"

definition mq_label :: "mqs \<Rightarrow> mqs \<Rightarrow> int label" where
  "mq_label s s' =
     (if length (puts s) < length (puts s') then Put (last (puts s'))
      else if length (gets s) < length (gets s') then Get (last (gets s'))
      else if (nonblock (mq s) \<noteq> 0) \<noteq> (nonblock (mq s') \<noteq> 0) then Blocking (nonblock (mq s') = 0)
      else case (gp s, gp s') of
        (GSwap _ _, GTake _ cnt) \<Rightarrow> if cnt = 0 then Empty else Tau
      | _ \<Rightarrow> Tau)"

definition mq_lstep :: "mqs \<Rightarrow> int label \<Rightarrow> mqs \<Rightarrow> bool" where
  "mq_lstep s l s' \<longleftrightarrow> mq_step s s' \<and> l = mq_label s s' \<and> length (puts s') < 2 ^ 64"

section \<open>Every step is one of the abstract queue\<close>

text \<open>Steps that leave the histories and the flag alone, and are not the empty swap.\<close>

lemma silent:
  assumes "puts s' = puts s" "gets s' = gets s" "(nonblock (mq s') \<noteq> 0) = (nonblock (mq s) \<noteq> 0)"
    and "\<And>t old. gp s \<noteq> GSwap t old \<or> (\<forall>u cnt. gp s' = GTake u cnt \<longrightarrow> cnt \<noteq> 0)"
  shows "mq_label s s' = Tau" "abs_mq s' = abs_mq s"
  using assms by (auto simp: mq_label_def abs_mq_def pending_msgs_def split: get_phase.splits)

lemma silent_sim:
  assumes "puts s' = puts s" "gets s' = gets s" "(nonblock (mq s') \<noteq> 0) = (nonblock (mq s) \<noteq> 0)"
    and "\<And>t old. gp s \<noteq> GSwap t old \<or> (\<forall>u cnt. gp s' = GTake u cnt \<longrightarrow> cnt \<noteq> 0)"
  shows "aq_step (abs_mq s) (mq_label s s') (abs_mq s')"
  unfolding silent [OF assms] by (rule aq_step.tau)

lemma put_sim:
  assumes "puts s' = puts s @ [m]" "gets s' = gets s" "nonblock (mq s') = nonblock (mq s)"
    and "length (gets s) \<le> length (puts s)"
  shows "aq_step (abs_mq s) (mq_label s s') (abs_mq s')"
  using assms by (simp add: mq_label_def abs_mq_def pending_msgs_def aq_step_simps)

lemma get_sim:
  assumes "puts s' = puts s" "gets s' = gets s @ [m]" "mq s' = mq s" "pending_msgs s = m # ms"
  shows "aq_step (abs_mq s) (mq_label s s') (abs_mq s')"
proof -
  have "pending_msgs s' = ms" using assms(1,2,4)
    by (simp add: pending_msgs_def drop_Suc tl_drop [symmetric])
  then show ?thesis using assms by (simp add: mq_label_def abs_mq_def aq_step_simps)
qed

lemma flag_sim:
  assumes "puts s' = puts s" "gets s' = gets s" "gp s' = gp s"
  shows "aq_step (abs_mq s) (mq_label s s') (abs_mq s')"
  using assms
  by (auto simp: mq_label_def abs_mq_def pending_msgs_def aq_step_simps split: get_phase.splits)

lemma taken_first:
  assumes inv: "mqs_inv s" and ns: "\<not> swapping s" and g: "get_take (mq s) (mem s) = Inr (m, h)"
  shows "\<exists>ms. pending_msgs s = m # ms"
proof -
  from inv obtain G P where l: "lists_ok s G P" by (auto simp: mqs_inv_def)
  have "seen s = mq s" using ns by (simp add: swapping_def seen_def split: get_phase.splits)
  then have i: "mq_inv (mq s) (mem s) G P" using l by (simp add: lists_ok_def)
  have "G \<noteq> []" using get_head_empty [OF i] g by (auto simp: get_take_def)
  then obtain k G' where G: "G = k # G'" by (cases G) auto
  from get_take_inv [OF i [unfolded G]] g have "m = k - linkoff (mq s)" by auto
  then show ?thesis unfolding lists_pending [OF l] G by simp
qed

lemma swap_end_sim:
  assumes inv: "mqs_inv s" and ph: "gp s = GSwap t old" and go: "\<not> swap_must_wait (mq s)"
    and se: "swap_end old (mq s) = (q, cnt, broadcast)"
    and s': "s' = s\<lparr>mq := q, gp := GTake t cnt, pp := p\<rparr>"
  shows "aq_step (abs_mq s) (mq_label s s') (abs_mq s')"
proof -
  from inv obtain G P where l: "lists_ok s G P" by (auto simp: mqs_inv_def)
  have G: "G = []" and n: "unat (msg_cnt (mq s)) = length P"
    using l ph by (auto simp: lists_ok_def swapping_def mq_inv_def)
  have q: "nonblock q = nonblock (mq s)" "cnt = msg_cnt (mq s)" using se by (auto simp: swap_end_def)
  have "pending_msgs s = []" "nonblock (mq s) \<noteq> 0" if "cnt = 0"
    using that n go q unfolding lists_pending [OF l] G by (auto simp: swap_must_wait_def)
  then show ?thesis
    using ph q by (simp add: s' mq_label_def abs_mq_def pending_msgs_def aq_step_simps)
qed

lemma mq_step_sim:
  assumes inv: "mqs_inv s" and step: "mq_step s s'"
  shows "aq_step (abs_mq s) (mq_label s s') (abs_mq s')"
  using step
proof cases
  case (put_do t m q h)
  from inv have "length (gets s) \<le> length (puts s)" by (auto simp: mqs_inv_def lists_ok_def)
  moreover have "nonblock q = nonblock (mq s)"
    using put_do by (auto simp: put_append_def res_bind_Inr)
  ultimately show ?thesis using put_do by (intro put_sim) auto
next
  case (get_fast t a m h)
  from taken_first [OF inv _ get_fast(5)] get_fast obtain ms where "pending_msgs s = m # ms"
    by (auto simp: swapping_def)
  then show ?thesis using get_fast by (intro get_sim) auto
next
  case (take_some t cnt m h)
  from taken_first [OF inv _ take_some(4)] take_some obtain ms where "pending_msgs s = m # ms"
    by (auto simp: swapping_def)
  then show ?thesis using take_some by (intro get_sim) auto
next
  case (swap_do t old q cnt broadcast)
  then show ?thesis using swap_end_sim [OF inv] by blast
next
  case nonblock_flag
  then show ?thesis by (intro flag_sim) simp_all
next
  case block_flag
  then show ?thesis by (intro flag_sim) simp_all
next
  case nonblock_signal
  then show ?thesis by (intro silent_sim) (auto simp: wake_get_def split: get_phase.splits)
next
  case (put_signal t)
  then show ?thesis by (intro silent_sim) (auto simp: wake_get_def split: get_phase.splits)
next
  case (get_swap t q old)
  then show ?thesis by (intro silent_sim) (auto simp: swap_begin_def)
qed (intro silent_sim; simp)+

interpretation mqr: simulation mq_lstep mqs_inv aq_step abs_mq
  by unfold_locales (auto simp: mq_lstep_def intro: mq_step_inv mq_step_sim)

section \<open>Properties\<close>

lemma abs_mq_start:
  "msgqueue_create True 0 0 0 0 maxlen off = Created q h \<Longrightarrow> abs_mq (mq_start q h) = aq_new"
  using msgqueue_create_inv by (fastforce simp: abs_mq_def aq_new_def mq_start_def pending_msgs_def)

lemma mq_run_refines:
  assumes "msgqueue_create True 0 0 0 0 maxlen off = Created q h" "run_of mq_lstep (mq_start q h) ls s"
  shows "run_of aq_step aq_new ls (abs_mq s)"
  using mqr.run_sim [OF assms(2) mq_start_inv [OF assms(1)]] unfolding abs_mq_start [OF assms(1)] .

text \<open>Thread 0 puts message 100 into the queue, set to nonblocking, and thread 1 gets until it is empty.\<close>

definition demo_put :: mqs where
  "demo_put = (mq_start demo_q demo_heap)\<lparr>
     mq := demo_q\<lparr>put_tail := Link 108, msg_cnt := 1\<rparr>,
     mem := demo_heap(Link 108 \<mapsto> Null, Head2 \<mapsto> Link 108),
     pp := (\<lambda>_. PIdle)(0 := PSignal), puts := [100]\<rparr>"

lemma demo_put_run: "run_of mq_lstep (mq_start demo_q demo_heap) [Tau, Put 100] demo_put"
proof -
  let ?s0 = "mq_start demo_q demo_heap"
  let ?s1 = "?s0\<lparr>mem := demo_heap(Link 108 \<mapsto> Null), pp := (pp ?s0)(0 := PLinked 100)\<rparr>"
  have "mq_step ?s0 ?s1"
    by (rule mq_step.put_start) (simp_all add: mq_start_def pending_msgs_def put_msg_def put_link_def
        store_def link_of_def demo_q_def)
  then have "mq_lstep ?s0 Tau ?s1" by (simp add: mq_lstep_def mq_label_def mq_start_def)
  with run_of.snoc [OF run_of.nil] have r1: "run_of mq_lstep ?s0 ([] @ [Tau]) ?s1" .
  have "mq_step ?s1 (?s1\<lparr>mq := demo_q\<lparr>put_tail := Link 108, msg_cnt := 1\<rparr>,
     mem := demo_heap(Link 108 \<mapsto> Null, Head2 \<mapsto> Link 108), pp := (pp ?s1)(0 := PSignal), puts := puts ?s1 @ [100]\<rparr>)"
    by (rule mq_step.put_do) (simp_all add: mq_start_def put_must_wait_def put_append_def store_def
        link_of_def demo_q_def)
  then have "mq_lstep ?s1 (Put 100) demo_put"
    by (simp add: mq_lstep_def mq_label_def mq_start_def demo_put_def)
  from run_of.snoc [OF r1 this] show ?thesis by simp
qed

text \<open>C8: The queue refines the abstract queue: whatever putting and getting threads do, and however
  often they block, wake up spuriously or switch between blocking and nonblocking, the sequence of their
  puts, gets, empty-handed gets and flag changes is a run of a plain list with a flag.\<close>

theorem mq_refines:
  assumes "msgqueue_create True 0 0 0 0 maxlen off = Created q h" "run_of mq_lstep (mq_start q h) ls s"
  shows "run_of aq_step aq_new ls (abs_mq s)"
  by (rule mq_run_refines [OF assms])

theorem mq_refines_witness: "run_of aq_step aq_new [Tau, Put (100::int)] \<lparr>aitems = [100], anonblock = False\<rparr>"
  using mq_refines [OF demo_created demo_put_run]
  by (simp add: abs_mq_def demo_put_def pending_msgs_def mq_start_def demo_q_def)

text \<open>C9: First in, first out, and an honest \<open>ENOENT\<close>: the messages handed out followed by those still
  in the queue are the messages put, and a get returns the null pointer only at a moment when every
  message put so far has been handed out.\<close>

theorem mq_trace_fifo:
  assumes "msgqueue_create True 0 0 0 0 maxlen off = Created q h" "run_of mq_lstep (mq_start q h) ls s"
  shows "puts_of ls = gets_of ls @ pending_msgs s \<and>
    (\<forall>ks rest. ls = ks @ Empty # rest \<longrightarrow> puts_of ks = gets_of ks)"
proof -
  note r = mq_run_refines [OF assms]
  show ?thesis using aq_run_new(1) [OF r] aq_run_new(2) [OF r] by (simp add: abs_mq_def)
qed

theorem mq_trace_fifo_witness: "puts_of [Tau, Put 100] = gets_of [Tau, Put 100] @ pending_msgs demo_put"
  using mq_trace_fifo [OF demo_created demo_put_run] by blast

end
