(* ===== verification/PoolQueue.thy ===== *)
theory PoolQueue
  imports Thrdpool MsgqueueRef
begin

text \<open>
  The pool of thrdpool.c on top of the queue of msgqueue.c. Thrdpool keeps its queue as a list of tasks;
  here the pool runs against the concurrent queue of MsgqueueConc, which knows only addresses of entries,
  and both are shown to be in step: the pool uses its queue as the abstract queue of QueueSpec allows, the
  real queue implements that queue, and the tasks are found in the entries the addresses stand for.
\<close>

section \<open>The pool as a user of a queue\<close>

definition abs_tp :: "tpool \<Rightarrow> nat aqueue" where
  "abs_tp s = \<lparr>aitems = queue s, anonblock = nonblocking s\<rparr>"

text \<open>What a step asks of the queue: a worker that leaves \<open>msgqueue_get\<close> for the end of the routine, and
  \<open>thrdpool_destroy\<close> that is done with draining, have been given the null pointer.\<close>

definition tp_label :: "tpool \<Rightarrow> tpool \<Rightarrow> nat label" where
  "tp_label s s' =
     (if length (scheduled s) < length (scheduled s') then Put (last (scheduled s'))
      else if length (started s) < length (started s') then Get (last (started s'))
      else if length (pended s) < length (pended s') then Get (last (pended s'))
      else if nonblocking s \<noteq> nonblocking s' then Blocking (\<not> nonblocking s')
      else if dst s = DDrain \<and> dst s' = DDone \<or> (\<exists>t. ph s t = WGet \<and> ph s' t = WExit) then Empty
      else Tau)"

definition tp_lstep :: "nat \<Rightarrow> tpool \<Rightarrow> nat label \<Rightarrow> tpool \<Rightarrow> bool" where
  "tp_lstep n s l s' \<longleftrightarrow> tp_step n s s' \<and> l = tp_label s s'"

definition flag_set :: "tpool \<Rightarrow> bool" where
  "flag_set s \<longleftrightarrow> (dst s = DIdle \<longleftrightarrow> \<not> nonblocking s)"

lemmas tp_ops = thread_begin_def thread_count_def thrdpool_schedule_def routine_test_def routine_check_def
  routine_exit_def routine_join_def terminate_begin_def terminate_join_def terminate_test_def
  terminate_wake_def

lemma routine_get_cases:
  assumes "routine_get t s = Some s'"
  obtains (some) x xs where "queue s = x # xs"
      "s' = s\<lparr>queue := xs, ph := (ph s)(t := WTask x), started := started s @ [x]\<rparr>"
    | (none) "queue s = []" "nonblocking s" "s' = s\<lparr>ph := (ph s)(t := WExit)\<rparr>"
  using assms by (auto simp: routine_get_def split: list.splits if_splits)

lemma destroy_drain_cases:
  obtains (some) x xs where "queue s = x # xs" "destroy_drain s = s\<lparr>queue := xs, pended := pended s @ [x]\<rparr>"
    | (none) "queue s = []"
      "destroy_drain s = s\<lparr>dst := DDone, freed := (if destroyer s = 0 then True else freed s)\<rparr>"
  by (cases "queue s") (auto simp: destroy_drain_def)

lemma tp_step_flag: "tp_step n s s' \<Longrightarrow> flag_set s \<Longrightarrow> flag_set s'"
proof (induction rule: tp_step.induct)
  case (w_get s t s')
  from w_get(2) show ?case by (cases rule: routine_get_cases) (use w_get in \<open>auto simp: flag_set_def\<close>)
next
  case (d_drain s)
  show ?case by (cases rule: destroy_drain_cases [of s]) (use d_drain in \<open>auto simp: flag_set_def\<close>)
qed (auto simp: flag_set_def tp_ops)

text \<open>Steps that do not touch the queue.\<close>

lemma tp_silent:
  assumes "queue s' = queue s" "nonblocking s' = nonblocking s" "scheduled s' = scheduled s"
    "started s' = started s" "pended s' = pended s" "\<not> (dst s = DDrain \<and> dst s' = DDone)"
    "\<And>t. ph s t = WGet \<Longrightarrow> ph s' t \<noteq> WExit"
  shows "aq_step (abs_tp s) (tp_label s s') (abs_tp s')"
  using assms by (auto simp: tp_label_def abs_tp_def aq_step_simps)

lemma tp_get_sim:
  assumes "routine_get t s = Some s'" "ph s t = WGet"
  shows "aq_step (abs_tp s) (tp_label s s') (abs_tp s')"
    and "queue s = x # xs \<Longrightarrow> tp_label s s' = Get x" and "queue s = [] \<Longrightarrow> tp_label s s' = Empty"
  using assms by (auto elim!: routine_get_cases simp: tp_label_def abs_tp_def aq_step_simps)

lemma tp_drain_sim:
  assumes "dst s = DDrain" "nonblocking s"
  shows "aq_step (abs_tp s) (tp_label s (destroy_drain s)) (abs_tp (destroy_drain s))"
    and "queue s = x # xs \<Longrightarrow> tp_label s (destroy_drain s) = Get x"
    and "queue s = [] \<Longrightarrow> tp_label s (destroy_drain s) = Empty"
  by (cases rule: destroy_drain_cases [of s];
      use assms in \<open>auto simp: tp_label_def abs_tp_def aq_step_simps\<close>)+

lemma tp_step_sim:
  assumes fl: "flag_set s" and st: "tp_step n s s'"
  shows "aq_step (abs_tp s) (tp_label s s') (abs_tp s')"
  using st
proof cases
  case (w_get t)
  then show ?thesis by (intro tp_get_sim(1))
next
  case d_drain
  then show ?thesis using tp_drain_sim(1) fl by (simp add: flag_set_def)
next
  case (schedule x)
  then show ?thesis by (simp add: tp_label_def abs_tp_def thrdpool_schedule_def aq_step_simps)
next
  case destroy_outside
  then show ?thesis using fl
    by (simp add: flag_set_def tp_label_def abs_tp_def terminate_begin_def aq_step_simps)
next
  case (destroy_inside t x)
  then show ?thesis using fl
    by (simp add: flag_set_def tp_label_def abs_tp_def terminate_begin_def aq_step_simps)
qed (intro tp_silent; auto simp: tp_ops split: if_splits)+

interpretation tpq: simulation "tp_lstep n" flag_set aq_step abs_tp for n
  by unfold_locales (auto simp: tp_lstep_def intro: tp_step_flag tp_step_sim)

section \<open>Both together\<close>

text \<open>
  \<open>entry m\<close> is the task in the \<open>__thrdpool_task_entry\<close> at address \<open>m\<close>, whose link word is its first
  word. \<open>thrdpool_schedule\<close> fills an entry that nobody else uses (malloc) and puts its address; whoever
  gets an address reads the task there.
\<close>

record pq =
  pool :: tpool
  msgs :: mqs
  entry :: "int \<Rightarrow> nat"

inductive pq_step :: "nat \<Rightarrow> pq \<Rightarrow> pq \<Rightarrow> bool" for n where
  fill: "m \<notin> set (pending_msgs (msgs c)) \<Longrightarrow> pq_step n c (c\<lparr>entry := (entry c)(m := x)\<rparr>)"
| queue_only: "mq_lstep (msgs c) Tau q \<Longrightarrow> pq_step n c (c\<lparr>msgs := q\<rparr>)"
| pool_only: "tp_lstep n (pool c) Tau p \<Longrightarrow> pq_step n c (c\<lparr>pool := p\<rparr>)"
| both: "mq_lstep (msgs c) l q \<Longrightarrow> l \<noteq> Tau \<Longrightarrow> tp_lstep n (pool c) (map_label (entry c) l) p \<Longrightarrow>
    pq_step n c (c\<lparr>pool := p, msgs := q\<rparr>)"

inductive pq_reach :: "nat \<Rightarrow> pq \<Rightarrow> bool" for n where
  start: "msgqueue_create True 0 0 0 0 (-1) 0 = Created q h \<Longrightarrow>
    pq_reach n \<lparr>pool = tp_start, msgs = mq_start q h, entry = e\<rparr>"
| step: "pq_reach n c \<Longrightarrow> pq_step n c d \<Longrightarrow> pq_reach n d"

definition aq_map :: "('a \<Rightarrow> 'b) \<Rightarrow> 'a aqueue \<Rightarrow> 'b aqueue" where
  "aq_map f a = \<lparr>aitems = map f (aitems a), anonblock = anonblock a\<rparr>"

lemma aq_step_map: "aq_step a l b \<Longrightarrow> aq_step (aq_map f a) (map_label f l) (aq_map f b)"
  by (induction rule: aq_step.induct) (simp_all add: aq_map_def aq_step_simps)

lemma aq_step_det: "aq_step a l b \<Longrightarrow> aq_step a l c \<Longrightarrow> b = c"
  by (cases l) (auto simp: aq_step_simps)

text \<open>The list of the pool is the content of the real queue, and the two flags agree.\<close>

definition in_step :: "pq \<Rightarrow> bool" where
  "in_step c \<longleftrightarrow> abs_tp (pool c) = aq_map (entry c) (abs_mq (msgs c))"

definition pq_inv :: "nat \<Rightarrow> pq \<Rightarrow> bool" where
  "pq_inv n c \<longleftrightarrow> in_step c \<and> flag_set (pool c) \<and> mqs_inv (msgs c) \<and> tp_reach n (pool c)"

lemma in_step_iff: "in_step c \<longleftrightarrow>
    queue (pool c) = map (entry c) (pending_msgs (msgs c)) \<and> (nonblocking (pool c) \<longleftrightarrow> nonblock (mq (msgs c)) \<noteq> 0)"
  by (simp add: in_step_def abs_tp_def abs_mq_def aq_map_def)

lemma pq_step_inv:
  assumes "pq_step n c d" "pq_inv n c"
  shows "pq_inv n d"
  using assms(1)
proof cases
  case (fill m x)
  then have "map (entry d) (pending_msgs (msgs c)) = map (entry c) (pending_msgs (msgs c))" by simp
  then show ?thesis using assms(2) fill by (simp add: pq_inv_def in_step_iff)
next
  case (queue_only q)
  then have "abs_mq q = abs_mq (msgs c)" "mqs_inv q"
    using assms(2) mqr.sim_step mqr.inv_step by (fastforce simp: pq_inv_def aq_step_simps)+
  then show ?thesis using assms(2) queue_only by (simp add: pq_inv_def in_step_def)
next
  case (pool_only p)
  then have "abs_tp p = abs_tp (pool c)" "flag_set p" "tp_reach n p"
    using assms(2) tpq.sim_step tpq.inv_step tp_reach.step
    by (fastforce simp: pq_inv_def aq_step_simps tp_lstep_def)+
  then show ?thesis using assms(2) pool_only by (simp add: pq_inv_def in_step_def)
next
  case (both l q p)
  have i: "in_step c" "mqs_inv (msgs c)" "flag_set (pool c)" "tp_reach n (pool c)"
    using assms(2) by (simp_all add: pq_inv_def)
  have "aq_step (abs_tp (pool c)) (map_label (entry c) l) (abs_tp p)"
    using tpq.sim_step [OF i(3) both(4)] .
  moreover have "aq_step (abs_tp (pool c)) (map_label (entry c) l) (aq_map (entry c) (abs_mq q))"
    using aq_step_map [OF mqr.sim_step [OF i(2) both(2)], of "entry c"] i(1) by (simp add: in_step_def)
  ultimately have "abs_tp p = aq_map (entry c) (abs_mq q)" by (rule aq_step_det)
  moreover have "mqs_inv q" "flag_set p" by (rule mqr.inv_step [OF i(2) both(2)], rule tpq.inv_step [OF i(3) both(4)])
  moreover have "tp_reach n p" using tp_reach.step i(4) both(4) by (auto simp: tp_lstep_def)
  ultimately show ?thesis using both by (simp add: pq_inv_def in_step_def)
qed

lemma pq_reach_inv: "pq_reach n c \<Longrightarrow> pq_inv n c"
proof (induction rule: pq_reach.induct)
  case (start q h e)
  have "abs_tp tp_start = aq_map e (abs_mq (mq_start q h))"
    unfolding abs_mq_start [OF start] by (simp add: abs_tp_def aq_map_def aq_new_def tp_start_def)
  then show ?case using mq_start_inv [OF start] tp_reach.start
    by (simp add: pq_inv_def in_step_def flag_set_def tp_start_def)
next
  case (step c d)
  then show ?case using pq_step_inv by blast
qed

lemma pq_reach_queue:
  assumes "pq_reach n c"
  shows "msg_max (mq (msgs c)) = - 1 \<and> linkoff (mq (msgs c)) = 0"
proof -
  have same: "msg_max (mq s') = msg_max (mq s) \<and> linkoff (mq s') = linkoff (mq s)" if "mq_lstep s l s'" for s l s'
    using mq_step_config [of s s'] that by (simp add: mq_lstep_def)
  show ?thesis using assms
  proof (induction rule: pq_reach.induct)
    case (start q h e)
    then show ?case using msgqueue_create_inv by (fastforce simp: mq_start_def)
  next
    case (step c d)
    from step(2) show ?case by cases (use same step.IH in auto)
  qed
qed

section \<open>A run\<close>

lemma pq_pool_step:
  "pq_reach n c \<Longrightarrow> tp_step n (pool c) p \<Longrightarrow> tp_label (pool c) p = Tau \<Longrightarrow> pq_reach n (c\<lparr>pool := p\<rparr>)"
  by (erule pq_reach.step, rule pq_step.pool_only) (simp add: tp_lstep_def)

lemma pq_queue_step:
  "pq_reach n c \<Longrightarrow> mq_step (msgs c) q \<Longrightarrow> mq_label (msgs c) q = Tau \<Longrightarrow> length (puts q) < 2 ^ 64 \<Longrightarrow>
   pq_reach n (c\<lparr>msgs := q\<rparr>)"
  by (erule pq_reach.step, rule pq_step.queue_only) (simp add: mq_lstep_def)

lemma pq_both_step:
  "pq_reach n c \<Longrightarrow> mq_step (msgs c) q \<Longrightarrow> mq_label (msgs c) q = l \<Longrightarrow> l \<noteq> Tau \<Longrightarrow> length (puts q) < 2 ^ 64 \<Longrightarrow>
   tp_step n (pool c) p \<Longrightarrow> tp_label (pool c) p = map_label (entry c) l \<Longrightarrow>
   pq_reach n (c\<lparr>pool := p, msgs := q\<rparr>)"
  by (erule pq_reach.step, rule pq_step.both [where l = l]) (simp_all add: mq_lstep_def tp_lstep_def)

text \<open>
  A pool of one thread; task 7 is scheduled in the entry at address 100; the worker is in
  \<open>msgqueue_get\<close> and has swapped the lists.
\<close>

definition big_q :: msgqueue where
  "big_q = demo_q\<lparr>msg_max := - 1, linkoff := 0\<rparr>"

definition run_start :: pq where
  "run_start = \<lparr>pool = (thread_count (thread_begin 1 tp_start))\<lparr>ready := True\<rparr>,
     msgs = mq_start big_q demo_heap, entry = (\<lambda>_. 0)(100 := 7)\<rparr>"

definition run_put :: pq where
  "run_put = run_start\<lparr>pool := demo_pool,
     msgs := (mq_start big_q demo_heap)\<lparr>mq := big_q\<lparr>put_tail := Link 100, msg_cnt := 1\<rparr>,
       mem := demo_heap(Link 100 \<mapsto> Null, Head2 \<mapsto> Link 100), pp := (\<lambda>_. PIdle)(0 := PSignal), puts := [100]\<rparr>\<rparr>"

definition run_get :: pq where
  "run_get = run_put\<lparr>pool := routine_test 1 demo_pool,
     msgs := (msgs run_put)\<lparr>mq := big_q\<lparr>get_head := Head2, put_head := Head1, put_tail := Head1\<rparr>,
       gp := GTake 1 1\<rparr>\<rparr>"

lemmas run_defs = demo_defs big_q_def demo_q_def demo_heap_def mq_start_def

lemma run_start_reach: "pq_reach 1 run_start"
proof -
  let ?c = "\<lparr>pool = tp_start, msgs = mq_start big_q demo_heap, entry = (\<lambda>_. 0)\<rparr>"
  have "msgqueue_create True 0 0 0 0 (-1) 0 = Created big_q demo_heap"
    by (simp add: msgqueue_create_def big_q_def demo_q_def demo_heap_def)
  then have 0: "pq_reach 1 ?c" by (rule pq_reach.start)
  have "tp_step 1 tp_start (thread_begin 1 tp_start)" by (rule create_begin) (simp_all add: tp_start_def)
  then have 1: "pq_reach 1 (?c\<lparr>pool := thread_begin 1 tp_start\<rparr>)"
    by (intro pq_pool_step [OF 0]) (auto simp: demo_defs tp_label_def)
  let ?b = "thread_count (thread_begin 1 tp_start)"
  have "tp_step 1 (thread_begin 1 tp_start) ?b" by (rule count) (simp add: thread_begin_def)
  then have 2: "pq_reach 1 (?c\<lparr>pool := ?b\<rparr>)"
    using pq_pool_step [OF 1, of ?b] by (simp add: demo_defs tp_label_def)
  have "tp_step 1 ?b (?b\<lparr>ready := True\<rparr>)" by (rule create_done) (simp_all add: demo_defs)
  then have 3: "pq_reach 1 (?c\<lparr>pool := ?b\<lparr>ready := True\<rparr>\<rparr>)"
    using pq_pool_step [OF 2, of "?b\<lparr>ready := True\<rparr>"] by (simp add: demo_defs tp_label_def)
  from pq_reach.step [OF 3 pq_step.fill [where m = 100 and x = 7]] show ?thesis
    by (simp add: run_start_def pending_msgs_def mq_start_def)
qed

lemma run_put_reach: "pq_reach 1 run_put"
proof -
  let ?q = "(mq_start big_q demo_heap)\<lparr>mem := demo_heap(Link 100 \<mapsto> Null), pp := (\<lambda>_. PIdle)(0 := PLinked 100)\<rparr>"
  have "mq_step (mq_start big_q demo_heap) ((mq_start big_q demo_heap)\<lparr>mem := demo_heap(Link 100 \<mapsto> Null),
      pp := (pp (mq_start big_q demo_heap))(0 := PLinked 100)\<rparr>)"
    by (rule mq_step.put_start) (simp_all add: run_defs pending_msgs_def put_msg_def put_link_def store_def link_of_def)
  then have "pq_reach 1 (run_start\<lparr>msgs := ?q\<rparr>)"
    using pq_queue_step [OF run_start_reach, of ?q] by (simp add: run_start_def mq_start_def mq_label_def)
  moreover have "mq_step ?q (msgs run_put)"
  proof -
    have "mq_step ?q (?q\<lparr>mq := big_q\<lparr>put_tail := Link 100, msg_cnt := 1\<rparr>,
        mem := demo_heap(Link 100 \<mapsto> Null, Head2 \<mapsto> Link 100), pp := (pp ?q)(0 := PSignal), puts := puts ?q @ [100]\<rparr>)"
      by (rule mq_step.put_do) (simp_all add: run_defs put_must_wait_def put_append_def store_def link_of_def)
    then show ?thesis by (simp add: run_put_def mq_start_def)
  qed
  moreover have "tp_step 1 (pool run_start) (thrdpool_schedule 7 (pool run_start))"
    by (rule schedule) (simp_all add: run_start_def demo_defs)
  then have "tp_step 1 (pool run_start) demo_pool" by (simp add: run_start_def demo_pool_def)
  ultimately show ?thesis
    using pq_both_step [of 1 "run_start\<lparr>msgs := ?q\<rparr>" "msgs run_put" "Put 100" demo_pool]
    by (simp add: run_put_def run_start_def mq_label_def tp_label_def mq_start_def demo_defs)
qed

lemma run_get_reach: "pq_reach 1 run_get"
proof -
  have "tp_step 1 demo_pool (routine_test 1 demo_pool)" by (rule w_test) (simp add: demo_defs)
  then have 1: "pq_reach 1 (run_put\<lparr>pool := routine_test 1 demo_pool\<rparr>)" (is "pq_reach 1 ?c")
    by (intro pq_pool_step [OF run_put_reach]) (auto simp: run_put_def demo_defs tp_label_def)
  let ?q1 = "(msgs run_put)\<lparr>gp := GLocked 1\<rparr>"
  have "mq_step (msgs run_put) ?q1" by (rule mq_step.get_lock) (simp add: run_put_def mq_start_def)
  then have 2: "pq_reach 1 (?c\<lparr>msgs := ?q1\<rparr>)"
    using pq_queue_step [OF 1, of ?q1] by (simp add: run_put_def mq_start_def mq_label_def)
  let ?q2 = "?q1\<lparr>mq := big_q\<lparr>put_tail := Link 100, msg_cnt := 1, get_head := Head2\<rparr>, gp := GSwap 1 Head1\<rparr>"
  have "mq_step ?q1 ?q2"
    by (rule mq_step.get_swap) (simp_all add: run_put_def run_defs load_def swap_begin_def)
  then have 3: "pq_reach 1 (?c\<lparr>msgs := ?q2\<rparr>)"
    using pq_queue_step [OF 2, of ?q2] by (simp add: run_put_def run_defs mq_label_def)
  have "mq_step ?q2 (?q2\<lparr>mq := mq (msgs run_get), gp := GTake 1 1, pp := (if False then wake_put \<circ> pp ?q2 else pp ?q2)\<rparr>)"
    by (rule mq_step.swap_do [where old = Head1])
      (simp_all add: run_put_def run_get_def run_defs swap_must_wait_def swap_end_def)
  then have "mq_step ?q2 (msgs run_get)" by (simp add: run_get_def run_put_def run_defs)
  then show ?thesis
    using pq_queue_step [OF 3, of "msgs run_get"]
    by (simp add: run_get_def run_put_def run_defs mq_label_def)
qed

lemma run_get_take: "\<exists>q. mq_lstep (msgs run_get) (Get 100) q"
proof -
  let ?s = "msgs run_get"
  have "mq_step ?s (?s\<lparr>mem := (mem ?s)(Head2 \<mapsto> Null), gp := GFree, gets := gets ?s @ [100]\<rparr>)"
    by (rule mq_step.take_some [where t = 1 and cnt = 1])
      (simp_all add: run_get_def run_put_def run_defs get_take_def load_def store_def)
  then show ?thesis
    by (intro exI [of _ "?s\<lparr>mem := (mem ?s)(Head2 \<mapsto> Null), gp := GFree, gets := gets ?s @ [100]\<rparr>"])
      (simp add: mq_lstep_def mq_label_def run_get_def run_put_def mq_start_def)
qed

section \<open>Properties\<close>

text \<open>C10: Pool and queue together: the tasks started, the tasks handed back and the tasks in the entries
  that the real queue links are, in this order, the tasks scheduled; when thrdpool_destroy returns
  the real queue is empty, so that msgqueue_destroy frees a queue without messages.\<close>
theorem pool_queue_tasks:
  assumes "pq_reach n c" "0 < n" "length (created (pool c)) < 2 ^ 64"
  shows "scheduled (pool c) = started (pool c) @ pended (pool c) @ map (entry c) (pending_msgs (msgs c)) \<and>
    (dst (pool c) = DDone \<longrightarrow> pending_msgs (msgs c) = [])"
proof -
  have i: "queue (pool c) = map (entry c) (pending_msgs (msgs c))" "tp_reach n (pool c)"
    using pq_reach_inv [OF assms(1)] by (simp_all add: pq_inv_def in_step_iff)
  from reach_all_ok [OF i(2) assms(2,3)] show ?thesis by (simp add: tasks_ok_def i(1))
qed

lemma pool_queue_tasks_witness: "[7] = map (entry run_put) (pending_msgs (msgs run_put))"
  using pool_queue_tasks [OF run_put_reach] by (simp add: run_put_def demo_defs)

lemma worker_takes:
  assumes "pq_reach n c" "ph (pool c) t = WGet" "mq_lstep (msgs c) l q" "l = Empty \<or> (\<exists>m. l = Get m)"
  shows "\<exists>p. routine_get t (pool c) = Some p \<and> pq_step n c (c\<lparr>pool := p, msgs := q\<rparr>) \<and>
    ph p t = (case l of Get m \<Rightarrow> WTask (entry c m) | _ \<Rightarrow> WExit)"
proof -
  have i: "in_step c" "mqs_inv (msgs c)" using pq_reach_inv [OF assms(1)] by (simp_all add: pq_inv_def)
  note a = mqr.sim_step [OF i(2) assms(3)]
  obtain p where p: "routine_get t (pool c) = Some p" "tp_label (pool c) p = map_label (entry c) l"
    "ph p t = (case l of Get m \<Rightarrow> WTask (entry c m) | _ \<Rightarrow> WExit)"
  proof (cases l)
    case (Get m)
    then obtain ms where "pending_msgs (msgs c) = m # ms" using a by (auto simp: aq_step_simps abs_mq_def)
    then have q: "queue (pool c) = entry c m # map (entry c) ms" using i(1) by (simp add: in_step_iff)
    then have "routine_get t (pool c) = Some ((pool c)\<lparr>queue := map (entry c) ms,
        ph := (ph (pool c))(t := WTask (entry c m)), started := started (pool c) @ [entry c m]\<rparr>)"
      by (simp add: routine_get_def)
    with tp_get_sim(2) [OF this assms(2) q] that Get show ?thesis by simp
  next
    case Empty
    then have q: "queue (pool c) = []" "nonblocking (pool c)"
      using a i(1) by (auto simp: aq_step_simps abs_mq_def in_step_iff)
    then have "routine_get t (pool c) = Some ((pool c)\<lparr>ph := (ph (pool c))(t := WExit)\<rparr>)"
      by (simp add: routine_get_def)
    with tp_get_sim(3) [OF this assms(2) q(1)] that Empty show ?thesis by simp
  qed (use assms(4) in auto)
  have "l \<noteq> Tau" using assms(4) by auto
  moreover have "tp_lstep n (pool c) (map_label (entry c) l) p"
    using w_get [OF assms(2) p(1)] p(2) by (simp add: tp_lstep_def)
  ultimately have "pq_step n c (c\<lparr>pool := p, msgs := q\<rparr>)" by (rule pq_step.both [OF assms(3)])
  with p show ?thesis by blast
qed

text \<open>C11: Whatever the real queue answers to a worker of the pool, a message or the null pointer, the
  worker goes on with exactly that: it starts the task in the entry at that address, or leaves.\<close>
theorem pool_takes_answer:
  assumes "pq_reach n c" "ph (pool c) t = WGet" "mq_lstep (msgs c) l q" "l = Empty \<or> (\<exists>m. l = Get m)"
  shows "\<exists>p. routine_get t (pool c) = Some p \<and> pq_step n c (c\<lparr>pool := p, msgs := q\<rparr>) \<and>
    ph p t = (case l of Get m \<Rightarrow> WTask (entry c m) | _ \<Rightarrow> WExit)"
  by (rule worker_takes [OF assms])

lemma pool_takes_answer_witness:
  "\<exists>p q. pq_step 1 run_get (run_get\<lparr>pool := p, msgs := q\<rparr>) \<and> ph p 1 = WTask 7"
proof -
  obtain q where "mq_lstep (msgs run_get) (Get 100) q" using run_get_take by blast
  moreover have "ph (pool run_get) 1 = WGet" "entry run_get 100 = 7"
    by (simp_all add: run_get_def run_put_def run_start_def demo_defs)
  ultimately show ?thesis using pool_takes_answer [OF run_get_reach, of 1 "Get 100" q] by auto
qed

text \<open>The same for the loop of \<open>thrdpool_destroy\<close> that hands back the tasks left.\<close>
theorem drain_takes_answer:
  assumes "pq_reach n c" "dst (pool c) = DDrain" "mq_lstep (msgs c) l q" "l = Empty \<or> (\<exists>m. l = Get m)"
  shows "pq_step n c (c\<lparr>pool := destroy_drain (pool c), msgs := q\<rparr>)"
proof -
  have i: "in_step c" "mqs_inv (msgs c)" "flag_set (pool c)"
    using pq_reach_inv [OF assms(1)] by (simp_all add: pq_inv_def)
  note a = mqr.sim_step [OF i(2) assms(3)]
  have nb: "nonblocking (pool c)" using i(3) assms(2) by (simp add: flag_set_def)
  have "tp_label (pool c) (destroy_drain (pool c)) = map_label (entry c) l"
  proof (cases l)
    case (Get m)
    then obtain ms where "pending_msgs (msgs c) = m # ms" using a by (auto simp: aq_step_simps abs_mq_def)
    then have "queue (pool c) = entry c m # map (entry c) ms" using i(1) by (simp add: in_step_iff)
    from tp_drain_sim(2) [OF assms(2) nb this] Get show ?thesis by simp
  next
    case Empty
    then have "queue (pool c) = []" using a i(1) by (auto simp: aq_step_simps abs_mq_def in_step_iff)
    from tp_drain_sim(3) [OF assms(2) nb this] Empty show ?thesis by simp
  qed (use assms(4) in auto)
  then have "tp_lstep n (pool c) (map_label (entry c) l) (destroy_drain (pool c))"
    using d_drain [OF assms(2)] by (simp add: tp_lstep_def)
  moreover have "l \<noteq> Tau" using assms(4) by auto
  ultimately show ?thesis using pq_step.both [OF assms(3)] by blast
qed

text \<open>thrdpool_schedule never waits: the pool creates its queue with the largest size_t as
  \<open>maxlen\<close>, and a putter would have to wait only with that many messages in the queue.\<close>
theorem schedule_never_waits:
  assumes "pq_reach n c" "length (puts (msgs c)) < 2 ^ 64 - 1"
  shows "\<not> put_must_wait (mq (msgs c))"
proof -
  have i: "mqs_inv (msgs c)" using pq_reach_inv [OF assms(1)] by (simp add: pq_inv_def)
  then obtain G P where l: "lists_ok (msgs c) G P" by (auto simp: mqs_inv_def)
  then have "unat (msg_cnt (mq (msgs c))) = length P" "length P \<le> length (puts (msgs c))"
    by (simp_all add: lists_ok_def mq_inv_def)
  then have "unat (msg_cnt (mq (msgs c))) < 2 ^ 64 - 1" using assms(2) by linarith
  moreover have "unat (- 2 :: size_t) = 2 ^ 64 - 2" by simp
  ultimately show ?thesis using pq_reach_queue [OF assms(1)]
    by (simp add: put_must_wait_def less64_iff)
qed

lemma schedule_never_waits_witness: "\<not> put_must_wait (mq (msgs run_put))"
  using schedule_never_waits [OF run_put_reach] by (simp add: run_put_def)

end
