(* ===== verification/PoolLive.thy ===== *)
theory PoolLive
  imports PoolQueue
begin

text \<open>
  \<open>thrdpool_destroy\<close> ends on the real queue. Thrdpool shows it for a pool whose queue is a list that
  answers at once; here the answers come from the queue of msgqueue.c, in which a worker may be waiting
  for a signal, holding \<open>get_mutex\<close> while others want it. Whenever the pool needs an answer the queue can
  go on towards it, and what the queue does in between is bounded.
\<close>

section \<open>The work left in the queue\<close>

text \<open>How far the holder of \<open>get_mutex\<close> is from its answer in nonblocking mode, and each putter from the end of
  its call.\<close>

fun get_rank :: "get_phase \<Rightarrow> nat" where
  "get_rank GFree = 4"
| "get_rank (GLocked t) = 3"
| "get_rank (GSwap t old) = 2"
| "get_rank (GWaiting t old) = 3"
| "get_rank (GTake t cnt) = (if cnt = 0 then 5 else 1)"

fun put_rank :: "put_phase \<Rightarrow> nat" where
  "put_rank PIdle = 0"
| "put_rank PSignal = 1"
| "put_rank (PLinked m) = 1"
| "put_rank (PWaiting m) = 2"

definition puts_work :: "(nat \<Rightarrow> put_phase) \<Rightarrow> nat" where
  "puts_work p = (\<Sum>t | p t \<noteq> PIdle. put_rank (p t))"

definition queue_work :: "mqs \<Rightarrow> nat" where
  "queue_work s = get_rank (gp s) + (if nbcall s then 1 else 0) + puts_work (pp s)"

text \<open>What holds besides \<open>mqs_inv\<close>: the flag is 0 or 1, and finitely many threads are in \<open>msgqueue_put\<close>.\<close>

definition calls_ok :: "mqs \<Rightarrow> bool" where
  "calls_ok s \<longleftrightarrow> (nonblock (mq s) = 0 \<or> nonblock (mq s) = 1) \<and> finite {t. pp s t \<noteq> PIdle} \<and>
     length (puts s) < 2 ^ 64"

lemma put_rank_idle [simp]: "put_rank p = 0 \<longleftrightarrow> p = PIdle"
  by (cases p) simp_all

lemma wake_put_idle [simp]: "wake_put p = PIdle \<longleftrightarrow> p = PIdle"
  by (cases p) (simp_all add: wake_put_def)

lemma wake_put_rank: "put_rank (wake_put p) \<le> put_rank p"
  by (cases p) (simp_all add: wake_put_def)

lemma wake_get_rank: "get_rank (wake_get g) \<le> get_rank g"
  by (cases g) (simp_all add: wake_get_def)

lemma puts_work_mono:
  assumes fin: "finite {t. p t \<noteq> PIdle}" and le: "\<forall>t. put_rank (q t) \<le> put_rank (p t)"
  shows "puts_work q \<le> puts_work p" and "put_rank (q u) < put_rank (p u) \<Longrightarrow> puts_work q < puts_work p"
proof -
  have sup: "q t = PIdle" if "p t = PIdle" for t
  proof -
    have "put_rank (q t) \<le> 0" using le that by (metis put_rank.simps(1))
    then show ?thesis by simp
  qed
  then have "{t. q t \<noteq> PIdle} \<subseteq> {t. p t \<noteq> PIdle}" by blast
  then have q: "puts_work q = (\<Sum>t | p t \<noteq> PIdle. put_rank (q t))"
    unfolding puts_work_def by (intro sum.mono_neutral_left fin) auto
  show "puts_work q \<le> puts_work p" unfolding q unfolding puts_work_def using le by (intro sum_mono) blast
  assume u: "put_rank (q u) < put_rank (p u)"
  then have "p u \<noteq> PIdle" by auto
  then show "puts_work q < puts_work p" unfolding q unfolding puts_work_def
    using le u by (intro sum_strict_mono_ex1 fin) auto
qed

lemma puts_work_upd:
  assumes "finite {t. p t \<noteq> PIdle}" "put_rank x < put_rank (p t)"
  shows "puts_work (p(t := x)) < puts_work p"
  using puts_work_mono(2) [OF assms(1), of "p(t := x)" t] assms(2) by simp

lemma puts_work_wake:
  assumes "finite {t. p t \<noteq> PIdle}"
  shows "puts_work (wake_put \<circ> p) \<le> puts_work p"
  using puts_work_mono(1) [OF assms, of "wake_put \<circ> p"] wake_put_rank by simp

lemma calls_ok_step:
  assumes "mq_lstep s l s'" "calls_ok s"
  shows "calls_ok s'"
proof -
  have st: "mq_step s s'" and n: "length (puts s') < 2 ^ 64" using assms(1) by (simp_all add: mq_lstep_def)
  from st have "nonblock (mq s') = 0 \<or> nonblock (mq s') = 1"
    using assms(2)
    by cases (auto simp: calls_ok_def put_append_def swap_begin_def swap_end_def set_nonblock_flag_def
        msgqueue_set_block_def res_bind_Inr)
  moreover have "\<exists>A. finite A \<and> {t. pp s' t \<noteq> PIdle} \<subseteq> A \<union> {t. pp s t \<noteq> PIdle}"
    using st
  proof cases
    case (put_start t m h)
    then show ?thesis by (intro exI [of _ "{t}"]) auto
  next
    case (put_do t m q h)
    then show ?thesis by (intro exI [of _ "{t}"]) auto
  qed (intro exI [of _ "{}"]; auto split: if_splits)+
  then have "finite {t. pp s' t \<noteq> PIdle}"
    using assms(2) unfolding calls_ok_def by (meson finite_Un finite_subset)
  ultimately show ?thesis using n by (simp add: calls_ok_def)
qed

section \<open>The queue goes on\<close>

text \<open>A step of the queue that begins no call: no thread enters \<open>msgqueue_put\<close> or \<open>msgqueue_set_nonblock\<close>.\<close>

definition no_call :: "mqs \<Rightarrow> mqs \<Rightarrow> bool" where
  "no_call s s' \<longleftrightarrow> (\<forall>t. pp s t = PIdle \<longrightarrow> pp s' t = PIdle) \<and> (nbcall s' \<longrightarrow> nbcall s)"

text \<open>Such a step that gives no answer leaves the queue less to do.\<close>

lemma queue_step_work:
  assumes st: "mq_step s s'" and tau: "mq_label s s' = Tau" and inv: "mqs_inv s" and ok: "calls_ok s"
    and nb: "nonblock (mq s) \<noteq> 0" and nc: "no_call s s'" and ne: "s' \<noteq> s"
  shows "queue_work s' < queue_work s"
proof -
  have fin: "finite {t. pp s t \<noteq> PIdle}" and one: "nonblock (mq s) = 1"
    using ok nb by (simp_all add: calls_ok_def)
  have used: "nb_used s" using inv nb by (auto simp: mqs_inv_def bounds_ok_def)
  from st show ?thesis
  proof cases
    case (put_start t m h)
    then show ?thesis using nc by (auto simp: no_call_def dest!: spec [of _ t])
  next
    case (put_wait t m)
    then show ?thesis using nb by (simp add: put_must_wait_def)
  next
    case (put_do t m q h)
    then show ?thesis using tau by (simp add: mq_label_def)
  next
    case (put_spurious t m)
    then show ?thesis using puts_work_upd [OF fin, of "PLinked m" t] by (simp add: queue_work_def)
  next
    case (put_signal t)
    then show ?thesis using puts_work_upd [OF fin, of PIdle t] wake_get_rank [of "gp s"]
      by (simp add: queue_work_def)
  next
    case (get_fast t a m h)
    then show ?thesis using tau by (simp add: mq_label_def)
  next
    case (swap_wait t old)
    then show ?thesis using nb by (simp add: swap_must_wait_def)
  next
    case (swap_do t old q cnt broadcast)
    have "cnt \<noteq> 0" using swap_do tau by (auto simp: mq_label_def swap_end_def)
    then show ?thesis using swap_do puts_work_wake [OF fin] by (auto simp: queue_work_def)
  next
    case (take_some t cnt m h)
    then show ?thesis using tau by (simp add: mq_label_def)
  next
    case nonblock_flag
    then have "nbcall s" using nc by (simp add: no_call_def)
    then have "s' = s" using nonblock_flag used one by (cases s; cases "mq s") (simp add: set_nonblock_flag_def)
    with ne show ?thesis by simp
  next
    case nonblock_signal
    then show ?thesis using puts_work_wake [OF fin] wake_get_rank [of "gp s"] by (simp add: queue_work_def)
  next
    case block_flag
    then show ?thesis using tau nb by (simp add: mq_label_def msgqueue_set_block_def)
  qed (auto simp: queue_work_def)
qed

text \<open>In nonblocking mode the queue is never stuck: it takes such a step, or it gives an answer.\<close>

definition answers_next :: "mqs \<Rightarrow> bool" where
  "answers_next s \<longleftrightarrow> (\<exists>l s'. mq_lstep s l s' \<and> no_call s s' \<and> s' \<noteq> s \<and> (l = Tau \<or> l = Empty \<or> (\<exists>m. l = Get m)))"

lemma answers_nextI:
  assumes "mq_step s s'" "length (puts s) < 2 ^ 64" "puts s' = puts s" "no_call s s'" "s' \<noteq> s"
    "nonblock (mq s') = nonblock (mq s)"
  shows "answers_next s"
proof -
  have "mq_label s s' = Tau \<or> mq_label s s' = Empty \<or> (\<exists>m. mq_label s s' = Get m)"
    using assms(3,6) by (simp add: mq_label_def split: get_phase.splits)
  then show ?thesis unfolding answers_next_def using assms
    by (intro exI [of _ "mq_label s s'"] exI [of _ s']) (simp add: mq_lstep_def)
qed

lemma queue_can_move:
  assumes inv: "mqs_inv s" and ok: "calls_ok s" and nb: "nonblock (mq s) \<noteq> 0"
  shows "answers_next s"
proof -
  have n: "length (puts s) < 2 ^ 64" using ok by (simp add: calls_ok_def)
  note nf = mqs_no_fault [OF inv]
  show ?thesis
  proof (cases "gp s")
    case GFree
    from get_lock [OF this, of 0] show ?thesis
      by (rule answers_nextI [OF _ n]) (use GFree in \<open>auto simp: no_call_def dest: arg_cong [of _ _ gp]\<close>)
  next
    case (GLocked t)
    then obtain a where a: "load (mem s) (get_head (mq s)) = Inr a"
      "a \<noteq> Null \<longrightarrow> (\<exists>x. get_take (mq s) (mem s) = Inr x)" using nf by blast
    show ?thesis
    proof (cases "a = Null")
      case True
      obtain q old where q: "swap_begin (mq s) = (q, old)" by fastforce
      from get_swap [OF GLocked a(1) [unfolded True] q] show ?thesis
        by (rule answers_nextI [OF _ n])
          (use q GLocked in \<open>auto simp: no_call_def swap_begin_def dest: arg_cong [of _ _ gp]\<close>)
    next
      case False
      then obtain m h where "get_take (mq s) (mem s) = Inr (m, h)" using a(2) by auto
      from get_fast [OF GLocked a(1) False this] show ?thesis
        by (rule answers_nextI [OF _ n]) (auto simp: no_call_def dest: arg_cong [of _ _ gets])
    qed
  next
    case (GSwap t old)
    have go: "\<not> swap_must_wait (mq s)" using nb by (simp add: swap_must_wait_def)
    obtain q cnt broadcast where q: "swap_end old (mq s) = (q, cnt, broadcast)" by (metis prod_cases3)
    from swap_do [OF GSwap go q] show ?thesis
      by (rule answers_nextI [OF _ n])
        (use q GSwap in \<open>auto simp: no_call_def swap_end_def dest: arg_cong [of _ _ gp]\<close>)
  next
    case (GWaiting t old)
    then have c: "nbcall s" using inv nb by (auto simp: mqs_inv_def wakeups_ok_def)
    from nonblock_signal [OF this] show ?thesis
      by (rule answers_nextI [OF _ n]) (use c in \<open>auto simp: no_call_def dest: arg_cong [of _ _ nbcall]\<close>)
  next
    case (GTake t cnt)
    show ?thesis
    proof (cases "cnt = 0")
      case True
      from take_none [OF GTake [unfolded True]] show ?thesis
        by (rule answers_nextI [OF _ n]) (use GTake in \<open>auto simp: no_call_def dest: arg_cong [of _ _ gp]\<close>)
    next
      case False
      then have c: "0 < cnt" by (simp add: word_gt_0)
      then obtain m h where "get_take (mq s) (mem s) = Inr (m, h)" using nf GTake by fastforce
      from take_some [OF GTake c this] show ?thesis
        by (rule answers_nextI [OF _ n]) (auto simp: no_call_def dest: arg_cong [of _ _ gets])
    qed
  qed
qed

section \<open>Pool and queue\<close>

text \<open>A step of the threads that are there: any step but the beginning of a new call and a spurious wake-up of
  the thread in \<open>pthread_cond_wait\<close> of \<open>__thrdpool_terminate\<close>. Filling an entry and linking it belong to
  \<open>thrdpool_schedule\<close>.\<close>

definition pq_move :: "nat \<Rightarrow> pq \<Rightarrow> pq \<Rightarrow> bool" where
  "pq_move n c d \<longleftrightarrow> pq_step n c d \<and> d \<noteq> c \<and> entry d = entry c \<and> scheduled (pool d) = scheduled (pool c) \<and>
     no_call (msgs c) (msgs d) \<and> \<not> spurious (pool c) (pool d)"

lemma pq_calls_ok: "pq_reach n c \<Longrightarrow> calls_ok (msgs c)"
proof (induction rule: pq_reach.induct)
  case (start q h e)
  then have "nonblock q = 0" using msgqueue_create_inv by blast
  then show ?case by (simp add: calls_ok_def mq_start_def)
next
  case (step c d)
  from step.hyps(2) show ?case by cases (use calls_ok_step step.IH in auto)
qed

text \<open>After the call of \<open>thrdpool_destroy\<close> the pool waits for the queue only in \<open>msgqueue_get\<close>.\<close>

lemma tp_label_asks:
  assumes "tp_step n s s'" "scheduled s' = scheduled s" "dst s \<noteq> DIdle"
  shows "tp_label s s' = Tau \<or> (\<exists>t. ph s t = WGet) \<or> dst s = DDrain"
  using assms(1)
proof cases
  case (w_get t)
  then show ?thesis by blast
qed (use assms(2,3) in \<open>auto simp: tp_label_def tp_ops split: if_splits\<close>)

lemma pool_answered:
  assumes c: "pq_reach n c" and q: "mq_lstep (msgs c) l q" "l = Empty \<or> (\<exists>m. l = Get m)" "no_call (msgs c) q" "q \<noteq> msgs c"
    and asks: "(\<exists>t. ph (pool c) t = WGet) \<or> dst (pool c) = DDrain"
  shows "\<exists>d. pq_move n c d"
  using asks
proof
  assume "\<exists>t. ph (pool c) t = WGet"
  then obtain t where t: "ph (pool c) t = WGet" ..
  from worker_takes [OF c t q(1,2)] obtain p where
    p: "routine_get t (pool c) = Some p" "pq_step n c (c\<lparr>pool := p, msgs := q\<rparr>)" by blast
  have "scheduled p = scheduled (pool c) \<and> \<not> spurious (pool c) p"
    using p(1) t by (cases rule: routine_get_cases) (auto simp: spurious_def terminate_wake_def dest: arg_cong [of _ _ "\<lambda>s. ph s t"])
  then show ?thesis using p(2) q(3,4)
    by (intro exI [of _ "c\<lparr>pool := p, msgs := q\<rparr>"]) (auto simp: pq_move_def dest: arg_cong [of _ _ msgs])
next
  assume d: "dst (pool c) = DDrain"
  have "scheduled (destroy_drain (pool c)) = scheduled (pool c) \<and> \<not> spurious (pool c) (destroy_drain (pool c))"
    using d by (cases rule: destroy_drain_cases [of "pool c"]) (simp_all add: spurious_def)
  then show ?thesis using drain_takes_answer [OF c d q(1,2)] q(3,4)
    by (intro exI [of _ "c\<lparr>pool := destroy_drain (pool c), msgs := q\<rparr>"])
      (auto simp: pq_move_def dest: arg_cong [of _ _ msgs])
qed

text \<open>C12: thrdpool_destroy of a pool created with at least one thread comes to an end on the real queue, with
  both of its condition variables: the thread that sleeps on terminate sleeps only while a worker that
  will signal it is still to leave; until the pool is freed some thread of the pool or in the queue can
  take a step that neither begins a new call nor is a spurious wake-up on terminate; and every such step
  leaves the pool less to do, or leaves it as it is and the queue less to do.\<close>

theorem pool_queue_destroy_ends:
  assumes "pq_reach n c" "0 < n" "length (created (pool c)) < 2 ^ 64" "dst (pool c) \<noteq> DIdle"
  shows "(dst (pool c) = DSleep \<longrightarrow> nthreads (pool c) \<noteq> 0 \<and> (\<exists>t. live_phase (ph (pool c) t) \<and> t \<noteq> destroyer (pool c))) \<and>
    (\<not> freed (pool c) \<longrightarrow> (\<exists>d. pq_move n c d)) \<and>
    (\<forall>d. pq_move n c d \<longrightarrow> work (pool d) < work (pool c) \<or>
       pool d = pool c \<and> queue_work (msgs d) < queue_work (msgs c))"
proof -
  have i: "in_step c" "flag_set (pool c)" "mqs_inv (msgs c)" "tp_reach n (pool c)"
    using pq_reach_inv [OF assms(1)] by (simp_all add: pq_inv_def)
  have ok: "calls_ok (msgs c)" using pq_calls_ok [OF assms(1)] .
  have nb: "nonblock (mq (msgs c)) \<noteq> 0" using i(1,2) assms(4) by (simp add: in_step_iff flag_set_def)
  obtain m where p: "pool_ok n (pool c)" "chain_ok m (pool c)"
    using reach_all_ok [OF i(4) assms(2,3)] by blast
  note less = step_work [OF _ p(1) assms(4)]
  have "\<exists>d. pq_move n c d" if live: "\<not> freed (pool c)"
  proof -
    from destroy_can_move [OF p assms(4) live] obtain s' where s': "tp_move n (pool c) s'" ..
    then have s'': "tp_step n (pool c) s'" "scheduled s' = scheduled (pool c)" "work s' < work (pool c)"
        "\<not> spurious (pool c) s'"
      using less by (simp_all add: tp_move_def)
    show ?thesis
    proof (cases "tp_label (pool c) s' = Tau")
      case True
      then have "pq_step n c (c\<lparr>pool := s'\<rparr>)" using s''(1) by (intro pool_only) (simp add: tp_lstep_def)
      then show ?thesis using s''(2,3,4)
        by (intro exI [of _ "c\<lparr>pool := s'\<rparr>"]) (auto simp: pq_move_def no_call_def dest: arg_cong [of _ _ pool])
    next
      case False
      then have asks: "(\<exists>t. ph (pool c) t = WGet) \<or> dst (pool c) = DDrain"
        using tp_label_asks [OF s''(1,2) assms(4)] by blast
      from queue_can_move [OF i(3) ok nb] obtain l q where
        q: "mq_lstep (msgs c) l q" "no_call (msgs c) q" "q \<noteq> msgs c" "l = Tau \<or> l = Empty \<or> (\<exists>m. l = Get m)"
        unfolding answers_next_def by blast
      show ?thesis
      proof (cases "l = Tau")
        case True
        then have "pq_step n c (c\<lparr>msgs := q\<rparr>)" using q(1) by (intro queue_only) simp
        then show ?thesis using q(2,3)
          by (intro exI [of _ "c\<lparr>msgs := q\<rparr>"]) (auto simp: pq_move_def dest: arg_cong [of _ _ msgs])
      next
        case False
        then show ?thesis using pool_answered [OF assms(1) q(1) _ q(2,3) asks] q(4) by blast
      qed
    qed
  qed
  moreover have "work (pool d) < work (pool c) \<or> pool d = pool c \<and> queue_work (msgs d) < queue_work (msgs c)"
    if mv: "pq_move n c d" for d
  proof -
    have d: "d \<noteq> c" "entry d = entry c" "scheduled (pool d) = scheduled (pool c)" "no_call (msgs c) (msgs d)"
      "\<not> spurious (pool c) (pool d)"
      using mv by (simp_all add: pq_move_def)
    from mv have "pq_step n c d" by (simp add: pq_move_def)
    then show ?thesis
    proof cases
      case (fill k x)
      then show ?thesis using d(1,2) by simp
    next
      case (queue_only q)
      then have "mq_step (msgs c) q" "mq_label (msgs c) q = Tau" "q \<noteq> msgs c" "no_call (msgs c) q"
        using d(1,4) by (auto simp: mq_lstep_def)
      from queue_step_work [OF this(1,2) i(3) ok nb this(4,3)] queue_only show ?thesis by simp
    next
      case (pool_only q)
      then show ?thesis using less [of q] d(3,5) by (simp add: tp_move_def tp_lstep_def)
    next
      case (both l q r)
      then show ?thesis using less [of r] d(3,5) by (simp add: tp_move_def tp_lstep_def)
    qed
  qed
  moreover have "dst (pool c) = DSleep \<longrightarrow>
      nthreads (pool c) \<noteq> 0 \<and> (\<exists>t. live_phase (ph (pool c) t) \<and> t \<noteq> destroyer (pool c))"
    using flags_okD(11) [OF pool_okD(2) [OF p(1)]] sleep_worker [OF p(1)] by (auto simp: live_def)
  ultimately show ?thesis by blast
qed

text \<open>The pool is destroyed from outside while its worker is in \<open>msgqueue_get\<close>, with the lists already
  swapped; the destroying thread goes to sleep.\<close>

definition run_stop :: pq where
  "run_stop = run_get\<lparr>pool := terminate_begin 0 (pool run_get),
     msgs := (msgs run_get)\<lparr>mq := set_nonblock_flag (mq (msgs run_get)), nbcall := True, nb_used := True\<rparr>\<rparr>"

definition run_sleep :: pq where
  "run_sleep = run_stop\<lparr>pool := terminate_test (pool run_stop)\<rparr>"

lemma run_sleep_reach: "pq_reach 1 run_sleep"
proof -
  let ?q = "(msgs run_get)\<lparr>mq := set_nonblock_flag (mq (msgs run_get)), nbcall := True, nb_used := True\<rparr>"
  have "mq_step (msgs run_get) ?q" by (rule mq_step.nonblock_flag)
  moreover have "mq_label (msgs run_get) ?q = Blocking False"
    by (simp add: mq_label_def run_get_def run_put_def run_defs set_nonblock_flag_def)
  moreover have "tp_step 1 (pool run_get) (terminate_begin 0 (pool run_get))"
    by (rule destroy_outside) (simp_all add: run_get_def run_put_def demo_defs)
  moreover have "tp_label (pool run_get) (terminate_begin 0 (pool run_get)) = map_label (entry run_get) (Blocking False)"
    by (simp add: tp_label_def run_get_def run_put_def demo_defs)
  ultimately have 1: "pq_reach 1 run_stop"
    using pq_both_step [OF run_get_reach, of ?q "Blocking False" "terminate_begin 0 (pool run_get)"]
    by (simp add: run_stop_def run_get_def run_put_def mq_start_def)
  have "tp_step 1 (pool run_stop) (terminate_test (pool run_stop))"
    by (rule d_wait) (simp add: run_stop_def terminate_begin_def)
  then show ?thesis unfolding run_sleep_def
    by (rule pq_pool_step [OF 1]) (simp add: tp_label_def run_stop_def run_get_def demo_defs)
qed

theorem pool_queue_destroy_ends_witness:
  "dst (pool run_sleep) = DSleep \<and> (\<exists>d. pq_move 1 run_sleep d \<and> (work (pool d) < work (pool run_sleep) \<or>
     pool d = pool run_sleep \<and> queue_work (msgs d) < queue_work (msgs run_sleep)))"
proof -
  have "created (pool run_sleep) = [1]" "dst (pool run_sleep) = DSleep" "\<not> freed (pool run_sleep)"
    by (simp_all add: run_sleep_def run_stop_def run_get_def demo_defs)
  with pool_queue_destroy_ends [OF run_sleep_reach] show ?thesis by auto
qed

end
