(* ===== verification/TsList.thy ===== *)
theory TsList
  imports Prelude
begin

text \<open>
  The list of threadsafe_list.hpp: nodes with a mutex each, locked hand over hand. Nodes live on an
  explicit heap; the sentinel \<open>head\<close> has address 0. First the operations of one thread, with the lists
  they compute; then any number of threads in \<open>push_front\<close>, \<open>find_first_if\<close> and \<open>remove_if\<close> as a step
  relation whose steps end where a mutex is taken or given back. \<open>for_each\<close> and the destructor do not
  compile once they are instantiated (\<open>next\<close> is no function, \<open>std::remove_if\<close> takes a range), so there is
  nothing to model.
\<close>

section \<open>Nodes\<close>

record 'a node =
  ndata :: "'a option"
  nnext :: "nat option"

type_synonym 'a nheap = "nat \<Rightarrow> 'a node option"

definition node_at :: "'a nheap \<Rightarrow> nat \<Rightarrow> 'a node res" where
  "node_at h p = (case h p of None \<Rightarrow> Inl NullDeref | Some n \<Rightarrow> Inr n)"

definition data_at :: "'a nheap \<Rightarrow> nat \<Rightarrow> 'a res" where
  "data_at h p = res_bind (node_at h p) (\<lambda>n. case ndata n of None \<Rightarrow> Inl NullDeref | Some v \<Rightarrow> Inr v)"

definition next_of :: "'a nheap \<Rightarrow> nat \<Rightarrow> nat option res" where
  "next_of h p = res_bind (node_at h p) (\<lambda>n. Inr (nnext n))"

definition set_next :: "nat \<Rightarrow> nat option \<Rightarrow> 'a nheap \<Rightarrow> 'a nheap res" where
  "set_next p q h = res_bind (node_at h p) (\<lambda>n. Inr (h(p \<mapsto> n\<lparr>nnext := q\<rparr>)))"

text \<open>The list as constructed: the sentinel alone.\<close>

definition threadsafe_list :: "'a nheap" where
  "threadsafe_list = (\<lambda>_. None)(0 \<mapsto> \<lparr>ndata = None, nnext = None\<rparr>)"

section \<open>Operations of one thread\<close>

definition new_node :: "nat \<Rightarrow> 'a \<Rightarrow> 'a nheap \<Rightarrow> 'a nheap" where
  "new_node a v h = h(a \<mapsto> \<lparr>ndata = Some v, nnext = None\<rparr>)"

text \<open>A moved-from \<open>unique_ptr\<close> is null.\<close>

definition link_front :: "nat \<Rightarrow> 'a nheap \<Rightarrow> 'a nheap res" where
  "link_front a h =
     res_bind (next_of h 0) (\<lambda>q.
     res_bind (set_next 0 None h) (\<lambda>h.
     res_bind (set_next a q h) (\<lambda>h. set_next 0 (Some a) h)))"

definition push_front :: "nat \<Rightarrow> 'a \<Rightarrow> 'a nheap \<Rightarrow> 'a nheap res" where
  "push_front a v h = link_front a (new_node a v h)"

partial_function (option) find_loop :: "('a \<Rightarrow> bool) \<Rightarrow> nat \<Rightarrow> 'a nheap \<Rightarrow> 'a option res option" where
  "find_loop P current h =
     (case next_of h current of
        Inl e \<Rightarrow> Some (Inl e)
      | Inr None \<Rightarrow> Some (Inr None)
      | Inr (Some n) \<Rightarrow>
          (case data_at h n of
             Inl e \<Rightarrow> Some (Inl e)
           | Inr v \<Rightarrow> if P v then Some (Inr (Some v)) else find_loop P n h))"

definition find_first_if :: "('a \<Rightarrow> bool) \<Rightarrow> 'a nheap \<Rightarrow> 'a option res option" where
  "find_first_if P h = find_loop P 0 h"

definition unlink :: "nat \<Rightarrow> nat \<Rightarrow> 'a nheap \<Rightarrow> 'a nheap res" where
  "unlink current n h =
     res_bind (set_next current None h) (\<lambda>h.
     res_bind (next_of h n) (\<lambda>q.
     res_bind (set_next n None h) (\<lambda>h. set_next current q h)))"

partial_function (option) remove_loop :: "('a \<Rightarrow> bool) \<Rightarrow> nat \<Rightarrow> 'a nheap \<Rightarrow> 'a nheap res option" where
  "remove_loop p current h =
     (case next_of h current of
        Inl e \<Rightarrow> Some (Inl e)
      | Inr None \<Rightarrow> Some (Inr h)
      | Inr (Some n) \<Rightarrow>
          (case data_at h n of
             Inl e \<Rightarrow> Some (Inl e)
           | Inr v \<Rightarrow>
               if p v then
                 (case unlink current n h of
                    Inl e \<Rightarrow> Some (Inl e)
                  | Inr h \<Rightarrow> remove_loop p current (h(n := None)))
               else remove_loop p n h))"

definition remove_if :: "('a \<Rightarrow> bool) \<Rightarrow> 'a nheap \<Rightarrow> 'a nheap res option" where
  "remove_if p h = remove_loop p 0 h"

section \<open>The list that the nodes form\<close>

fun nchain :: "'a nheap \<Rightarrow> nat option \<Rightarrow> nat list \<Rightarrow> nat option \<Rightarrow> bool" where
  "nchain h p [] q \<longleftrightarrow> p = q"
| "nchain h p (x # xs) q \<longleftrightarrow> p = Some x \<and> (\<exists>n. h x = Some n \<and> nchain h (nnext n) xs q)"

definition has_data :: "'a nheap \<Rightarrow> nat \<Rightarrow> bool" where
  "has_data h x \<longleftrightarrow> (\<exists>n v. h x = Some n \<and> ndata n = Some v)"

definition tlist :: "'a nheap \<Rightarrow> nat list \<Rightarrow> bool" where
  "tlist h xs \<longleftrightarrow> distinct (0 # xs) \<and> nchain h (Some 0) (0 # xs) None \<and> (\<forall>x \<in> set xs. has_data h x)"

definition value_at :: "'a nheap \<Rightarrow> nat \<Rightarrow> 'a" where
  "value_at h x = the (ndata (the (h x)))"

text \<open>Changing links keeps the data.\<close>

definition same_data :: "'a nheap \<Rightarrow> 'a nheap \<Rightarrow> bool" where
  "same_data h h' \<longleftrightarrow> (\<forall>x. map_option ndata (h' x) = map_option ndata (h x))"

lemma node_at_simps [simp]: "h p = Some n \<Longrightarrow> node_at h p = Inr n" "h p = None \<Longrightarrow> node_at h p = Inl NullDeref"
  by (simp_all add: node_at_def)

lemma data_at_value [simp]: "has_data h x \<Longrightarrow> data_at h x = Inr (value_at h x)"
  by (auto simp: has_data_def data_at_def value_at_def)

lemma same_data_has: "same_data h h' \<Longrightarrow> has_data h' x = has_data h x"
  unfolding same_data_def has_data_def by (metis (no_types, lifting) map_option_eq_Some)

lemma same_data_value: "same_data h h' \<Longrightarrow> has_data h x \<Longrightarrow> value_at h' x = value_at h x"
  unfolding same_data_def has_data_def value_at_def
  by (metis (no_types, lifting) map_option_eq_Some option.sel)

lemma nchain_append: "nchain h p (xs @ ys) q \<longleftrightarrow> (\<exists>r. nchain h p xs r \<and> nchain h r ys q)"
  by (induction xs arbitrary: p) auto

lemma nchain_frame: "nchain h p xs q \<Longrightarrow> \<forall>x \<in> set xs. h' x = h x \<Longrightarrow> nchain h' p xs q"
  by (induction xs arbitrary: p) auto

lemma nchain_snoc: "nchain h p (xs @ [x]) q \<longleftrightarrow> nchain h p xs (Some x) \<and> (\<exists>n. h x = Some n \<and> nnext n = q)"
  by (auto simp: nchain_append)

lemma tlist_next:
  assumes "tlist h xs" "0 # xs = us @ c # ys"
  shows "next_of h c = Inr (case ys of [] \<Rightarrow> None | y # _ \<Rightarrow> Some y)"
proof -
  from assms have "nchain h (Some 0) (us @ c # ys) None" by (simp add: tlist_def)
  then show ?thesis by (cases ys) (auto simp: nchain_append next_of_def)
qed

lemma tlist_data: "tlist h xs \<Longrightarrow> x \<in> set xs \<Longrightarrow> has_data h x"
  by (simp add: tlist_def)

lemma tlist_alloc: "tlist h xs \<Longrightarrow> x \<in> set (0 # xs) \<Longrightarrow> \<exists>n. h x = Some n"
  by (auto simp: tlist_def has_data_def)

lemma tlist_new: "tlist (threadsafe_list :: 'a nheap) []"
  by (simp add: tlist_def threadsafe_list_def)

lemma link_front_list:
  assumes l: "tlist h xs" and a: "a \<notin> set (0 # xs)" "has_data h a"
  shows "\<exists>h'. link_front a h = Inr h' \<and> tlist h' (a # xs) \<and> same_data h h' \<and> (\<forall>x. x \<noteq> 0 \<longrightarrow> x \<noteq> a \<longrightarrow> h' x = h x)"
proof -
  from l obtain n where n: "h 0 = Some n" "nchain h (nnext n) xs None" by (auto simp: tlist_def)
  from a obtain m v where m: "h a = Some m" "ndata m = Some v" by (auto simp: has_data_def)
  let ?h = "h(0 \<mapsto> n\<lparr>nnext := Some a\<rparr>, a \<mapsto> m\<lparr>nnext := nnext n\<rparr>)"
  have r: "link_front a h = Inr ?h"
    using n(1) m(1) a(1) by (auto simp: link_front_def next_of_def set_next_def fun_eq_iff)
  have "nchain ?h (nnext n) xs None"
    by (rule nchain_frame [OF n(2)]) (use a(1) l in \<open>auto simp: tlist_def\<close>)
  moreover have same: "same_data h ?h" using n(1) m(1) by (auto simp: same_data_def)
  ultimately have "tlist ?h (a # xs)"
    using l a by (auto simp: tlist_def same_data_has [OF same])
  then show ?thesis using r same by auto
qed

lemma unlink_list:
  assumes l: "tlist h xs" and xs: "0 # xs = us @ c # n # ys"
  shows "\<exists>h'. unlink c n h = Inr h' \<and> tlist h' (tl (us @ c # ys)) \<and> 0 # tl (us @ c # ys) = us @ c # ys \<and>
    same_data h h' \<and> (\<forall>x. x \<noteq> c \<longrightarrow> x \<noteq> n \<longrightarrow> h' x = h x)"
proof -
  have d: "distinct (us @ c # n # ys)" and ch: "nchain h (Some 0) ((us @ [c]) @ n # ys) None"
    using l xs by (simp_all add: tlist_def)
  from ch obtain r where r: "nchain h (Some 0) (us @ [c]) r" "nchain h r (n # ys) None"
    unfolding nchain_append [of _ _ "us @ [c]"] by blast
  from r(1) obtain k where k: "nchain h (Some 0) us (Some c)" "h c = Some k" by (auto simp: nchain_snoc)
  from r(2) obtain m where m: "h n = Some m" "nchain h (nnext m) ys None" by auto
  have cn: "c \<noteq> n" using d by simp
  let ?h = "h(c \<mapsto> k\<lparr>nnext := nnext m\<rparr>, n \<mapsto> m\<lparr>nnext := None\<rparr>)"
  have u: "unlink c n h = Inr ?h"
    using k(2) m(1) cn by (auto simp: unlink_def next_of_def set_next_def fun_eq_iff)
  have e: "0 # tl (us @ c # ys) = us @ c # ys" using xs by (cases us) auto
  have "nchain ?h (Some 0) us (Some c)" by (rule nchain_frame [OF k(1)]) (use d in auto)
  moreover have "nchain ?h (nnext m) ys None" by (rule nchain_frame [OF m(2)]) (use d in auto)
  ultimately have "nchain ?h (Some 0) (us @ c # ys) None" using cn by (auto simp: nchain_append)
  moreover have same: "same_data h ?h" using k(2) m(1) by (auto simp: same_data_def)
  moreover have "set (tl (us @ c # ys)) \<subseteq> set xs"
  proof -
    have "tl (us @ c # n # ys) = xs" using xs by (metis list.sel(3))
    then show ?thesis by (cases us) auto
  qed
  moreover have "distinct (us @ c # ys)" using d by simp
  ultimately have "tlist ?h (tl (us @ c # ys))"
    using l unfolding tlist_def e by (auto simp: same_data_has [OF same])
  then show ?thesis using u e same by auto
qed

lemma tlist_frame: "tlist h xs \<Longrightarrow> \<forall>x \<in> set (0 # xs). h' x = h x \<Longrightarrow> tlist h' xs"
  using nchain_frame [of h "Some 0" "0 # xs" None h'] by (simp add: tlist_def has_data_def)

section \<open>What the operations compute\<close>

lemma find_loop_list:
  assumes "tlist h xs" "0 # xs = us @ c # ys"
  shows "find_loop P c h = Some (Inr (find P (map (value_at h) ys)))"
  using assms(2)
proof (induction ys arbitrary: us c)
  case Nil
  then show ?case using tlist_next [OF assms(1) Nil] by (subst find_loop.simps) simp
next
  case (Cons y ys)
  have y: "has_data h y"
  proof -
    have "y \<in> set xs" using Cons.prems by (cases us) auto
    then show ?thesis using assms(1) by (rule tlist_data [rotated])
  qed
  have "find_loop P y h = Some (Inr (find P (map (value_at h) ys)))"
    by (rule Cons.IH [of "us @ [c]"]) (use Cons.prems in simp)
  then show ?case using tlist_next [OF assms(1) Cons.prems] y by (subst find_loop.simps) simp
qed

text \<open>What is still allocated has the data it had.\<close>

definition data_kept :: "'a nheap \<Rightarrow> 'a nheap \<Rightarrow> bool" where
  "data_kept h h' \<longleftrightarrow> (\<forall>x. h' x \<noteq> None \<longrightarrow> map_option ndata (h' x) = map_option ndata (h x))"

lemma data_keptD: "data_kept h h' \<Longrightarrow> h' x = Some n \<Longrightarrow> \<exists>m. h x = Some m \<and> ndata m = ndata n"
  unfolding data_kept_def by (metis map_option_eq_Some option.distinct(1))

lemma data_kept_value: "data_kept h h' \<Longrightarrow> h' x \<noteq> None \<Longrightarrow> value_at h' x = value_at h x"
  using data_keptD by (fastforce simp: value_at_def)

lemma data_kept_trans: "data_kept h h' \<Longrightarrow> data_kept h' h'' \<Longrightarrow> data_kept h h''"
  unfolding data_kept_def by (metis map_option_is_None)

lemma remove_loop_list:
  assumes "tlist h xs" "0 # xs = us @ c # ys"
  shows "\<exists>h'. remove_loop p c h = Some (Inr h') \<and>
    tlist h' (tl (us @ c # filter (\<lambda>x. \<not> p (value_at h x)) ys)) \<and> data_kept h h' \<and>
    (\<forall>x \<in> set ys. p (value_at h x) \<longrightarrow> h' x = None)"
  using assms
proof (induction ys arbitrary: h xs us c)
  case Nil
  have "remove_loop p c h = Some (Inr h)"
    using tlist_next [OF Nil] by (subst remove_loop.simps) simp
  moreover have "tl (us @ [c]) = xs" using Nil(2) by (metis list.sel(3))
  ultimately show ?case using Nil(1) by (simp add: data_kept_def)
next
  case (Cons y ys)
  have "y \<in> set xs" using Cons.prems(2) by (cases us) auto
  then have y: "has_data h y" using Cons.prems(1) by (rule tlist_data [rotated])
  have d: "distinct (us @ c # y # ys)" using Cons.prems by (simp add: tlist_def)
  show ?case
  proof (cases "p (value_at h y)")
    case False
    have step: "remove_loop p c h = remove_loop p y h"
      using tlist_next [OF Cons.prems] y False by (subst remove_loop.simps) simp
    from Cons.IH [OF Cons.prems(1), of "us @ [c]" y] Cons.prems(2) obtain h' where
      "remove_loop p y h = Some (Inr h')" "tlist h' (tl (us @ c # y # filter (\<lambda>x. \<not> p (value_at h x)) ys))"
      "data_kept h h'" "\<forall>x \<in> set ys. p (value_at h x) \<longrightarrow> h' x = None" by auto
    then show ?thesis using step False by simp
  next
    case True
    let ?ws = "tl (us @ c # ys)"
    from unlink_list [OF Cons.prems] obtain k where
      k: "unlink c y h = Inr k" "tlist k ?ws" "0 # ?ws = us @ c # ys" "same_data h k" by blast
    let ?k = "k(y := None)"
    have step: "remove_loop p c h = remove_loop p c ?k"
      using tlist_next [OF Cons.prems] y True k(1) by (subst remove_loop.simps) simp
    have k': "tlist ?k ?ws"
      by (rule tlist_frame [OF k(2)]) (use d in \<open>simp only: k(3), auto\<close>)
    have kept: "data_kept h ?k" using k(4) by (auto simp: data_kept_def same_data_def)
    have v: "value_at ?k x = value_at h x" if "x \<in> set ys" for x
    proof -
      have "x \<in> set (0 # ?ws)" using that by (simp only: k(3)) simp
      then show ?thesis using tlist_alloc [OF k'] data_kept_value [OF kept] by blast
    qed
    then have f: "filter (\<lambda>x. \<not> p (value_at ?k x)) ys = filter (\<lambda>x. \<not> p (value_at h x)) ys"
      by (intro filter_cong) simp_all
    from Cons.IH [OF k' k(3)] obtain h' where
      h': "remove_loop p c ?k = Some (Inr h')" "tlist h' (tl (us @ c # filter (\<lambda>x. \<not> p (value_at h x)) ys))"
        "data_kept ?k h'" "\<forall>x \<in> set ys. p (value_at ?k x) \<longrightarrow> h' x = None"
      unfolding f by blast
    have "h' y = None" using data_keptD [OF h'(3), of y] by (cases "h' y") auto
    then show ?thesis using step h' True data_kept_trans [OF kept h'(3)] v by auto
  qed
qed

text \<open>C24: One thread alone computes what the list functions do: push_front puts a value in front,
  find_first_if returns the first value that satisfies the predicate, remove_if leaves exactly the values
  that do not satisfy it, in order, and frees the nodes of the others. The loops end.\<close>
theorem ts_list_functions:
  assumes "tlist h xs" "h a = None"
  shows "(\<exists>h'. push_front a v h = Inr h' \<and> tlist h' (a # xs) \<and>
      map (value_at h') (a # xs) = v # map (value_at h) xs) \<and>
    find_first_if P h = Some (Inr (find P (map (value_at h) xs))) \<and>
    (\<exists>h' ys. remove_if P h = Some (Inr h') \<and> tlist h' ys \<and>
      map (value_at h') ys = filter (\<lambda>v. \<not> P v) (map (value_at h) xs) \<and> (\<forall>x \<in> set xs - set ys. h' x = None))"
proof (intro conjI)
  let ?h = "new_node a v h"
  have a: "a \<notin> set (0 # xs)" using tlist_alloc [OF assms(1)] assms(2) by fastforce
  have "tlist ?h xs" by (rule tlist_frame [OF assms(1)]) (use a in \<open>auto simp: new_node_def\<close>)
  moreover have na: "has_data ?h a" by (simp add: has_data_def new_node_def)
  ultimately obtain h' where h': "link_front a ?h = Inr h'" "tlist h' (a # xs)" "same_data ?h h'"
    using link_front_list a by blast
  have "value_at h' a = v" using same_data_value [OF h'(3) na] by (simp add: value_at_def new_node_def)
  moreover have "value_at h' x = value_at h x" if "x \<in> set xs" for x
  proof -
    have "has_data ?h x" using \<open>tlist ?h xs\<close> that by (rule tlist_data)
    then have "value_at h' x = value_at ?h x" by (rule same_data_value [OF h'(3)])
    then show ?thesis using that a by (auto simp: value_at_def new_node_def)
  qed
  ultimately show "\<exists>h'. push_front a v h = Inr h' \<and> tlist h' (a # xs) \<and>
      map (value_at h') (a # xs) = v # map (value_at h) xs"
    using h' by (auto simp: push_front_def)
  show "find_first_if P h = Some (Inr (find P (map (value_at h) xs)))"
    unfolding find_first_if_def by (rule find_loop_list [OF assms(1), of "[]"]) simp
  let ?ys = "filter (\<lambda>x. \<not> P (value_at h x)) xs"
  obtain h'' where r: "remove_loop P 0 h = Some (Inr h'')" "tlist h'' ?ys" "data_kept h h''"
    "\<forall>x \<in> set xs. P (value_at h x) \<longrightarrow> h'' x = None"
    using remove_loop_list [OF assms(1), of "[]" 0 xs P] by auto
  have "value_at h'' x = value_at h x" if "x \<in> set ?ys" for x
    using tlist_alloc [OF r(2)] that data_kept_value [OF r(3)] by fastforce
  then have "map (value_at h'') ?ys = filter (\<lambda>v. \<not> P v) (map (value_at h) xs)"
    by (simp add: filter_map o_def cong: map_cong)
  then show "\<exists>h' ys. remove_if P h = Some (Inr h') \<and> tlist h' ys \<and>
      map (value_at h') ys = filter (\<lambda>v. \<not> P v) (map (value_at h) xs) \<and> (\<forall>x \<in> set xs - set ys. h' x = None)"
    using r unfolding remove_if_def by (intro exI [of _ h''] exI [of _ ?ys]) auto
qed

lemma ts_list_functions_witness:
  "\<exists>h. push_front 3 (7::int) threadsafe_list = Inr h \<and> tlist h [3] \<and> map (value_at h) [3] = [7]"
proof -
  have "(threadsafe_list :: int nheap) 3 = None" by (simp add: threadsafe_list_def)
  from ts_list_functions [OF tlist_new this, of 7 "\<lambda>_. True"] show ?thesis by auto
qed

end
