(* ===== verification/TsListConc.thy ===== *)
theory TsListConc
  imports TsList
begin

text \<open>
  Any number of threads in the operations of the list of threadsafe_list.hpp. A step ends where a mutex is
  taken or given back; a thread that wants a mutex that is taken cannot step. The theorems: no node is used
  after it was freed, the nodes always form one list that changes as a list of values does, some
  thread inside an operation can always go on, and the operations come to an end.
\<close>

section \<open>Threads\<close>

text \<open>
  Outside (with the last result of a find); with the new node before and after locking the head; wanting
  the head for a search; holding \<open>current\<close>; holding \<open>current\<close> and \<open>next\<close>; holding \<open>next\<close>, about to
  test it; the same for a removal, and holding \<open>current\<close>, about to free the node taken out.
\<close>

datatype 'a tphase = TOut "'a option" | TPush nat | TLink nat
  | TWantF "'a \<Rightarrow> bool" | TFind "'a \<Rightarrow> bool" nat | TBoth "'a \<Rightarrow> bool" nat nat | TTest "'a \<Rightarrow> bool" nat
  | TWantR "'a \<Rightarrow> bool" | TRem "'a \<Rightarrow> bool" nat | TRBoth "'a \<Rightarrow> bool" nat nat | TRFree "'a \<Rightarrow> bool" nat nat

record 'a tsys =
  nodes :: "'a nheap"
  locks :: "nat \<Rightarrow> nat option"
  tph :: "nat \<Rightarrow> 'a tphase"

definition ts_start :: "'a tsys" where
  "ts_start = \<lparr>nodes = threadsafe_list, locks = (\<lambda>_. None), tph = (\<lambda>_. TOut None)\<rparr>"

text \<open>A call: any thread that is outside may make one.\<close>

inductive ts_call :: "nat \<Rightarrow> 'a tsys \<Rightarrow> 'a tsys \<Rightarrow> bool" where
  push: "tph s t = TOut r \<Longrightarrow> nodes s a = None \<Longrightarrow>
    ts_call t s (s\<lparr>nodes := new_node a v (nodes s), tph := (tph s)(t := TPush a)\<rparr>)"
| find: "tph s t = TOut r \<Longrightarrow> ts_call t s (s\<lparr>tph := (tph s)(t := TWantF P)\<rparr>)"
| remove: "tph s t = TOut r \<Longrightarrow> ts_call t s (s\<lparr>tph := (tph s)(t := TWantR P)\<rparr>)"

text \<open>A thread inside an operation goes on.\<close>

inductive ts_move :: "nat \<Rightarrow> 'a tsys \<Rightarrow> 'a tsys \<Rightarrow> bool" where
  p_lock: "tph s t = TPush a \<Longrightarrow> locks s 0 = None \<Longrightarrow>
    ts_move t s (s\<lparr>locks := (locks s)(0 \<mapsto> t), tph := (tph s)(t := TLink a)\<rparr>)"
| p_link: "tph s t = TLink a \<Longrightarrow> link_front a (nodes s) = Inr h \<Longrightarrow>
    ts_move t s (s\<lparr>nodes := h, locks := (locks s)(0 := None), tph := (tph s)(t := TOut None)\<rparr>)"
| f_lock: "tph s t = TWantF P \<Longrightarrow> locks s 0 = None \<Longrightarrow>
    ts_move t s (s\<lparr>locks := (locks s)(0 \<mapsto> t), tph := (tph s)(t := TFind P 0)\<rparr>)"
| f_next: "tph s t = TFind P c \<Longrightarrow> next_of (nodes s) c = Inr (Some n) \<Longrightarrow> locks s n = None \<Longrightarrow>
    ts_move t s (s\<lparr>locks := (locks s)(n \<mapsto> t), tph := (tph s)(t := TBoth P c n)\<rparr>)"
| f_end: "tph s t = TFind P c \<Longrightarrow> next_of (nodes s) c = Inr None \<Longrightarrow>
    ts_move t s (s\<lparr>locks := (locks s)(c := None), tph := (tph s)(t := TOut None)\<rparr>)"
| f_unlock: "tph s t = TBoth P c n \<Longrightarrow>
    ts_move t s (s\<lparr>locks := (locks s)(c := None), tph := (tph s)(t := TTest P n)\<rparr>)"
| f_hit: "tph s t = TTest P n \<Longrightarrow> data_at (nodes s) n = Inr v \<Longrightarrow> P v \<Longrightarrow>
    ts_move t s (s\<lparr>locks := (locks s)(n := None), tph := (tph s)(t := TOut (Some v))\<rparr>)"
| f_miss: "tph s t = TTest P n \<Longrightarrow> data_at (nodes s) n = Inr v \<Longrightarrow> \<not> P v \<Longrightarrow>
    ts_move t s (s\<lparr>tph := (tph s)(t := TFind P n)\<rparr>)"
| r_lock: "tph s t = TWantR P \<Longrightarrow> locks s 0 = None \<Longrightarrow>
    ts_move t s (s\<lparr>locks := (locks s)(0 \<mapsto> t), tph := (tph s)(t := TRem P 0)\<rparr>)"
| r_next: "tph s t = TRem P c \<Longrightarrow> next_of (nodes s) c = Inr (Some n) \<Longrightarrow> locks s n = None \<Longrightarrow>
    ts_move t s (s\<lparr>locks := (locks s)(n \<mapsto> t), tph := (tph s)(t := TRBoth P c n)\<rparr>)"
| r_end: "tph s t = TRem P c \<Longrightarrow> next_of (nodes s) c = Inr None \<Longrightarrow>
    ts_move t s (s\<lparr>locks := (locks s)(c := None), tph := (tph s)(t := TOut None)\<rparr>)"
| r_take: "tph s t = TRBoth P c n \<Longrightarrow> data_at (nodes s) n = Inr v \<Longrightarrow> P v \<Longrightarrow> unlink c n (nodes s) = Inr h \<Longrightarrow>
    ts_move t s (s\<lparr>nodes := h, locks := (locks s)(n := None), tph := (tph s)(t := TRFree P c n)\<rparr>)"
| r_skip: "tph s t = TRBoth P c n \<Longrightarrow> data_at (nodes s) n = Inr v \<Longrightarrow> \<not> P v \<Longrightarrow>
    ts_move t s (s\<lparr>locks := (locks s)(c := None), tph := (tph s)(t := TRem P n)\<rparr>)"
| r_free: "tph s t = TRFree P c n \<Longrightarrow>
    ts_move t s (s\<lparr>nodes := (nodes s)(n := None), tph := (tph s)(t := TRem P c)\<rparr>)"

inductive ts_reach :: "'a tsys \<Rightarrow> bool" where
  init: "ts_reach ts_start"
| call: "ts_reach s \<Longrightarrow> ts_call t s s' \<Longrightarrow> ts_reach s'"
| move: "ts_reach s \<Longrightarrow> ts_move t s s' \<Longrightarrow> ts_reach s'"

text \<open>What a thread's next step does to nodes: following a link, reading data, locking and unlocking the
  mutex of a node, destroying a node, whose mutex must not be locked.\<close>

definition ts_access :: "'a tsys \<Rightarrow> nat \<Rightarrow> unit res" where
  "ts_access s t =
     (let h = nodes s; touch = (\<lambda>x. res_bind (node_at h x) (\<lambda>_. Inr ()));
          next_node = (\<lambda>c. res_bind (next_of h c) (\<lambda>q. case q of None \<Rightarrow> Inr () | Some n \<Rightarrow> touch n)) in
      case tph s t of
        TLink a \<Rightarrow> res_bind (link_front a h) (\<lambda>_. Inr ())
      | TFind _ c \<Rightarrow> next_node c
      | TBoth _ c n \<Rightarrow> res_bind (touch c) (\<lambda>_. touch n)
      | TTest _ n \<Rightarrow> res_bind (data_at h n) (\<lambda>_. Inr ())
      | TRem _ c \<Rightarrow> next_node c
      | TRBoth p c n \<Rightarrow> res_bind (data_at h n) (\<lambda>v. if p v then res_bind (unlink c n h) (\<lambda>_. Inr ()) else touch c)
      | TRFree _ c n \<Rightarrow> res_bind (touch n) (\<lambda>_. check (locks s n = None) AssertFail (Inr ()))
      | _ \<Rightarrow> touch 0)"

section \<open>Invariant\<close>

text \<open>The mutexes a phase holds, and the nodes that only its thread knows.\<close>

fun holds :: "'a tphase \<Rightarrow> nat set" where
  "holds (TLink _) = {0}"
| "holds (TFind _ c) = {c}"
| "holds (TBoth _ c n) = {c, n}"
| "holds (TTest _ n) = {n}"
| "holds (TRem _ c) = {c}"
| "holds (TRBoth _ c n) = {c, n}"
| "holds (TRFree _ c n) = {c}"
| "holds _ = {}"

fun owns :: "'a tphase \<Rightarrow> nat set" where
  "owns (TPush a) = {a}"
| "owns (TLink a) = {a}"
| "owns (TRFree _ c n) = {n}"
| "owns _ = {}"

text \<open>The node that must follow the current one.\<close>

fun expects :: "'a tphase \<Rightarrow> (nat \<times> nat) option" where
  "expects (TBoth _ c n) = Some (c, n)"
| "expects (TRBoth _ c n) = Some (c, n)"
| "expects _ = None"

fun in_front :: "'a tphase \<Rightarrow> nat \<Rightarrow> bool" where
  "in_front (TTest _ n) x \<longleftrightarrow> x = n"
| "in_front _ x \<longleftrightarrow> False"

definition phase_ok :: "'a nheap \<Rightarrow> nat list \<Rightarrow> 'a tphase \<Rightarrow> bool" where
  "phase_ok h xs p \<longleftrightarrow> holds p \<subseteq> set (0 # xs) \<and> owns p \<inter> set (0 # xs) = {} \<and>
     (\<forall>x \<in> owns p. has_data h x) \<and> (\<forall>c n. expects p = Some (c, n) \<longrightarrow> next_of h c = Inr (Some n)) \<and>
     (\<forall>n. in_front p n \<longrightarrow> n \<in> set xs)"

definition locked_by :: "(nat \<Rightarrow> nat option) \<Rightarrow> (nat \<Rightarrow> 'a tphase) \<Rightarrow> bool" where
  "locked_by l ph \<longleftrightarrow> (\<forall>t x. l x = Some t \<longleftrightarrow> x \<in> holds (ph t))"

definition apart :: "(nat \<Rightarrow> 'a tphase) \<Rightarrow> bool" where
  "apart ph \<longleftrightarrow> (\<forall>t u. t \<noteq> u \<longrightarrow> owns (ph t) \<inter> owns (ph u) = {})"

definition ts_inv :: "'a tsys \<Rightarrow> nat list \<Rightarrow> bool" where
  "ts_inv s xs \<longleftrightarrow> tlist (nodes s) xs \<and> locked_by (locks s) (tph s) \<and> apart (tph s) \<and>
     (\<forall>t. phase_ok (nodes s) xs (tph s t))"

lemma locked_byD: "locked_by l ph \<Longrightarrow> x \<in> holds (ph t) \<Longrightarrow> l x = Some t"
  by (simp add: locked_by_def)

lemma locked_byI: "(\<And>t x. l x = Some t \<longleftrightarrow> x \<in> holds (ph t)) \<Longrightarrow> locked_by l ph"
  by (simp add: locked_by_def)

lemma locked_take:
  assumes "locked_by l ph" "l x = None" "holds p = insert x (holds (ph t))"
  shows "locked_by (l(x \<mapsto> t)) (ph(t := p))"
proof -
  have "x \<notin> holds (ph u)" for u using locked_byD [OF assms(1), of x u] assms(2) by auto
  then show ?thesis using assms(1,3) by (intro locked_byI) (auto simp: locked_by_def)
qed

lemma locked_drop:
  assumes "locked_by l ph" "x \<in> holds (ph t)" "holds p = holds (ph t) - {x}"
  shows "locked_by (l(x := None)) (ph(t := p))"
proof -
  have "x \<notin> holds (ph u)" if "u \<noteq> t" for u
    using locked_byD [OF assms(1), of x u] locked_byD [OF assms(1,2)] that by auto
  then show ?thesis using assms(1,3) by (intro locked_byI) (auto simp: locked_by_def)
qed

lemma locked_same: "locked_by l ph \<Longrightarrow> holds p = holds (ph t) \<Longrightarrow> locked_by l (ph(t := p))"
  by (auto simp: locked_by_def)

lemma locked_unique: "locked_by l ph \<Longrightarrow> x \<in> holds (ph t) \<Longrightarrow> x \<in> holds (ph u) \<Longrightarrow> t = u"
  unfolding locked_by_def by (metis option.inject)

lemma apart_shrink: "apart ph \<Longrightarrow> owns p \<subseteq> owns (ph t) \<Longrightarrow> apart (ph(t := p))"
  unfolding apart_def by (simp add: fun_upd_def) blast

lemma apart_grow:
  "apart ph \<Longrightarrow> \<forall>u. u \<noteq> t \<longrightarrow> owns p \<inter> owns (ph u) = {} \<Longrightarrow> apart (ph(t := p))"
  unfolding apart_def by (simp add: fun_upd_def) blast

text \<open>A phase whose nodes stay as they are remains right.\<close>

lemma expects_holds: "expects p = Some (c, n) \<Longrightarrow> c \<in> holds p \<and> n \<in> holds p"
  by (cases p) auto

lemma in_front_holds: "in_front p n \<Longrightarrow> n \<in> holds p"
  by (cases p) auto

lemma phase_ok_frame:
  assumes "phase_ok h xs p" "tlist h xs" "\<forall>x \<in> holds p. x \<in> set (0 # xs') \<and> h' x = h x"
    "\<forall>x \<in> owns p. x \<notin> set (0 # xs') \<and> h' x = h x"
  shows "phase_ok h' xs' p"
proof -
  have "next_of h' c = Inr (Some n)" if "expects p = Some (c, n)" for c n
    using expects_holds [OF that] assms(1,3) that by (simp add: phase_ok_def next_of_def node_at_def)
  moreover have "n \<in> set xs'" if "in_front p n" for n
    using in_front_holds [OF that] assms(1,2,3) that by (auto simp: phase_ok_def tlist_def)
  moreover have "has_data h' x" if "x \<in> owns p" for x
    using assms(1,4) that by (simp add: phase_ok_def has_data_def)
  moreover have "holds p \<subseteq> set (0 # xs')" "owns p \<inter> set (0 # xs') = {}" using assms(3,4) by blast+
  ultimately show ?thesis unfolding phase_ok_def by blast
qed

lemma ts_inv_nodes:
  assumes "ts_inv s xs" "tlist h xs'" "locked_by l ((tph s)(t := p))" "apart ((tph s)(t := p))" "phase_ok h xs' p"
    "\<forall>u x. u \<noteq> t \<longrightarrow> x \<in> holds (tph s u) \<longrightarrow> x \<in> set (0 # xs') \<and> h x = nodes s x"
    "\<forall>u x. u \<noteq> t \<longrightarrow> x \<in> owns (tph s u) \<longrightarrow> x \<notin> set (0 # xs') \<and> h x = nodes s x"
  shows "ts_inv (s\<lparr>nodes := h, locks := l, tph := (tph s)(t := p)\<rparr>) xs'"
proof -
  have "phase_ok h xs' (tph s u)" if "u \<noteq> t" for u
  proof (rule phase_ok_frame)
    show "phase_ok (nodes s) xs (tph s u)" "tlist (nodes s) xs" using assms(1) by (simp_all add: ts_inv_def)
    show "\<forall>x \<in> holds (tph s u). x \<in> set (0 # xs') \<and> h x = nodes s x" using assms(6) that by blast
    show "\<forall>x \<in> owns (tph s u). x \<notin> set (0 # xs') \<and> h x = nodes s x" using assms(7) that by blast
  qed
  then show ?thesis using assms(2-5) by (simp add: ts_inv_def)
qed

text \<open>Steps that change no node.\<close>

lemma ts_inv_locks:
  assumes "ts_inv s xs" "locked_by l ((tph s)(t := p))" "owns p \<subseteq> owns (tph s t)" "phase_ok (nodes s) xs p"
  shows "ts_inv (s\<lparr>locks := l, tph := (tph s)(t := p)\<rparr>) xs"
  using assms by (simp add: ts_inv_def apart_shrink)

lemma ts_inv_phase:
  assumes "ts_inv s xs" "holds p = holds (tph s t)" "owns p \<subseteq> owns (tph s t)" "phase_ok (nodes s) xs p"
  shows "ts_inv (s\<lparr>tph := (tph s)(t := p)\<rparr>) xs"
  using assms by (simp add: ts_inv_def apart_shrink locked_same)

lemma ts_inv_split:
  assumes "ts_inv s xs" "c \<in> set (0 # xs)"
  obtains us ys where "0 # xs = us @ c # ys" "next_of (nodes s) c = Inr (case ys of [] \<Rightarrow> None | y # _ \<Rightarrow> Some y)"
proof -
  from assms(2) obtain us ys where s: "0 # xs = us @ c # ys" by (meson split_list)
  moreover from tlist_next [OF _ s, of "nodes s"] assms(1) have
    "next_of (nodes s) c = Inr (case ys of [] \<Rightarrow> None | y # _ \<Rightarrow> Some y)" by (simp add: ts_inv_def)
  ultimately show thesis by (rule that)
qed

lemma ts_inv_next:
  assumes "ts_inv s xs" "c \<in> set (0 # xs)" "next_of (nodes s) c = Inr (Some n)"
  obtains us ys where "0 # xs = us @ c # n # ys"
proof -
  obtain us ys where u: "0 # xs = us @ c # ys"
    "next_of (nodes s) c = Inr (case ys of [] \<Rightarrow> None | y # _ \<Rightarrow> Some y)" by (rule ts_inv_split [OF assms(1,2)])
  then show thesis using assms(3) that by (cases ys) auto
qed

lemma ts_invD:
  assumes "ts_inv s xs"
  shows "tlist (nodes s) xs" "locked_by (locks s) (tph s)" "apart (tph s)" "phase_ok (nodes s) xs (tph s t)"
  using assms by (simp_all add: ts_inv_def)

lemma held_node: "ts_inv s xs \<Longrightarrow> x \<in> holds (tph s t) \<Longrightarrow> x \<in> set (0 # xs)"
  using ts_invD(4) [of s xs t] by (auto simp: phase_ok_def)

lemma owned_node: "ts_inv s xs \<Longrightarrow> x \<in> owns (tph s t) \<Longrightarrow> x \<notin> set (0 # xs) \<and> has_data (nodes s) x"
  using ts_invD(4) [of s xs t] by (auto simp: phase_ok_def)

lemma owned_once: "ts_inv s xs \<Longrightarrow> x \<in> owns (tph s t) \<Longrightarrow> u \<noteq> t \<Longrightarrow> x \<notin> owns (tph s u)"
  using ts_invD(3) [of s xs] unfolding apart_def by blast

lemma held_once: "ts_inv s xs \<Longrightarrow> x \<in> holds (tph s t) \<Longrightarrow> u \<noteq> t \<Longrightarrow> x \<notin> holds (tph s u)"
  using locked_unique [OF ts_invD(2)] by blast

section \<open>Steps on the invariant\<close>

definition contents :: "'a tsys \<Rightarrow> nat list \<Rightarrow> 'a list" where
  "contents s xs = map (value_at (nodes s)) xs"

text \<open>What a step may do to the list of values: linking puts the new value in front, taking a node out removes one
  occurrence of a value that satisfies the predicate, and nothing else changes it.\<close>

fun ts_effect :: "'a tphase \<Rightarrow> 'a nheap \<Rightarrow> 'a list \<Rightarrow> 'a list \<Rightarrow> bool" where
  "ts_effect (TLink a) h vs ws \<longleftrightarrow> ws = value_at h a # vs"
| "ts_effect (TRBoth P c n) h vs ws \<longleftrightarrow>
     (if P (value_at h n) then \<exists>us zs. vs = us @ value_at h n # zs \<and> ws = us @ zs else ws = vs)"
| "ts_effect _ h vs ws \<longleftrightarrow> ws = vs"

lemma contents_same: "same_data (nodes s) h \<Longrightarrow> tlist (nodes s) xs \<Longrightarrow> set ys \<subseteq> set xs \<Longrightarrow>
  map (value_at h) ys = map (value_at (nodes s)) ys"
  using same_data_value tlist_data by (metis (mono_tags, lifting) map_eq_conv subsetD)

lemma link_inv:
  assumes i: "ts_inv s xs" and t: "tph s t = TLink a" and h: "link_front a (nodes s) = Inr h"
  shows "ts_inv (s\<lparr>nodes := h, locks := (locks s)(0 := None), tph := (tph s)(t := TOut None)\<rparr>) (a # xs) \<and>
    map (value_at h) (a # xs) = value_at (nodes s) a # contents s xs"
proof
  have a: "a \<notin> set (0 # xs)" "has_data (nodes s) a" using owned_node [OF i, of a t] t by auto
  from link_front_list [OF ts_invD(1) [OF i] a] h have
    l: "tlist h (a # xs)" "same_data (nodes s) h" "\<forall>x. x \<noteq> 0 \<longrightarrow> x \<noteq> a \<longrightarrow> h x = nodes s x" by auto
  show "ts_inv (s\<lparr>nodes := h, locks := (locks s)(0 := None), tph := (tph s)(t := TOut None)\<rparr>) (a # xs)"
  proof (rule ts_inv_nodes [OF i l(1)])
    show "locked_by ((locks s)(0 := None)) ((tph s)(t := TOut None))"
      by (rule locked_drop [OF ts_invD(2) [OF i]]) (simp_all add: t)
    show "apart ((tph s)(t := TOut None))" by (rule apart_shrink [OF ts_invD(3) [OF i]]) simp
    show "phase_ok h (a # xs) (TOut None)" by (simp add: phase_ok_def)
    show "\<forall>u x. u \<noteq> t \<longrightarrow> x \<in> holds (tph s u) \<longrightarrow> x \<in> set (0 # a # xs) \<and> h x = nodes s x"
    proof (intro allI impI)
      fix u x assume u: "u \<noteq> t" "x \<in> holds (tph s u)"
      have "x \<in> set (0 # xs)" by (rule held_node [OF i u(2)])
      moreover have "x \<noteq> 0" using held_once [OF i, of 0 t u] u t by (intro notI) auto
      ultimately show "x \<in> set (0 # a # xs) \<and> h x = nodes s x" using l(3) a(1) by auto
    qed
    show "\<forall>u x. u \<noteq> t \<longrightarrow> x \<in> owns (tph s u) \<longrightarrow> x \<notin> set (0 # a # xs) \<and> h x = nodes s x"
    proof (intro allI impI)
      fix u x assume u: "u \<noteq> t" "x \<in> owns (tph s u)"
      have "x \<noteq> a" using owned_once [OF i, of a t u] u t by auto
      then show "x \<notin> set (0 # a # xs) \<and> h x = nodes s x" using owned_node [OF i u(2)] l(3) by auto
    qed
  qed
  show "map (value_at h) (a # xs) = value_at (nodes s) a # contents s xs"
    using contents_same [OF l(2) ts_invD(1) [OF i] subset_refl] same_data_value [OF l(2) a(2)]
    by (simp add: contents_def)
qed

lemma take_inv:
  assumes i: "ts_inv s xs" and t: "tph s t = TRBoth P c n" and h: "unlink c n (nodes s) = Inr h"
  shows "\<exists>xs'. ts_inv (s\<lparr>nodes := h, locks := (locks s)(n := None), tph := (tph s)(t := TRFree P c n)\<rparr>) xs' \<and>
    (\<exists>us ys. 0 # xs = us @ c # n # ys \<and> 0 # xs' = us @ c # ys) \<and>
    (\<exists>us zs. contents s xs = us @ value_at (nodes s) n # zs \<and> map (value_at h) xs' = us @ zs)"
proof -
  have hc: "c \<in> holds (tph s t)" "n \<in> holds (tph s t)" using t by auto
  have nx: "next_of (nodes s) c = Inr (Some n)" using ts_invD(4) [OF i, of t] t by (simp add: phase_ok_def)
  obtain us ys where xs: "0 # xs = us @ c # n # ys" using ts_inv_next [OF i held_node [OF i hc(1)] nx] by blast
  let ?xs = "tl (us @ c # ys)"
  from unlink_list [OF ts_invD(1) [OF i] xs] h have
    l: "tlist h ?xs" "0 # ?xs = us @ c # ys" "same_data (nodes s) h" "\<forall>x. x \<noteq> c \<longrightarrow> x \<noteq> n \<longrightarrow> h x = nodes s x"
    by auto
  have d: "distinct (us @ c # n # ys)" using ts_invD(1) [OF i] xs by (simp add: tlist_def)
  have n0: "n \<in> set xs" using xs by (cases us) auto
  have new: "x \<in> set (0 # ?xs) \<longleftrightarrow> x \<in> set (0 # xs) \<and> x \<noteq> n" for x
    unfolding l(2) xs using d by auto
  have ts: "ts_inv (s\<lparr>nodes := h, locks := (locks s)(n := None), tph := (tph s)(t := TRFree P c n)\<rparr>) ?xs"
  proof (rule ts_inv_nodes [OF i l(1)])
    show "locked_by ((locks s)(n := None)) ((tph s)(t := TRFree P c n))"
      by (rule locked_drop [OF ts_invD(2) [OF i]]) (use d t in auto)
    show "apart ((tph s)(t := TRFree P c n))"
    proof (rule apart_grow [OF ts_invD(3) [OF i]], intro allI impI)
      fix u
      have "n \<notin> owns (tph s u)" using owned_node [OF i, of n u] n0 by auto
      then show "owns (TRFree P c n) \<inter> owns (tph s u) = {}" by simp
    qed
    have "has_data h n" using tlist_data [OF ts_invD(1) [OF i] n0] same_data_has [OF l(3)] by blast
    moreover have "c \<in> set (0 # ?xs)" "n \<notin> set (0 # ?xs)" unfolding l(2) using d by auto
    ultimately show "phase_ok h ?xs (TRFree P c n)" by (simp add: phase_ok_def)
    show "\<forall>u x. u \<noteq> t \<longrightarrow> x \<in> holds (tph s u) \<longrightarrow> x \<in> set (0 # ?xs) \<and> h x = nodes s x"
    proof (intro allI impI)
      fix u x assume u: "u \<noteq> t" "x \<in> holds (tph s u)"
      have "x \<noteq> c" "x \<noteq> n" using held_once [OF i hc(1) u(1)] held_once [OF i hc(2) u(1)] u(2) by auto
      then show "x \<in> set (0 # ?xs) \<and> h x = nodes s x" using held_node [OF i u(2)] l(4) new by blast
    qed
    show "\<forall>u x. u \<noteq> t \<longrightarrow> x \<in> owns (tph s u) \<longrightarrow> x \<notin> set (0 # ?xs) \<and> h x = nodes s x"
    proof (intro allI impI)
      fix u x assume u: "u \<noteq> t" "x \<in> owns (tph s u)"
      have "x \<notin> set (0 # xs)" using owned_node [OF i u(2)] by blast
      moreover have "x \<noteq> c" "x \<noteq> n" using calculation held_node [OF i hc(1)] held_node [OF i hc(2)] by auto
      ultimately show "x \<notin> set (0 # ?xs) \<and> h x = nodes s x" using l(4) new by blast
    qed
  qed
  have split: "\<exists>as bs. xs = as @ n # bs \<and> ?xs = as @ bs"
  proof (cases us)
    case Nil
    then show ?thesis using xs by (intro exI [of _ "[]"] exI [of _ ys]) auto
  next
    case (Cons u vs)
    then show ?thesis using xs by (intro exI [of _ "vs @ [c]"] exI [of _ ys]) auto
  qed
  then obtain as bs where "xs = as @ n # bs" "?xs = as @ bs" by blast
  moreover from this have sub: "set ?xs \<subseteq> set xs" by auto
  ultimately have "contents s xs = map (value_at (nodes s)) as @ value_at (nodes s) n # map (value_at (nodes s)) bs"
    "map (value_at h) ?xs = map (value_at (nodes s)) as @ map (value_at (nodes s)) bs"
    using contents_same [OF l(3) ts_invD(1) [OF i] sub] by (simp_all add: contents_def)
  then show ?thesis using ts xs l(2) by blast
qed

lemma free_inv:
  assumes i: "ts_inv s xs" and t: "tph s t = TRFree P c n"
  shows "ts_inv (s\<lparr>nodes := (nodes s)(n := None), tph := (tph s)(t := TRem P c)\<rparr>) xs \<and>
    map (value_at ((nodes s)(n := None))) xs = contents s xs"
proof
  have n: "n \<notin> set (0 # xs)" using owned_node [OF i, of n t] t by auto
  let ?h = "(nodes s)(n := None)"
  have "ts_inv (s\<lparr>nodes := ?h, locks := locks s, tph := (tph s)(t := TRem P c)\<rparr>) xs"
  proof (rule ts_inv_nodes [OF i])
    show "tlist ?h xs" by (rule tlist_frame [OF ts_invD(1) [OF i]]) (use n in auto)
    show "locked_by (locks s) ((tph s)(t := TRem P c))"
      by (rule locked_same [OF ts_invD(2) [OF i]]) (simp add: t)
    show "apart ((tph s)(t := TRem P c))" by (rule apart_shrink [OF ts_invD(3) [OF i]]) simp
    show "phase_ok ?h xs (TRem P c)" using held_node [OF i, of c t] t by (simp add: phase_ok_def)
    show "\<forall>u x. u \<noteq> t \<longrightarrow> x \<in> holds (tph s u) \<longrightarrow> x \<in> set (0 # xs) \<and> ?h x = nodes s x"
      using held_node [OF i] n by (auto simp del: list.set)
    show "\<forall>u x. u \<noteq> t \<longrightarrow> x \<in> owns (tph s u) \<longrightarrow> x \<notin> set (0 # xs) \<and> ?h x = nodes s x"
      using owned_node [OF i] owned_once [OF i, of n t] t by (auto simp del: list.set)
  qed
  then show "ts_inv (s\<lparr>nodes := ?h, tph := (tph s)(t := TRem P c)\<rparr>) xs" by simp
  show "map (value_at ?h) xs = contents s xs" using n by (auto simp: contents_def value_at_def)
qed

lemma ts_move_inv:
  assumes m: "ts_move t s s'" and i: "ts_inv s xs"
  shows "\<exists>xs'. ts_inv s' xs' \<and> ts_effect (tph s t) (nodes s) (contents s xs) (contents s' xs')"
  using m
proof cases
  case (p_lock a)
  have "phase_ok (nodes s) xs (TLink a)" using ts_invD(4) [OF i, of t] p_lock(2) by (simp add: phase_ok_def)
  then have "ts_inv s' xs" unfolding p_lock(1)
    by (intro ts_inv_locks [OF i] locked_take [OF ts_invD(2) [OF i]]) (simp_all add: p_lock)
  then show ?thesis by (auto simp: p_lock contents_def)
next
  case (p_link a h)
  then show ?thesis using link_inv [OF i p_link(2,3)] by (intro exI [of _ "a # xs"]) (simp add: contents_def)
next
  case (f_lock P)
  have "ts_inv s' xs" unfolding f_lock(1)
    by (intro ts_inv_locks [OF i] locked_take [OF ts_invD(2) [OF i]]) (simp_all add: f_lock phase_ok_def)
  then show ?thesis by (auto simp: f_lock contents_def)
next
  case (f_next P c n)
  have c: "c \<in> set (0 # xs)" using held_node [OF i, of c t] f_next(2) by simp
  obtain us ys where "0 # xs = us @ c # n # ys" using ts_inv_next [OF i c f_next(3)] by blast
  then have "n \<in> set (0 # xs)" by simp
  then have "phase_ok (nodes s) xs (TBoth P c n)" using c f_next(3) by (simp add: phase_ok_def)
  then have "ts_inv s' xs" unfolding f_next(1)
    by (intro ts_inv_locks [OF i] locked_take [OF ts_invD(2) [OF i]]) (auto simp: f_next)
  then show ?thesis by (auto simp: f_next contents_def)
next
  case (f_end P c)
  have "ts_inv s' xs" unfolding f_end(1)
    by (intro ts_inv_locks [OF i] locked_drop [OF ts_invD(2) [OF i]]) (auto simp: f_end phase_ok_def)
  then show ?thesis by (auto simp: f_end contents_def)
next
  case (f_unlock P c n)
  have h: "c \<in> set (0 # xs)" "n \<in> set (0 # xs)" using held_node [OF i, of _ t] f_unlock(2) by simp_all
  have nx: "next_of (nodes s) c = Inr (Some n)" using ts_invD(4) [OF i, of t] f_unlock(2) by (simp add: phase_ok_def)
  obtain us ys where xs: "0 # xs = us @ c # n # ys" using ts_inv_next [OF i h(1) nx] by blast
  have cn: "c \<noteq> n" "n \<in> set xs"
    using ts_invD(1) [OF i] xs by (auto simp: tlist_def) (cases us; auto)+
  then have "phase_ok (nodes s) xs (TTest P n)" by (simp add: phase_ok_def)
  then have "ts_inv s' xs" unfolding f_unlock(1)
    by (intro ts_inv_locks [OF i] locked_drop [OF ts_invD(2) [OF i]]) (use cn in \<open>auto simp: f_unlock\<close>)
  then show ?thesis by (auto simp: f_unlock contents_def)
next
  case (f_hit P n v)
  have "ts_inv s' xs" unfolding f_hit(1)
    by (intro ts_inv_locks [OF i] locked_drop [OF ts_invD(2) [OF i]]) (auto simp: f_hit phase_ok_def)
  then show ?thesis by (auto simp: f_hit contents_def)
next
  case (f_miss P n v)
  have "ts_inv s' xs" unfolding f_miss(1)
    by (intro ts_inv_phase [OF i]) (use held_node [OF i, of n t] f_miss(2) in \<open>auto simp: phase_ok_def\<close>)
  then show ?thesis by (auto simp: f_miss contents_def)
next
  case (r_lock P)
  have "ts_inv s' xs" unfolding r_lock(1)
    by (intro ts_inv_locks [OF i] locked_take [OF ts_invD(2) [OF i]]) (simp_all add: r_lock phase_ok_def)
  then show ?thesis by (auto simp: r_lock contents_def)
next
  case (r_next P c n)
  have c: "c \<in> set (0 # xs)" using held_node [OF i, of c t] r_next(2) by simp
  obtain us ys where "0 # xs = us @ c # n # ys" using ts_inv_next [OF i c r_next(3)] by blast
  then have "n \<in> set (0 # xs)" by simp
  then have "phase_ok (nodes s) xs (TRBoth P c n)" using c r_next(3) by (simp add: phase_ok_def)
  then have "ts_inv s' xs" unfolding r_next(1)
    by (intro ts_inv_locks [OF i] locked_take [OF ts_invD(2) [OF i]]) (auto simp: r_next)
  then show ?thesis by (auto simp: r_next contents_def)
next
  case (r_end P c)
  have "ts_inv s' xs" unfolding r_end(1)
    by (intro ts_inv_locks [OF i] locked_drop [OF ts_invD(2) [OF i]]) (auto simp: r_end phase_ok_def)
  then show ?thesis by (auto simp: r_end contents_def)
next
  case (r_take P c n v h)
  have n: "value_at (nodes s) n = v"
    using r_take(3) by (auto simp: data_at_def value_at_def node_at_def split: option.splits)
  from take_inv [OF i r_take(2,5)] r_take(4) show ?thesis by (auto simp: r_take(1,2) contents_def n)
next
  case (r_skip P c n v)
  have n: "value_at (nodes s) n = v"
    using r_skip(3) by (auto simp: data_at_def value_at_def node_at_def split: option.splits)
  have nx: "next_of (nodes s) c = Inr (Some n)" "c \<in> set (0 # xs)" "n \<in> set (0 # xs)"
    using ts_invD(4) [OF i, of t] r_skip(2) by (simp_all add: phase_ok_def)
  obtain us ys where "0 # xs = us @ c # n # ys" using ts_inv_next [OF i nx(2,1)] by blast
  then have cn: "c \<noteq> n" using ts_invD(1) [OF i] by (auto simp: tlist_def)
  have "ts_inv s' xs" unfolding r_skip(1)
    by (intro ts_inv_locks [OF i] locked_drop [OF ts_invD(2) [OF i]]) (use cn nx(3) in \<open>auto simp: r_skip phase_ok_def\<close>)
  then show ?thesis using r_skip(4) by (auto simp: r_skip(1,2) contents_def n)
next
  case (r_free P c n)
  then show ?thesis using free_inv [OF i r_free(2)] by (auto simp: contents_def)
qed

lemma ts_call_inv:
  assumes c: "ts_call t s s'" and i: "ts_inv s xs"
  shows "ts_inv s' xs \<and> contents s' xs = contents s xs"
  using c
proof cases
  case (push r a v)
  have a: "a \<notin> set (0 # xs)" using tlist_alloc [OF ts_invD(1) [OF i], of a] push(3) by fastforce
  have no: "a \<notin> owns (tph s u)" for u using owned_node [OF i, of a u] push(3) by (auto simp: has_data_def)
  let ?h = "new_node a v (nodes s)"
  have h: "?h x = nodes s x" if "x \<noteq> a" for x using that by (simp add: new_node_def)
  have "ts_inv (s\<lparr>nodes := ?h, locks := locks s, tph := (tph s)(t := TPush a)\<rparr>) xs"
  proof (rule ts_inv_nodes [OF i])
    show "tlist ?h xs" by (rule tlist_frame [OF ts_invD(1) [OF i]], intro ballI h) (use a in blast)
    show "locked_by (locks s) ((tph s)(t := TPush a))"
      by (rule locked_same [OF ts_invD(2) [OF i]]) (simp add: push(2))
    show "apart ((tph s)(t := TPush a))" by (rule apart_grow [OF ts_invD(3) [OF i]]) (use no in auto)
    show "phase_ok ?h xs (TPush a)" using a by (simp add: phase_ok_def has_data_def new_node_def)
    show "\<forall>u x. u \<noteq> t \<longrightarrow> x \<in> holds (tph s u) \<longrightarrow> x \<in> set (0 # xs) \<and> ?h x = nodes s x"
      using held_node [OF i] a h by (metis (no_types))
    show "\<forall>u x. u \<noteq> t \<longrightarrow> x \<in> owns (tph s u) \<longrightarrow> x \<notin> set (0 # xs) \<and> ?h x = nodes s x"
      using owned_node [OF i] no h by (metis (no_types))
  qed
  moreover have "map (value_at ?h) xs = map (value_at (nodes s)) xs"
    using a by (auto simp: value_at_def new_node_def)
  ultimately show ?thesis by (simp add: push(1) contents_def)
next
  case (find r P)
  have "ts_inv s' xs" unfolding find(1) by (rule ts_inv_phase [OF i]) (simp_all add: find phase_ok_def)
  then show ?thesis by (simp add: find contents_def)
next
  case (remove r P)
  have "ts_inv s' xs" unfolding remove(1) by (rule ts_inv_phase [OF i]) (simp_all add: remove phase_ok_def)
  then show ?thesis by (simp add: remove contents_def)
qed

lemma ts_reach_inv: "ts_reach s \<Longrightarrow> \<exists>xs. ts_inv s xs"
proof (induction rule: ts_reach.induct)
  case init
  have "ts_inv ts_start []"
    by (simp add: ts_inv_def ts_start_def tlist_new locked_by_def apart_def phase_ok_def)
  then show ?case ..
next
  case (call s t s')
  then show ?case using ts_call_inv by blast
next
  case (move s t s')
  then show ?case using ts_move_inv by blast
qed

section \<open>Waiting\<close>

text \<open>A thread that is not outside and does not want the head moves, if the node after the one it holds is
  not locked.\<close>

lemma holder_moves:
  assumes i: "ts_inv s xs" and x: "x \<in> holds (tph s t)"
    and free: "\<And>us n ys. 0 # xs = us @ x # n # ys \<Longrightarrow> locks s n = None"
  shows "\<exists>s'. ts_move t s s'"
proof (cases "tph s t")
  case (TLink a)
  have "a \<notin> set (0 # xs)" "has_data (nodes s) a" using owned_node [OF i, of a t] TLink by auto
  then obtain h where "link_front a (nodes s) = Inr h" using link_front_list [OF ts_invD(1) [OF i]] by blast
  then show ?thesis using p_link [OF TLink] by blast
next
  case (TFind P c)
  then have c: "x = c" using x by simp
  obtain us ys where u: "0 # xs = us @ c # ys" "next_of (nodes s) c = Inr (case ys of [] \<Rightarrow> None | y # _ \<Rightarrow> Some y)"
    using ts_inv_split [OF i held_node [OF i x]] c by blast
  then show ?thesis
  proof (cases ys)
    case Nil
    then show ?thesis using f_end [OF TFind] u by auto
  next
    case (Cons n zs)
    then show ?thesis using f_next [OF TFind] u free c by auto
  qed
next
  case (TBoth P c n)
  then show ?thesis using f_unlock by blast
next
  case (TTest P n)
  have "n \<in> set xs" using ts_invD(4) [OF i, of t] TTest by (simp add: phase_ok_def)
  then have "data_at (nodes s) n = Inr (value_at (nodes s) n)" using tlist_data [OF ts_invD(1) [OF i]] by simp
  then show ?thesis using f_hit [OF TTest] f_miss [OF TTest] by blast
next
  case (TRem P c)
  then have c: "x = c" using x by simp
  obtain us ys where u: "0 # xs = us @ c # ys" "next_of (nodes s) c = Inr (case ys of [] \<Rightarrow> None | y # _ \<Rightarrow> Some y)"
    using ts_inv_split [OF i held_node [OF i x]] c by blast
  then show ?thesis
  proof (cases ys)
    case Nil
    then show ?thesis using r_end [OF TRem] u by auto
  next
    case (Cons n zs)
    then show ?thesis using r_next [OF TRem] u free c by auto
  qed
next
  case (TRBoth P c n)
  have nx: "next_of (nodes s) c = Inr (Some n)" "c \<in> set (0 # xs)"
    using ts_invD(4) [OF i, of t] TRBoth by (simp_all add: phase_ok_def)
  obtain us ys where xs: "0 # xs = us @ c # n # ys" using ts_inv_next [OF i nx(2,1)] by blast
  then have "n \<in> set xs" by (cases us) auto
  then have "data_at (nodes s) n = Inr (value_at (nodes s) n)" using tlist_data [OF ts_invD(1) [OF i]] by simp
  moreover obtain h where "unlink c n (nodes s) = Inr h" using unlink_list [OF ts_invD(1) [OF i] xs] by blast
  ultimately show ?thesis using r_take [OF TRBoth] r_skip [OF TRBoth] by blast
next
  case (TRFree P c n)
  then show ?thesis using r_free by blast
qed (use x in auto)

text \<open>The locked node that is furthest down the list.\<close>

lemma last_locked:
  assumes "x \<in> set ys" "l x \<noteq> None"
  shows "\<exists>us z zs. ys = us @ z # zs \<and> l z \<noteq> None \<and> (\<forall>n \<in> set zs. l n = None)"
  using split_list_last_prop [of ys "\<lambda>x. l x \<noteq> None"] assms by blast

lemma someone_moves:
  assumes i: "ts_inv s xs" and t: "\<forall>r. tph s t \<noteq> TOut r"
  shows "\<exists>u s'. ts_move u s s'"
proof (cases "\<exists>x. locks s x \<noteq> None")
  case True
  then obtain x u where x: "locks s x = Some u" by auto
  then have "x \<in> holds (tph s u)" using ts_invD(2) [OF i] by (simp add: locked_by_def)
  from last_locked [OF held_node [OF i this], of "locks s"] x obtain us z zs where
    z: "0 # xs = us @ z # zs" "locks s z \<noteq> None" "\<forall>n \<in> set zs. locks s n = None" by auto
  then obtain w where "locks s z = Some w" by auto
  then have w: "z \<in> holds (tph s w)" using ts_invD(2) [OF i] by (simp add: locked_by_def)
  have "locks s n = None" if "0 # xs = vs @ z # n # ys" for vs n ys
  proof -
    have "distinct (us @ z # zs)" using ts_invD(1) [OF i] z(1) by (simp add: tlist_def)
    then have "zs = n # ys" using z(1) that by (auto simp: append_eq_append_conv2 append_eq_Cons_conv Cons_eq_append_conv)
    then show ?thesis using z(3) by simp
  qed
  then show ?thesis using holder_moves [OF i w] by blast
next
  case False
  then have free: "locks s x = None" for x by simp
  show ?thesis
  proof (cases "holds (tph s t) = {}")
    case True
    then consider r where "tph s t = TOut r" | a where "tph s t = TPush a" | P where "tph s t = TWantF P"
      | P where "tph s t = TWantR P" by (cases "tph s t") auto
    then show ?thesis
    proof cases
      case 1
      then show ?thesis using t by blast
    next
      case 2
      then show ?thesis using p_lock [OF 2 free] by blast
    next
      case 3
      then show ?thesis using f_lock [OF 3 free] by blast
    next
      case 4
      then show ?thesis using r_lock [OF 4 free] by blast
    qed
  next
    case False
    then show ?thesis using locked_byD [OF ts_invD(2) [OF i], of _ t] free by fastforce
  qed
qed

section \<open>The work that remains\<close>

text \<open>The number of nodes behind a node, and the steps a thread still makes at most: \<open>k\<close> bounds the length the
  list can have when a waiting thread gets the head.\<close>

definition behind :: "nat list \<Rightarrow> nat \<Rightarrow> nat" where
  "behind l c = length (tl (dropWhile (\<lambda>y. y \<noteq> c) l))"

fun todo :: "nat \<Rightarrow> nat list \<Rightarrow> 'a tphase \<Rightarrow> nat" where
  "todo k l (TOut _) = 0"
| "todo k l (TPush _) = 2"
| "todo k l (TLink _) = 1"
| "todo k l (TWantF _) = 3 * k + 2"
| "todo k l (TFind _ c) = 3 * behind l c + 1"
| "todo k l (TBoth _ c n) = 3 * behind l n + 3"
| "todo k l (TTest _ n) = 3 * behind l n + 2"
| "todo k l (TWantR _) = 3 * k + 2"
| "todo k l (TRem _ c) = 3 * behind l c + 1"
| "todo k l (TRBoth _ c n) = 3 * behind l n + 3"
| "todo k l (TRFree _ c n) = 3 * behind l c + 2"

fun pushing :: "'a tphase \<Rightarrow> bool" where
  "pushing (TPush _) = True"
| "pushing (TLink _) = True"
| "pushing _ = False"

definition inside :: "(nat \<Rightarrow> 'a tphase) \<Rightarrow> nat set" where
  "inside ph = {t. \<forall>r. ph t \<noteq> TOut r}"

definition longest :: "(nat \<Rightarrow> 'a tphase) \<Rightarrow> nat list \<Rightarrow> nat" where
  "longest ph xs = length xs + card {t. pushing (ph t)}"

definition ts_work :: "(nat \<Rightarrow> 'a tphase) \<Rightarrow> nat list \<Rightarrow> nat" where
  "ts_work ph xs = (\<Sum>t \<in> inside ph. todo (longest ph xs) (0 # xs) (ph t))"

lemma behind_split: "distinct (us @ c # ys) \<Longrightarrow> behind (us @ c # ys) c = length ys"
  by (induction us) (auto simp: behind_def)

lemma behind_remove: "c \<noteq> n \<Longrightarrow> behind (us @ ys) c \<le> behind (us @ n # ys) c"
  by (induction us) (auto simp: behind_def)

lemma todo_mono:
  "k' \<le> k \<Longrightarrow> \<forall>x \<in> holds p. behind l' x \<le> behind l x \<Longrightarrow> todo k' l' p \<le> todo k l p"
  by (cases p) auto

lemma pushing_inside: "{t. pushing (ph t)} \<subseteq> inside ph"
proof
  fix t assume "t \<in> {t. pushing (ph t)}"
  then show "t \<in> inside ph" by (cases "ph t") (auto simp: inside_def)
qed

lemma longest_keep:
  assumes "finite (inside ph)" "pushing p \<longrightarrow> pushing (ph t)" "length xs' \<le> length xs"
  shows "longest (ph(t := p)) xs' \<le> longest ph xs"
proof -
  have "card {u. pushing ((ph(t := p)) u)} \<le> card {u. pushing (ph u)}"
    by (rule card_mono [OF finite_subset [OF pushing_inside assms(1)]]) (use assms(2) in auto)
  then show ?thesis using assms(3) by (simp add: longest_def)
qed

lemma longest_link:
  assumes "finite (inside ph)" "pushing (ph t)" "\<not> pushing p"
  shows "longest (ph(t := p)) (a # xs) \<le> longest ph xs"
proof -
  have "{u. pushing ((ph(t := p)) u)} = {u. pushing (ph u)} - {t}" using assms(3) by auto
  then have "Suc (card {u. pushing ((ph(t := p)) u)}) = card {u. pushing (ph u)}"
    using card.remove [OF finite_subset [OF pushing_inside assms(1)], of t] assms(2) by simp
  then show ?thesis by (simp add: longest_def)
qed

lemma work_less:
  assumes fin: "finite (inside ph)" and k: "longest (ph(t := p)) xs' \<le> longest ph xs"
    and t: "todo (longest (ph(t := p)) xs') (0 # xs') p < todo (longest ph xs) (0 # xs) (ph t)"
    and others: "\<forall>u x. u \<noteq> t \<longrightarrow> x \<in> holds (ph u) \<longrightarrow> behind (0 # xs') x \<le> behind (0 # xs) x"
  shows "ts_work (ph(t := p)) xs' < ts_work ph xs"
proof -
  have tin: "t \<in> inside ph" using t by (cases "ph t") (auto simp: inside_def)
  have sub: "inside (ph(t := p)) \<subseteq> inside ph" using tin by (auto simp: inside_def)
  let ?f = "\<lambda>u. todo (longest (ph(t := p)) xs') (0 # xs') ((ph(t := p)) u)"
  have "ts_work (ph(t := p)) xs' = sum ?f (inside ph)" unfolding ts_work_def
  proof (rule sum.mono_neutral_left [OF fin sub], intro ballI)
    fix u assume "u \<in> inside ph - inside (ph(t := p))"
    then obtain r where "(ph(t := p)) u = TOut r" by (auto simp: inside_def)
    then show "?f u = 0" by simp
  qed
  also have "\<dots> < ts_work ph xs" unfolding ts_work_def
  proof (rule sum_strict_mono_ex1 [OF fin])
    show "\<forall>u \<in> inside ph. ?f u \<le> todo (longest ph xs) (0 # xs) (ph u)"
    proof
      fix u
      show "?f u \<le> todo (longest ph xs) (0 # xs) (ph u)"
      proof (cases "u = t")
        case False
        then have "\<forall>x \<in> holds (ph u). behind (0 # xs') x \<le> behind (0 # xs) x" using others by blast
        from todo_mono [OF k this] False show ?thesis by simp
      qed (use t in simp)
    qed
    show "\<exists>u \<in> inside ph. ?f u < todo (longest ph xs) (0 # xs) (ph u)" using tin t by auto
  qed
  finally show ?thesis .
qed

lemma work_same_list:
  assumes "finite (inside ph)" "pushing p \<longrightarrow> pushing (ph t)"
    "\<And>k k'. k' \<le> k \<Longrightarrow> length xs \<le> k \<Longrightarrow> todo k' (0 # xs) p < todo k (0 # xs) (ph t)"
  shows "ts_work (ph(t := p)) xs < ts_work ph xs"
proof (rule work_less [OF assms(1)])
  show k: "longest (ph(t := p)) xs \<le> longest ph xs" by (rule longest_keep [OF assms(1,2)]) simp
  show "todo (longest (ph(t := p)) xs) (0 # xs) p < todo (longest ph xs) (0 # xs) (ph t)"
    by (rule assms(3) [OF k]) (simp add: longest_def)
qed simp

lemma ts_behind:
  assumes i: "ts_inv s xs"
  shows "behind (0 # xs) 0 = length xs"
    and "next_of (nodes s) c = Inr (Some n) \<Longrightarrow> c \<in> set (0 # xs) \<Longrightarrow> behind (0 # xs) c = Suc (behind (0 # xs) n)"
proof -
  show "behind (0 # xs) 0 = length xs" by (simp add: behind_def)
  assume "next_of (nodes s) c = Inr (Some n)" "c \<in> set (0 # xs)"
  then obtain us ys where xs: "0 # xs = us @ c # n # ys" using ts_inv_next [OF i] by blast
  have "distinct (us @ c # n # ys)" using ts_invD(1) [OF i] xs by (simp add: tlist_def)
  then show "behind (0 # xs) c = Suc (behind (0 # xs) n)"
    using behind_split [of us c "n # ys"] behind_split [of "us @ [c]" n ys] unfolding xs by simp
qed

lemma nchain_unique: "nchain h p xs None \<Longrightarrow> nchain h p ys None \<Longrightarrow> xs = ys"
  by (induction xs arbitrary: p ys; case_tac ys) auto

lemma ts_inv_unique: "ts_inv s xs \<Longrightarrow> tlist (nodes s) ys \<Longrightarrow> ys = xs"
  unfolding ts_inv_def tlist_def using nchain_unique [of "nodes s" "Some 0" "0 # xs" "0 # ys"] by blast

lemma ts_link_work:
  assumes i: "ts_inv s xs" and fin: "finite (inside (tph s))" and t: "tph s t = TLink a"
  shows "ts_work ((tph s)(t := TOut None)) (a # xs) < ts_work (tph s) xs"
proof (rule work_less [OF fin longest_link [OF fin]])
  have a: "a \<notin> set (0 # xs)" using owned_node [OF i, of a t] t by simp
  show "\<forall>u x. u \<noteq> t \<longrightarrow> x \<in> holds (tph s u) \<longrightarrow> behind (0 # a # xs) x \<le> behind (0 # xs) x"
  proof (intro allI impI)
    fix u x assume u: "u \<noteq> t" "x \<in> holds (tph s u)"
    have "x \<noteq> 0" using held_once [OF i, of 0 t u] u t by (intro notI) auto
    moreover have "x \<noteq> a" using held_node [OF i u(2)] a by blast
    ultimately show "behind (0 # a # xs) x \<le> behind (0 # xs) x" by (simp add: behind_def)
  qed
qed (simp_all add: t)

lemma ts_take_work:
  assumes i: "ts_inv s xs" and fin: "finite (inside (tph s))" and t: "tph s t = TRBoth P c n"
    and x: "0 # xs = us @ c # n # ys" "0 # xs' = us @ c # ys"
  shows "ts_work ((tph s)(t := TRFree P c n)) xs' < ts_work (tph s) xs"
proof -
  have d: "distinct (us @ c # n # ys)" using ts_invD(1) [OF i] x(1) by (simp add: tlist_def)
  have len: "length xs' \<le> length xs" using arg_cong [OF x(1), of length] arg_cong [OF x(2), of length] by simp
  show ?thesis
  proof (rule work_less [OF fin longest_keep [OF fin _ len]])
    have "behind (0 # xs') c = length ys" unfolding x(2) by (rule behind_split) (use d in auto)
    moreover have "behind (0 # xs) n = length ys"
      using behind_split [of "us @ [c]" n ys] d unfolding x(1) by simp
    ultimately show "todo (longest ((tph s)(t := TRFree P c n)) xs') (0 # xs') (TRFree P c n) <
        todo (longest (tph s) xs) (0 # xs) (tph s t)" by (simp add: t)
    show "\<forall>u x. u \<noteq> t \<longrightarrow> x \<in> holds (tph s u) \<longrightarrow> behind (0 # xs') x \<le> behind (0 # xs) x"
    proof (intro allI impI)
      fix u z assume u: "u \<noteq> t" "z \<in> holds (tph s u)"
      have "z \<noteq> n" using held_once [OF i, of n t u] u t by auto
      then show "behind (0 # xs') z \<le> behind (0 # xs) z"
        unfolding x using behind_remove [of z n "us @ [c]" ys] by simp
    qed
  qed simp
qed

lemma ts_move_work:
  assumes m: "ts_move t s s'" and i: "ts_inv s xs" and i': "ts_inv s' xs'" and fin: "finite (inside (tph s))"
  shows "ts_work (tph s') xs' < ts_work (tph s) xs"
proof -
  have keep: ?thesis if "nodes s' = nodes s" "tph s' = (tph s)(t := p)" "pushing p \<longrightarrow> pushing (tph s t)"
    "\<And>k k'. k' \<le> k \<Longrightarrow> length xs \<le> k \<Longrightarrow> todo k' (0 # xs) p < todo k (0 # xs) (tph s t)" for p
  proof -
    have "xs' = xs" using ts_inv_unique [OF i] ts_invD(1) [OF i'] that(1) by simp
    then show ?thesis using work_same_list [OF fin that(3,4)] that(2) by simp
  qed
  note next_behind = ts_behind(2) [OF i] and head_behind = ts_behind(1) [OF i]
  show ?thesis using m
  proof cases
    case (p_lock a)
    show ?thesis by (rule keep [of "TLink a"]) (simp_all add: p_lock)
  next
    case (p_link a h)
    have "ts_inv s' (a # xs)" using link_inv [OF i p_link(2,3)] p_link(1) by simp
    then have "xs' = a # xs" using ts_inv_unique ts_invD(1) [OF i'] by blast
    then show ?thesis using ts_link_work [OF i fin p_link(2)] p_link(1) by simp
  next
    case (f_lock P)
    show ?thesis by (rule keep [of "TFind P 0"]) (simp_all add: f_lock head_behind)
  next
    case (f_next P c n)
    have "c \<in> set (0 # xs)" using held_node [OF i, of c t] f_next(2) by simp
    from next_behind [OF f_next(3) this] show ?thesis
      by (intro keep [of "TBoth P c n"]) (simp_all add: f_next)
  next
    case (f_end P c)
    show ?thesis by (rule keep [of "TOut None"]) (simp_all add: f_end)
  next
    case (f_unlock P c n)
    show ?thesis by (rule keep [of "TTest P n"]) (simp_all add: f_unlock)
  next
    case (f_hit P n v)
    show ?thesis by (rule keep [of "TOut (Some v)"]) (simp_all add: f_hit)
  next
    case (f_miss P n v)
    show ?thesis by (rule keep [of "TFind P n"]) (simp_all add: f_miss)
  next
    case (r_lock P)
    show ?thesis by (rule keep [of "TRem P 0"]) (simp_all add: r_lock head_behind)
  next
    case (r_next P c n)
    have "c \<in> set (0 # xs)" using held_node [OF i, of c t] r_next(2) by simp
    from next_behind [OF r_next(3) this] show ?thesis
      by (intro keep [of "TRBoth P c n"]) (simp_all add: r_next)
  next
    case (r_end P c)
    show ?thesis by (rule keep [of "TOut None"]) (simp_all add: r_end)
  next
    case (r_take P c n v h)
    from take_inv [OF i r_take(2,5)] obtain ws us ys where
      x: "ts_inv s' ws" "0 # xs = us @ c # n # ys" "0 # ws = us @ c # ys" unfolding r_take(1) by blast
    have "xs' = ws" using ts_inv_unique [OF x(1)] ts_invD(1) [OF i'] by blast
    then show ?thesis using ts_take_work [OF i fin r_take(2) x(2,3)] r_take(1) by simp
  next
    case (r_skip P c n v)
    show ?thesis by (rule keep [of "TRem P n"]) (simp_all add: r_skip)
  next
    case (r_free P c n)
    have "ts_inv s' xs" using free_inv [OF i r_free(2)] r_free(1) by simp
    then have "xs' = xs" using ts_inv_unique ts_invD(1) [OF i'] by blast
    moreover have "ts_work ((tph s)(t := TRem P c)) xs < ts_work (tph s) xs"
      by (rule work_same_list [OF fin]) (simp_all add: r_free)
    ultimately show ?thesis using r_free(1) by simp
  qed
qed

text \<open>Only finitely many threads are inside at any time.\<close>

lemma inside_insert: "inside (ph(t := p)) \<subseteq> insert t (inside ph)"
  by (auto simp: inside_def)

lemma ts_step_inside: "ts_move t s s' \<or> ts_call t s s' \<Longrightarrow> finite (inside (tph s)) \<Longrightarrow> finite (inside (tph s'))"
proof -
  assume "ts_move t s s' \<or> ts_call t s s'"
  then obtain p where "tph s' = (tph s)(t := p)" by (auto elim!: ts_move.cases ts_call.cases)
  then show "finite (inside (tph s)) \<Longrightarrow> finite (inside (tph s'))"
    using finite_subset [OF inside_insert] by auto
qed

lemma ts_reach_inside: "ts_reach s \<Longrightarrow> finite (inside (tph s))"
  by (induction rule: ts_reach.induct) (use ts_step_inside in \<open>auto simp: inside_def ts_start_def\<close>)

lemma no_infinite_run:
  assumes "ts_reach (f 0)" "\<forall>i. \<exists>t. ts_move t (f i) (f (Suc i))"
  shows False
proof -
  have r: "ts_reach (f i)" for i
  proof (induction i)
    case 0
    show ?case by (rule assms(1))
  next
    case (Suc i)
    then show ?case using assms(2) ts_reach.move by blast
  qed
  obtain l where l: "\<And>i. ts_inv (f i) (l i)" using ts_reach_inv [OF r] by metis
  have "(f (Suc i), f i) \<in> measure (\<lambda>s. ts_work (tph s) (THE xs. ts_inv s xs))" for i
  proof -
    have the: "(THE xs. ts_inv (f j) xs) = l j" for j
      using l ts_inv_unique ts_invD(1) by (intro the_equality) blast+
    obtain t where "ts_move t (f i) (f (Suc i))" using assms(2) by blast
    from ts_move_work [OF this l l ts_reach_inside [OF r]] show ?thesis by (simp add: the)
  qed
  then show False using wf_measure unfolding wf_iff_no_infinite_down_chain by blast
qed

section \<open>A small run\<close>

text \<open>Thread 2 has a new node at address 3 with the value 7, and has then locked the head.\<close>

definition demo_push :: "int tsys" where
  "demo_push = ts_start\<lparr>nodes := new_node 3 7 threadsafe_list, tph := (\<lambda>_. TOut None)(2 := TPush 3)\<rparr>"

definition demo_locked :: "int tsys" where
  "demo_locked = demo_push\<lparr>locks := (\<lambda>_. None)(0 \<mapsto> 2), tph := (\<lambda>_. TOut None)(2 := TLink 3)\<rparr>"

lemma demo_push_reach: "ts_reach demo_push"
proof -
  have "ts_call 2 (ts_start :: int tsys) demo_push"
    using ts_call.push [of "ts_start :: int tsys" 2 None 3 7]
    by (simp add: ts_start_def demo_push_def threadsafe_list_def)
  then show ?thesis by (rule ts_reach.call [OF ts_reach.init])
qed

lemma demo_locked_reach: "ts_reach demo_locked"
proof -
  have "ts_move 2 demo_push demo_locked"
    using p_lock [of demo_push 2 3] by (simp add: demo_push_def demo_locked_def ts_start_def)
  then show ?thesis by (rule ts_reach.move [OF demo_push_reach])
qed

section \<open>Properties\<close>

text \<open>C21: No thread uses a node that was freed: whatever the threads do, the links followed, the data read,
  the mutexes locked and unlocked and the nodes freed in the next step of any thread are those of allocated
  nodes, and no mutex is destroyed while it is locked.\<close>
theorem ts_no_use_after_free:
  assumes "ts_reach s"
  shows "ts_access s t = Inr ()"
proof -
  obtain xs where i: "ts_inv s xs" using ts_reach_inv [OF assms] by blast
  have al: "\<exists>n. nodes s x = Some n" if "x \<in> set (0 # xs)" for x using tlist_alloc [OF ts_invD(1) [OF i] that] .
  have touch: "res_bind (node_at (nodes s) x) (\<lambda>_. Inr ()) = Inr ()" if "x \<in> set (0 # xs)" for x
    using al [OF that] by auto
  have zero: "res_bind (node_at (nodes s) 0) (\<lambda>_. Inr ()) = Inr ()" by (rule touch) simp
  have held: "res_bind (node_at (nodes s) x) (\<lambda>_. Inr ()) = Inr ()" if "x \<in> holds (tph s t)" for x
    using touch held_node [OF i that] by blast
  have nxt: "res_bind (next_of (nodes s) c) (\<lambda>q. case q of None \<Rightarrow> Inr () | Some n \<Rightarrow>
      res_bind (node_at (nodes s) n) (\<lambda>_. Inr ())) = Inr ()" if c: "c \<in> holds (tph s t)" for c
  proof -
    obtain us ys where u: "0 # xs = us @ c # ys" "next_of (nodes s) c = Inr (case ys of [] \<Rightarrow> None | y # _ \<Rightarrow> Some y)"
      using ts_inv_split [OF i held_node [OF i c]] by blast
    show ?thesis
    proof (cases ys)
      case (Cons n zs)
      then have "n \<in> set (0 # xs)" using u(1) by simp
      then show ?thesis using touch [of n] u(2) Cons by simp
    qed (use u in simp)
  qed
  show ?thesis
  proof (cases "tph s t")
    case (TLink a)
    have "a \<notin> set (0 # xs)" "has_data (nodes s) a" using owned_node [OF i, of a t] TLink by auto
    then obtain h where "link_front a (nodes s) = Inr h" using link_front_list [OF ts_invD(1) [OF i]] by blast
    then show ?thesis by (simp add: ts_access_def TLink)
  next
    case (TTest P n)
    have "n \<in> set xs" using ts_invD(4) [OF i, of t] TTest by (simp add: phase_ok_def)
    then show ?thesis using tlist_data [OF ts_invD(1) [OF i]] by (simp add: ts_access_def TTest)
  next
    case (TRBoth P c n)
    have nx: "next_of (nodes s) c = Inr (Some n)" "c \<in> set (0 # xs)"
      using ts_invD(4) [OF i, of t] TRBoth by (simp_all add: phase_ok_def)
    obtain us ys where xs: "0 # xs = us @ c # n # ys" using ts_inv_next [OF i nx(2,1)] by blast
    then have "n \<in> set xs" by (cases us) auto
    moreover obtain h where "unlink c n (nodes s) = Inr h" using unlink_list [OF ts_invD(1) [OF i] xs] by blast
    ultimately show ?thesis using tlist_data [OF ts_invD(1) [OF i]] held [of c]
      by (simp add: ts_access_def TRBoth Let_def)
  next
    case (TRFree P c n)
    have n: "n \<notin> set (0 # xs)" "has_data (nodes s) n" using owned_node [OF i, of n t] TRFree by auto
    have "locks s n = None"
    proof (cases "locks s n")
      case (Some u)
      then have "n \<in> holds (tph s u)" using ts_invD(2) [OF i] by (simp add: locked_by_def)
      with held_node [OF i this] n show ?thesis by blast
    qed
    then show ?thesis using n(2) by (auto simp: ts_access_def TRFree has_data_def Let_def)
  qed (use zero held nxt in \<open>auto simp: ts_access_def Let_def\<close>)
qed

lemma ts_no_use_after_free_witness: "ts_access demo_locked 2 = Inr ()"
  by (rule ts_no_use_after_free [OF demo_locked_reach])

text \<open>C22: At every moment the nodes form one list without a cycle, and each step of a thread acts on its list
  of values as the operation should: only linking the new node adds a value, in front, only taking a node out
  removes one, which satisfies the predicate of that remove_if, and a search only returns a value that
  satisfies its predicate and is in the list at that moment.\<close>
theorem ts_list_changes:
  assumes "ts_reach s" "ts_move t s s' \<or> ts_call t s s'"
  shows "\<exists>xs xs'. tlist (nodes s) xs \<and> tlist (nodes s') xs' \<and>
    ts_effect (tph s t) (nodes s) (contents s xs) (contents s' xs') \<and>
    (\<forall>P n v. tph s t = TTest P n \<and> tph s' t = TOut (Some v) \<longrightarrow> P v \<and> v \<in> set (contents s xs))"
proof -
  obtain xs where i: "ts_inv s xs" using ts_reach_inv [OF assms(1)] by blast
  have found: "P v \<and> v \<in> set (contents s xs)" if p: "tph s t = TTest P n" "tph s' t = TOut (Some v)" for P n v
  proof -
    have n: "n \<in> set xs" using ts_invD(4) [OF i, of t] p(1) by (simp add: phase_ok_def)
    then have "data_at (nodes s) n = Inr (value_at (nodes s) n)" using tlist_data [OF ts_invD(1) [OF i]] by simp
    moreover have "data_at (nodes s) n = Inr v \<and> P v"
      using assms(2) p by (auto elim!: ts_move.cases ts_call.cases)
    ultimately show ?thesis using n by (simp add: contents_def)
  qed
  show ?thesis
  proof (cases "ts_move t s s'")
    case True
    from ts_move_inv [OF this i] obtain xs' where
      "ts_inv s' xs'" "ts_effect (tph s t) (nodes s) (contents s xs) (contents s' xs')" by blast
    then show ?thesis using i found ts_invD(1) by blast
  next
    case False
    then have c: "ts_call t s s'" using assms(2) by blast
    then obtain r where "tph s t = TOut r" by cases
    then show ?thesis using ts_call_inv [OF c i] i found ts_invD(1) ts_effect.simps(3) by metis
  qed
qed

lemma ts_list_changes_witness:
  "\<exists>s' xs' vs. ts_move 2 demo_locked s' \<and> tlist (nodes s') xs' \<and> contents s' xs' = 7 # vs"
proof -
  have e: "tph demo_locked 2 = TLink 3" "value_at (nodes demo_locked) 3 = 7"
    by (simp_all add: demo_locked_def demo_push_def new_node_def value_at_def)
  obtain xs where i: "ts_inv demo_locked xs" using ts_reach_inv [OF demo_locked_reach] by blast
  have "3 \<notin> set (0 # xs)" "has_data (nodes demo_locked) 3" using owned_node [OF i, of 3 2] e(1) by auto
  then obtain h where "link_front 3 (nodes demo_locked) = Inr h"
    using link_front_list [OF ts_invD(1) [OF i]] by blast
  from p_link [OF e(1) this] obtain s' where m: "ts_move 2 demo_locked s'" by blast
  from ts_list_changes [OF demo_locked_reach disjI1 [OF m]] e m show ?thesis by auto
qed

text \<open>C23: The operations of the threads come to an end: as long as some thread is inside an operation, some
  thread inside an operation can take a step, and without new calls only finitely many steps can be taken.\<close>
theorem ts_operations_end:
  assumes "ts_reach s"
  shows "((\<exists>t. \<forall>r. tph s t \<noteq> TOut r) \<longrightarrow> (\<exists>u s'. ts_move u s s')) \<and>
    \<not> (\<exists>f. f 0 = s \<and> (\<forall>i. \<exists>t. ts_move t (f i) (f (Suc i))))"
proof -
  have "\<exists>u s'. ts_move u s s'" if "\<exists>t. \<forall>r. tph s t \<noteq> TOut r"
    using ts_reach_inv [OF assms] someone_moves that by blast
  moreover have "\<not> (\<exists>f. f 0 = s \<and> (\<forall>i. \<exists>t. ts_move t (f i) (f (Suc i))))"
    using no_infinite_run assms by blast
  ultimately show ?thesis by blast
qed

lemma ts_operations_end_witness: "\<exists>u s'. ts_move u demo_push s'"
proof -
  have "\<forall>r. tph demo_push 2 \<noteq> TOut r" by (simp add: demo_push_def)
  with ts_operations_end [OF demo_push_reach] show ?thesis by blast
qed

end
