(* ===== verification/StrSlice.thy ===== *)
theory StrSlice
  imports Prelude "HOL-Library.Sublist"
begin

text \<open>
  The class \<open>Slice\<close> of slice.h: a pointer and a length, owning nothing. The pointer is the list of the
  bytes from it to the end of its object, so that reading past the object is a fault. The theorems
  compare its operations with those on the byte list it denotes.
\<close>

section \<open>Operations\<close>

record slice =
  sdata :: "byte list"
  ssize :: size_t

text \<open>The constructors: empty, from a pointer and a length, from a C string, from a \<open>std::string\<close>, whose
  \<open>c_str()\<close> ends with a terminator.\<close>

definition Slice_empty :: slice where
  "Slice_empty = \<lparr>sdata = [CHR 0x00], ssize = 0\<rparr>"

definition Slice_of :: "byte list \<Rightarrow> size_t \<Rightarrow> slice" where
  "Slice_of p n = \<lparr>sdata = p, ssize = n\<rparr>"

definition strlen_at :: "byte list \<Rightarrow> size_t res" where
  "strlen_at p = check (CHR 0x00 \<in> set p) OutOfBounds (Inr (of_nat (length (takeWhile (\<lambda>c. c \<noteq> CHR 0x00) p))))"

definition Slice_of_cstr :: "byte list \<Rightarrow> slice res" where
  "Slice_of_cstr p = res_bind (strlen_at p) (\<lambda>n. Inr \<lparr>sdata = p, ssize = n\<rparr>)"

definition Slice_of_string :: "byte list \<Rightarrow> slice" where
  "Slice_of_string s = \<lparr>sdata = s @ [CHR 0x00], ssize = of_nat (length s)\<rparr>"

definition slice_empty :: "slice \<Rightarrow> bool" where
  "slice_empty x \<longleftrightarrow> ssize x = 0"

definition slice_index :: "slice \<Rightarrow> size_t \<Rightarrow> byte res" where
  "slice_index x n =
     check (n < ssize x) AssertFail (check (unat n < length (sdata x)) OutOfBounds (Inr (sdata x ! unat n)))"

definition slice_clear :: "slice \<Rightarrow> slice" where
  "slice_clear x = x\<lparr>sdata := [CHR 0x00], ssize := 0\<rparr>"

definition remove_prefix :: "size_t \<Rightarrow> slice \<Rightarrow> slice res" where
  "remove_prefix n x =
     check (n \<le> ssize x) AssertFail
       (check (unat n \<le> length (sdata x)) OutOfBounds
         (Inr (x\<lparr>sdata := drop (unat n) (sdata x), ssize := ssize x - n\<rparr>)))"

definition slice_ToString :: "slice \<Rightarrow> byte list res" where
  "slice_ToString x =
     check (unat (ssize x) \<le> length (sdata x)) OutOfBounds (Inr (take (unat (ssize x)) (sdata x)))"

text \<open>\<open>memcmp\<close>: both objects must have \<open>n\<close> bytes; the first different pair decides, as unsigned chars.\<close>

fun mem_diff :: "byte list \<Rightarrow> byte list \<Rightarrow> int" where
  "mem_diff (a # as) (b # bs) = (if a = b then mem_diff as bs else of_char a - of_char b)"
| "mem_diff _ _ = 0"

definition memcmp :: "byte list \<Rightarrow> byte list \<Rightarrow> size_t \<Rightarrow> int res" where
  "memcmp p q n =
     check (unat n \<le> length p \<and> unat n \<le> length q) OutOfBounds
       (Inr (mem_diff (take (unat n) p) (take (unat n) q)))"

definition starts_with :: "slice \<Rightarrow> slice \<Rightarrow> bool res" where
  "starts_with x s =
     (if ssize s \<le> ssize x then res_bind (memcmp (sdata x) (sdata s) (ssize s)) (\<lambda>r. Inr (r = 0)) else Inr False)"

definition slice_eq :: "slice \<Rightarrow> slice \<Rightarrow> bool res" where
  "slice_eq x y =
     (if ssize x = ssize y then res_bind (memcmp (sdata x) (sdata y) (ssize x)) (\<lambda>r. Inr (r = 0)) else Inr False)"

text \<open>\<open>compare\<close>: the variable \<open>min_len\<close> holds the larger length; the result is converted to \<open>bool\<close>.\<close>

definition slice_compare :: "slice \<Rightarrow> slice \<Rightarrow> bool res" where
  "slice_compare x s =
     (let min_len = (if ssize s < ssize x then ssize x else ssize s) in
      res_bind (memcmp (sdata x) (sdata s) min_len) (\<lambda>r.
        let r = (if r = 0 then (if ssize x < ssize s then -1 else if ssize s < ssize x then 1 else r) else r)
        in Inr (r \<noteq> 0)))"

section \<open>What a slice denotes\<close>

definition slice_ok :: "slice \<Rightarrow> bool" where
  "slice_ok x \<longleftrightarrow> unat (ssize x) \<le> length (sdata x)"

definition view :: "slice \<Rightarrow> byte list" where
  "view x = take (unat (ssize x)) (sdata x)"

lemma length_view: "slice_ok x \<Longrightarrow> length (view x) = unat (ssize x)"
  by (simp add: slice_ok_def view_def)

lemma mem_diff_zero: "length p = length q \<Longrightarrow> mem_diff p q = 0 \<longleftrightarrow> p = q"
  by (induction p q rule: mem_diff.induct) auto

lemma memcmp_zero:
  "unat n \<le> length p \<Longrightarrow> unat n \<le> length q \<Longrightarrow>
   res_bind (memcmp p q n) (\<lambda>r. Inr (r = 0)) = Inr (take (unat n) p = take (unat n) q)"
  by (simp add: memcmp_def mem_diff_zero)

lemma slice_string_ok:
  assumes "length s < 2 ^ 64"
  shows "slice_ok (Slice_of_string s)" "view (Slice_of_string s) = s" "ssize (Slice_of_string s) = of_nat (length s)"
  using assms by (simp_all add: slice_ok_def view_def Slice_of_string_def unat_simps)

lemma slice_ToString_view: "slice_ok x \<Longrightarrow> slice_ToString x = Inr (view x)"
  by (simp add: slice_ok_def slice_ToString_def view_def)

lemma remove_prefix_view:
  assumes "slice_ok x" "unat n \<le> length (view x)"
  shows "\<exists>y. remove_prefix n x = Inr y \<and> slice_ok y \<and> view y = drop (unat n) (view x)"
proof -
  have n: "n \<le> ssize x" "unat n \<le> length (sdata x)" "unat (ssize x - n) = unat (ssize x) - unat n"
    using assms length_view [OF assms(1)] by (auto simp: slice_ok_def size_ord unat_simps)
  then show ?thesis using assms(1) by (simp add: remove_prefix_def slice_ok_def view_def drop_take)
qed

lemma prefix_take_iff: "prefix xs ys \<longleftrightarrow> take (length xs) ys = xs"
  using take_is_prefix [of "length xs" ys] by (auto simp: prefix_def)

lemma starts_with_view:
  assumes "slice_ok x" "slice_ok p"
  shows "starts_with x p = Inr (prefix (view p) (view x))"
proof (cases "ssize p \<le> ssize x")
  case True
  then have le: "unat (ssize p) \<le> unat (ssize x)" by (simp add: size_ord)
  with assms have "starts_with x p = Inr (take (unat (ssize p)) (sdata x) = view p)"
    using True by (simp add: starts_with_def memcmp_zero slice_ok_def view_def)
  moreover have "take (unat (ssize p)) (sdata x) = take (length (view p)) (view x)"
    using le length_view [OF assms(2)] by (simp add: view_def min_absorb1)
  ultimately show ?thesis by (simp add: prefix_take_iff)
next
  case False
  then have "length (view x) < length (view p)" using assms by (simp add: length_view size_ord)
  then show ?thesis using False by (auto simp: starts_with_def dest: prefix_length_le)
qed

section \<open>Properties\<close>

text \<open>C36: A slice made from a string, from characters with a terminator, or from nothing is well formed, and so
  is one made from a pointer and a length exactly when the length does not exceed the object; clear and
  remove_prefix within the length keep it so. What is denoted is the string, the characters before the
  terminator, nothing, the first bytes of the object, and the rest.\<close>
theorem slice_well_formed:
  assumes "length s < 2 ^ 64" "length p < 2 ^ 64" "CHR 0x00 \<in> set p" "slice_ok x" "unat n \<le> length (view x)"
  shows "slice_ok (Slice_of_string s) \<and> view (Slice_of_string s) = s \<and>
    (\<exists>c. Slice_of_cstr p = Inr c \<and> slice_ok c \<and> view c = takeWhile (\<lambda>c. c \<noteq> CHR 0x00) p) \<and>
    slice_ok Slice_empty \<and> view Slice_empty = [] \<and>
    (slice_ok (Slice_of d m) \<longleftrightarrow> unat m \<le> length d) \<and> view (Slice_of d m) = take (unat m) d \<and>
    slice_ok (slice_clear x) \<and> view (slice_clear x) = [] \<and>
    (\<exists>y. remove_prefix n x = Inr y \<and> slice_ok y \<and> view y = drop (unat n) (view x))"
proof -
  let ?n = "length (takeWhile (\<lambda>c. c \<noteq> CHR 0x00) p)"
  have "?n \<le> length p" by (rule length_takeWhile_le)
  then have "\<exists>c. Slice_of_cstr p = Inr c \<and> slice_ok c \<and> view c = takeWhile (\<lambda>c. c \<noteq> CHR 0x00) p"
    using assms(2,3) takeWhile_eq_take [of "\<lambda>c. c \<noteq> CHR 0x00" p]
    by (simp add: Slice_of_cstr_def strlen_at_def slice_ok_def view_def unat_simps)
  then show ?thesis using slice_string_ok [OF assms(1)] remove_prefix_view [OF assms(4,5)]
    by (simp add: Slice_empty_def slice_clear_def Slice_of_def slice_ok_def view_def)
qed

lemma slice_well_formed_witness:
  "(\<exists>y. remove_prefix 1 (Slice_of_string ''abc'') = Inr y \<and> slice_ok y \<and> view y = ''bc'') \<and>
   \<not> slice_ok (Slice_of ''ab'' 3) \<and> view (Slice_of ''abc'' 2) = ''ab''"
proof -
  note s = slice_string_ok [of "''abc''", simplified]
  have "\<exists>y. remove_prefix 1 (Slice_of_string ''abc'') = Inr y \<and> slice_ok y \<and> view y = ''bc''"
    using slice_well_formed [of "''abc''" "[CHR 0x00]" "Slice_of_string ''abc''" 1] s by simp
  moreover have "\<not> slice_ok (Slice_of ''ab'' 3)"
    using slice_well_formed [of "''abc''" "[CHR 0x00]" "Slice_of_string ''abc''" 1 "''ab''" 3] s by simp
  moreover have "view (Slice_of ''abc'' 2) = ''ab''"
    using slice_well_formed [of "''abc''" "[CHR 0x00]" "Slice_of_string ''abc''" 1 "''abc''" 2] s by simp
  ultimately show ?thesis by blast
qed

text \<open>C35: On well-formed slices operator==, starts_with, empty and ToString never read out of bounds and
  decide equality, being a prefix and being empty on the byte lists the slices denote; operator[]
  within the length reads that byte.\<close>
theorem slice_equivalence:
  assumes "slice_ok x" "slice_ok y"
  shows "slice_eq x y = Inr (view x = view y) \<and> starts_with x y = Inr (prefix (view y) (view x)) \<and>
    slice_ToString x = Inr (view x) \<and> slice_empty x = (view x = []) \<and>
    slice_index x n = (if unat n < length (view x) then Inr (view x ! unat n) else Inl AssertFail)"
proof -
  have "slice_eq x y = Inr (view x = view y)"
  proof (cases "ssize x = ssize y")
    case True
    then show ?thesis using assms by (simp add: slice_eq_def memcmp_zero slice_ok_def view_def)
  next
    case False
    then have "length (view x) \<noteq> length (view y)" using assms by (simp add: length_view size_ord)
    then show ?thesis using False by (auto simp: slice_eq_def)
  qed
  moreover have "slice_empty x = (view x = [])"
    using length_view [OF assms(1)] by (auto simp: slice_empty_def size_ord)
  moreover have "slice_index x n = (if unat n < length (view x) then Inr (view x ! unat n) else Inl AssertFail)"
    using assms(1) length_view [OF assms(1)]
    by (auto simp: slice_index_def less64_iff slice_ok_def view_def)
  ultimately show ?thesis using starts_with_view [OF assms] slice_ToString_view [OF assms(1)] by simp
qed

lemma slice_equivalence_witness:
  "slice_eq (Slice_of_string ''ab'') (Slice_of_string ''ac'') = Inr False \<and>
   starts_with (Slice_of_string ''ab'') (Slice_of_string ''a'') = Inr True"
proof -
  note s = slice_string_ok [of "''ab''", simplified] slice_string_ok [of "''ac''", simplified]
    slice_string_ok [of "''a''", simplified]
  from slice_equivalence [OF s(1,4)] slice_equivalence [OF s(1,7)] show ?thesis
    by (simp add: s)
qed

text \<open>A prefix that starts_with finds can be taken off: remove_prefix of its size succeeds, and the
  prefix followed by the text of the remaining slice is the text of the original one.\<close>
theorem slice_strip_prefix:
  assumes "slice_ok x" "slice_ok p" "starts_with x p = Inr True"
  shows "\<exists>y. remove_prefix (ssize p) x = Inr y \<and> slice_ok y \<and>
    (\<exists>s t. slice_ToString p = Inr s \<and> slice_ToString y = Inr t \<and> slice_ToString x = Inr (s @ t))"
proof -
  from assms starts_with_view [OF assms(1,2)] obtain zs where zs: "view x = view p @ zs" by (auto simp: prefix_def)
  then have "unat (ssize p) \<le> length (view x)" using length_view [OF assms(2)] by simp
  from remove_prefix_view [OF assms(1) this] obtain y where
    y: "remove_prefix (ssize p) x = Inr y" "slice_ok y" "view y = drop (unat (ssize p)) (view x)" by blast
  then have "view y = zs" using zs length_view [OF assms(2)] by simp
  with y(1,2) zs show ?thesis
    using slice_ToString_view [OF y(2)] slice_ToString_view [OF assms(1)] slice_ToString_view [OF assms(2)] by simp
qed

lemma slice_strip_prefix_witness:
  "\<exists>y. remove_prefix 1 (Slice_of_string ''ab'') = Inr y \<and> slice_ok y \<and> slice_ToString y = Inr ''b''"
proof -
  note s = slice_string_ok [of "''ab''", simplified] slice_string_ok [of "''a''", simplified]
  have "starts_with (Slice_of_string ''ab'') (Slice_of_string ''a'') = Inr True"
    using starts_with_view [OF s(1,4)] by (simp add: s)
  from slice_strip_prefix [OF s(1,4) this] show ?thesis
    using slice_ToString_view [OF s(1)] slice_ToString_view [OF s(4)] by (auto simp: s)
qed

text \<open>compare passes memcmp the larger of the two lengths. For slices of two strings whose lengths
  differ by more than one it reads past the shorter string; otherwise its result only says whether the
  strings differ, because a bool cannot hold the sign.\<close>
theorem slice_compare_overreads:
  assumes "length s < 2 ^ 64" "length t < 2 ^ 64"
  shows "slice_compare (Slice_of_string s) (Slice_of_string t) =
    (if length s \<le> Suc (length t) \<and> length t \<le> Suc (length s) then Inr (s \<noteq> t) else Inl OutOfBounds)"
proof -
  let ?m = "max (length s) (length t)"
  have u: "unat (of_nat (length s) :: size_t) = length s" "unat (of_nat (length t) :: size_t) = length t"
    using assms by (simp_all add: unat_simps)
  have m: "unat (if (of_nat (length t) :: size_t) < of_nat (length s) then of_nat (length s) else of_nat (length t) :: size_t) = ?m"
    using u by (auto simp: less64_iff)
  let ?p = "s @ [CHR 0x00]" and ?q = "t @ [CHR 0x00]"
  show ?thesis
  proof (cases "length s \<le> Suc (length t) \<and> length t \<le> Suc (length s)")
    case False
    then have "\<not> (?m \<le> length ?p \<and> ?m \<le> length ?q)" by auto
    then have "slice_compare (Slice_of_string s) (Slice_of_string t) = Inl OutOfBounds"
      unfolding slice_compare_def memcmp_def Slice_of_string_def slice.simps Let_def m by simp
    then show ?thesis using False by simp
  next
    case True
    then have le: "?m \<le> length ?p" "?m \<le> length ?q" by auto
    have "length (take ?m ?p) = length (take ?m ?q)" using le by simp
    from mem_diff_zero [OF this] have z: "mem_diff (take ?m ?p) (take ?m ?q) = 0 \<longleftrightarrow> take ?m ?p = take ?m ?q" .
    have "slice_compare (Slice_of_string s) (Slice_of_string t) =
        Inr (take ?m ?p \<noteq> take ?m ?q \<or> length s \<noteq> length t)"
      using le z u unfolding slice_compare_def memcmp_def Slice_of_string_def slice.simps Let_def m
      by (auto simp: less64_iff)
    moreover have "take ?m ?p \<noteq> take ?m ?q \<or> length s \<noteq> length t \<longleftrightarrow> s \<noteq> t"
      by (cases "length s = length t") auto
    ultimately show ?thesis using True by simp
  qed
qed

lemma slice_compare_overreads_witness:
  "slice_compare (Slice_of_string ''abc'') (Slice_of_string ''a'') = Inl OutOfBounds"
  using slice_compare_overreads [of "''abc''" "''a''"] by simp

end
