(* ===== verification/LstTimer.thy ===== *)
theory LstTimer
  imports Prelude
begin

text \<open>
  The timer list of chapter11/LSTTimer.h: \<open>util_timer\<close> objects linked in both directions, on an
  explicit heap, and the list with its head and tail. A null pointer is \<open>None\<close>; an access to an object
  that is not allocated is a fault. The callback \<open>cb_\<close> is never called here and is left out, \<open>data\<close> is the address
  of the client's data. The overload \<open>add_timer(timer, last_head)\<close> has an empty body in the
  code, and so it has here: the theorems say what that means for the list.
\<close>

section \<open>Objects and the heap\<close>

record util_timer =
  expire :: int
  data :: "nat option"
  prev :: "nat option"
  succ :: "nat option"

record timers =
  objs :: "nat \<Rightarrow> util_timer option"
  head :: "nat option"
  tail :: "nat option"

definition util_timer_new :: "int \<Rightarrow> nat option \<Rightarrow> util_timer" where
  "util_timer_new e d = \<lparr>expire = e, data = d, prev = None, succ = None\<rparr>"

definition sort_timer_lst :: "(nat \<Rightarrow> util_timer option) \<Rightarrow> timers" where
  "sort_timer_lst h = \<lparr>objs = h, head = None, tail = None\<rparr>"

definition deref :: "timers \<Rightarrow> nat option \<Rightarrow> util_timer res" where
  "deref s p = (case Option.bind p (objs s) of None \<Rightarrow> Inl NullDeref | Some t \<Rightarrow> Inr t)"

definition set_succ :: "nat option \<Rightarrow> nat option \<Rightarrow> timers \<Rightarrow> timers res" where
  "set_succ p q s = res_bind (deref s p) (\<lambda>t. Inr (s\<lparr>objs := (objs s)(the p \<mapsto> t\<lparr>succ := q\<rparr>)\<rparr>))"

definition set_prev :: "nat option \<Rightarrow> nat option \<Rightarrow> timers \<Rightarrow> timers res" where
  "set_prev p q s = res_bind (deref s p) (\<lambda>t. Inr (s\<lparr>objs := (objs s)(the p \<mapsto> t\<lparr>prev := q\<rparr>)\<rparr>))"

section \<open>Operations\<close>

text \<open>The private overload does nothing.\<close>

definition add_timer_after :: "nat option \<Rightarrow> nat option \<Rightarrow> timers \<Rightarrow> timers res" where
  "add_timer_after timer last_head s = Inr s"

definition add_timer :: "nat option \<Rightarrow> timers \<Rightarrow> timers res" where
  "add_timer timer s =
     (if timer = None then Inr s
      else if head s = None then Inr (s\<lparr>head := timer, tail := timer\<rparr>)
      else
        res_bind (deref s timer) (\<lambda>t.
        res_bind (deref s (head s)) (\<lambda>h.
          if expire t < expire h then
            res_bind (set_succ timer (head s) s) (\<lambda>s.
            res_bind (set_prev (head s) timer s) (\<lambda>s. Inr (s\<lparr>head := timer\<rparr>)))
          else add_timer_after timer (head s) s)))"

definition ajust_timer :: "nat option \<Rightarrow> timers \<Rightarrow> timers res" where
  "ajust_timer timer s =
     (if timer = None then Inr s
      else
        res_bind (deref s timer) (\<lambda>t.
          if succ t = None then Inr s
          else
            res_bind (deref s (succ t)) (\<lambda>n.
              if expire t < expire n then Inr s
              else if timer = head s then
                res_bind (deref s (head s)) (\<lambda>h.
                let s = s\<lparr>head := succ h\<rparr> in
                res_bind (set_prev (head s) None s) (\<lambda>s.
                res_bind (set_succ timer None s) (\<lambda>s. add_timer timer s)))
              else
                res_bind (set_succ (prev t) (succ t) s) (\<lambda>s.
                res_bind (deref s timer) (\<lambda>t.
                res_bind (set_prev (succ t) (prev t) s) (\<lambda>s.
                res_bind (deref s timer) (\<lambda>t. add_timer_after timer (succ t) s)))))))"

text \<open>The destructor: \<open>delete\<close> takes an object off the heap.\<close>

definition free_timer :: "nat option \<Rightarrow> timers \<Rightarrow> timers res" where
  "free_timer p s = res_bind (deref s p) (\<lambda>_. Inr (s\<lparr>objs := (objs s)(the p := None)\<rparr>))"

partial_function (option) destroy_loop :: "nat option \<Rightarrow> timers \<Rightarrow> timers res option" where
  "destroy_loop tmp s =
     (if tmp = None then Some (Inr s)
      else
        (case deref s tmp of
           Inl e \<Rightarrow> Some (Inl e)
         | Inr t \<Rightarrow>
             (case free_timer tmp (s\<lparr>head := succ t\<rparr>) of
                Inl e \<Rightarrow> Some (Inl e)
              | Inr s \<Rightarrow> destroy_loop (head s) s)))"

definition timers_destroy :: "timers \<Rightarrow> timers res" where
  "timers_destroy s = (case destroy_loop (head s) s of None \<Rightarrow> Inl Diverges | Some r \<Rightarrow> r)"

section \<open>The list that the objects form\<close>

text \<open>
  \<open>dseg h b p xs l q\<close>: following the pointers from \<open>p\<close> one meets \<open>xs\<close> and arrives at \<open>q\<close>; each object
  points back to the one before it, the first to \<open>b\<close>, and \<open>l\<close> is the last one.
\<close>

fun dseg :: "(nat \<Rightarrow> util_timer option) \<Rightarrow> nat option \<Rightarrow> nat option \<Rightarrow> nat list \<Rightarrow> nat option \<Rightarrow> nat option \<Rightarrow> bool" where
  "dseg h b p [] l q \<longleftrightarrow> p = q \<and> l = b"
| "dseg h b p (x # xs) l q \<longleftrightarrow> p = Some x \<and> (\<exists>t. h x = Some t \<and> prev t = b \<and> dseg h (Some x) (succ t) xs l q)"

definition timers_inv :: "timers \<Rightarrow> nat list \<Rightarrow> bool" where
  "timers_inv s xs \<longleftrightarrow> distinct xs \<and> dseg (objs s) None (head s) xs (tail s) None"

definition exp_of :: "timers \<Rightarrow> nat \<Rightarrow> int" where
  "exp_of s x = expire (the (objs s x))"

lemma deref_simps [simp]:
  "deref s None = Inl NullDeref" "objs s x = Some t \<Longrightarrow> deref s (Some x) = Inr t"
  by (simp_all add: deref_def)

lemma dseg_append:
  "dseg h b p (xs @ ys) l q \<longleftrightarrow> (\<exists>m r. dseg h b p xs m r \<and> dseg h m r ys l q)"
  by (induction xs arbitrary: b p) auto

lemma dseg_frame: "dseg h b p xs l q \<Longrightarrow> \<forall>x \<in> set xs. h' x = h x \<Longrightarrow> dseg h' b p xs l q"
  by (induction xs arbitrary: b p) auto

lemma dseg_alloc: "dseg h b p xs l q \<Longrightarrow> x \<in> set xs \<Longrightarrow> \<exists>t. h x = Some t"
  by (induction xs arbitrary: b p) auto

lemma dseg_snoc:
  "dseg h b p (xs @ [x]) l q \<longleftrightarrow>
     (\<exists>m t. dseg h b p xs m (Some x) \<and> h x = Some t \<and> prev t = m \<and> l = Some x \<and> succ t = q)"
  by (auto simp: dseg_append)

text \<open>The last object of a segment takes a new successor, the first a new predecessor.\<close>

lemma dseg_set_succ:
  assumes "dseg h b p (xs @ [x]) l q" "distinct (xs @ [x])" "h x = Some t"
  shows "dseg (h(x \<mapsto> t\<lparr>succ := q'\<rparr>)) b p (xs @ [x]) l q'"
proof -
  have "dseg h b p xs (prev t) (Some x)" "l = Some x" using assms(1,3) by (auto simp: dseg_snoc)
  moreover have "dseg (h(x \<mapsto> t\<lparr>succ := q'\<rparr>)) b p xs (prev t) (Some x)"
    by (rule dseg_frame [OF calculation(1)]) (use assms(2) in auto)
  ultimately show ?thesis by (simp add: dseg_snoc)
qed

lemma dseg_set_prev:
  assumes "dseg h b p (x # xs) l q" "distinct (x # xs)" "h x = Some t"
  shows "dseg (h(x \<mapsto> t\<lparr>prev := b'\<rparr>)) b' p (x # xs) l q"
proof -
  have "dseg h (Some x) (succ t) xs l q" using assms(1,3) by auto
  then have "dseg (h(x \<mapsto> t\<lparr>prev := b'\<rparr>)) (Some x) (succ t) xs l q"
    by (rule dseg_frame) (use assms(2) in auto)
  then show ?thesis using assms(1) by simp
qed

section \<open>What the operations do to the list\<close>

text \<open>A timer that has not been in a list yet.\<close>

definition pristine :: "timers \<Rightarrow> nat \<Rightarrow> bool" where
  "pristine s t \<longleftrightarrow> (\<exists>v. objs s t = Some v \<and> prev v = None \<and> succ v = None)"

definition tl_add :: "(nat \<Rightarrow> int) \<Rightarrow> nat \<Rightarrow> nat list \<Rightarrow> nat list" where
  "tl_add e t xs = (if xs = [] then [t] else if e t < e (hd xs) then t # xs else xs)"

lemma add_timer_list:
  assumes i: "timers_inv s xs" and t: "pristine s t" "t \<notin> set xs"
  shows "\<exists>s'. add_timer (Some t) s = Inr s' \<and> timers_inv s' (tl_add (exp_of s) t xs) \<and> exp_of s' = exp_of s \<and>
    (\<forall>x. x \<noteq> t \<longrightarrow> x \<notin> set xs \<longrightarrow> objs s' x = objs s x)"
proof -
  obtain v where v: "objs s t = Some v" "prev v = None" "succ v = None" using t(1) by (auto simp: pristine_def)
  note d = i [unfolded timers_inv_def]
  show ?thesis
  proof (cases xs)
    case Nil
    with d have "head s = None" by simp
    then show ?thesis using v Nil by (auto simp: add_timer_def tl_add_def timers_inv_def exp_of_def)
  next
    case (Cons x ys)
    with d obtain w where w: "head s = Some x" "objs s x = Some w" by auto
    show ?thesis
    proof (cases "expire v < expire w")
      case False
      then show ?thesis using v w Cons i
        by (simp add: add_timer_def add_timer_after_def tl_add_def exp_of_def)
    next
      case True
      have xt: "x \<noteq> t" using t(2) Cons by auto
      let ?h = "(objs s)(t \<mapsto> v\<lparr>succ := Some x\<rparr>, x \<mapsto> w\<lparr>prev := Some t\<rparr>)"
      have s': "add_timer (Some t) s = Inr (s\<lparr>objs := ?h, head := Some t\<rparr>)"
        using True v w xt by (simp add: add_timer_def set_succ_def set_prev_def)
      have dd: "dseg (objs s) None (Some x) (x # ys) (tail s) None" using d w(1) Cons by simp
      have "dseg ((objs s)(t \<mapsto> v\<lparr>succ := Some x\<rparr>)) None (Some x) (x # ys) (tail s) None"
        by (rule dseg_frame [OF dd]) (use t(2) Cons in auto)
      from dseg_set_prev [OF this, of w "Some t"] d w xt Cons
      have "dseg ?h (Some t) (Some x) (x # ys) (tail s) None" by simp
      then have "timers_inv (s\<lparr>objs := ?h, head := Some t\<rparr>) (t # xs)"
        using d t(2) v(2) xt Cons by (simp add: timers_inv_def)
      moreover have "exp_of (s\<lparr>objs := ?h, head := Some t\<rparr>) = exp_of s"
        using v w by (auto simp: exp_of_def)
      ultimately show ?thesis using s' True v w Cons by (simp add: tl_add_def exp_of_def)
    qed
  qed
qed

text \<open>
  Adjusting a timer that no longer precedes the next one takes it out of the list. Putting it back
  is left to \<open>add_timer\<close>, which never does so here.
\<close>

definition tl_adjust :: "(nat \<Rightarrow> int) \<Rightarrow> nat \<Rightarrow> nat list \<Rightarrow> nat list" where
  "tl_adjust e x xs =
     (case dropWhile (\<lambda>y. y \<noteq> x) xs of
        _ # y # _ \<Rightarrow> if e x < e y then xs else remove1 x xs
      | _ \<Rightarrow> xs)"

lemma tl_adjust_split:
  assumes "distinct (us @ x # vs)"
  shows "tl_adjust e x (us @ x # vs) = (if vs = [] \<or> e x < e (hd vs) then us @ x # vs else us @ vs)"
proof -
  have "dropWhile (\<lambda>y. y \<noteq> x) (us @ x # vs) = x # vs"
    using assms by (subst dropWhile_append2) auto
  then show ?thesis using assms by (cases vs) (auto simp: tl_adjust_def remove1_append)
qed

lemma ajust_head:
  assumes i: "timers_inv s (x # y # vs)" and e: "\<not> exp_of s x < exp_of s y"
  shows "\<exists>s'. ajust_timer (Some x) s = Inr s' \<and> timers_inv s' (y # vs) \<and> exp_of s' = exp_of s \<and>
    (\<forall>z. z \<notin> set (x # y # vs) \<longrightarrow> objs s' z = objs s z)"
proof -
  note d = i [unfolded timers_inv_def]
  from d obtain t n where t: "head s = Some x" "objs s x = Some t" "prev t = None" "succ t = Some y"
    and n: "objs s y = Some n" by auto
  have xy: "x \<noteq> y" using d by simp
  let ?h = "(objs s)(y \<mapsto> n\<lparr>prev := None\<rparr>, x \<mapsto> t\<lparr>succ := None\<rparr>)"
  let ?s = "s\<lparr>head := Some y, objs := ?h\<rparr>"
  have ne: "\<not> expire t < expire n" using e t n by (simp add: exp_of_def)
  have "ajust_timer (Some x) s = add_timer (Some x) ?s"
    using t n xy ne by (simp add: ajust_timer_def set_prev_def set_succ_def Let_def)
  also have "\<dots> = Inr ?s"
    using t n xy ne by (simp add: add_timer_def add_timer_after_def)
  finally have r: "ajust_timer (Some x) s = Inr ?s" .
  have "dseg (objs s) (Some x) (Some y) (y # vs) (tail s) None" using d t by auto
  from dseg_set_prev [OF this, of n None] d n
  have "dseg ((objs s)(y \<mapsto> n\<lparr>prev := None\<rparr>)) None (Some y) (y # vs) (tail s) None" by simp
  then have "dseg ?h None (Some y) (y # vs) (tail s) None"
    by (rule dseg_frame) (use d in auto)
  then have "timers_inv ?s (y # vs)" using d by (simp add: timers_inv_def)
  moreover have "exp_of ?s = exp_of s" using t n by (auto simp: exp_of_def)
  ultimately show ?thesis using r by auto
qed

lemma ajust_inner:
  assumes i: "timers_inv s (us @ [u] @ x # y # vs)" and e: "\<not> exp_of s x < exp_of s y"
  shows "\<exists>s'. ajust_timer (Some x) s = Inr s' \<and> timers_inv s' (us @ [u] @ y # vs) \<and> exp_of s' = exp_of s \<and>
    (\<forall>z. z \<notin> set (us @ [u] @ x # y # vs) \<longrightarrow> objs s' z = objs s z)"
proof -
  note d = i [unfolded timers_inv_def]
  have "dseg (objs s) None (head s) ((us @ [u]) @ x # y # vs) (tail s) None" using d by simp
  then obtain m r where l: "dseg (objs s) None (head s) (us @ [u]) m r"
    "dseg (objs s) m r (x # y # vs) (tail s) None" unfolding dseg_append [of _ _ _ "us @ [u]"] by blast
  obtain a where a: "objs s u = Some a" using l(1) by (auto simp: dseg_snoc)
  have m: "m = Some u" using l(1) by (auto simp: dseg_snoc)
  from l(2) m obtain t n where t: "objs s x = Some t" "prev t = Some u" "succ t = Some y" "r = Some x"
    and n: "objs s y = Some n" by auto
  have ne: "x \<noteq> y" "u \<noteq> x" "u \<noteq> y" using d by auto
  have hd: "head s \<noteq> Some x"
  proof
    assume h: "head s = Some x"
    from l(1) h have "x \<in> set (us @ [u])" by (cases us) auto
    with d show False by auto
  qed
  let ?h = "(objs s)(u \<mapsto> a\<lparr>succ := Some y\<rparr>, y \<mapsto> n\<lparr>prev := Some u\<rparr>)"
  have r: "ajust_timer (Some x) s = Inr (s\<lparr>objs := ?h\<rparr>)"
    using t n a ne hd e
    by (simp add: ajust_timer_def set_succ_def set_prev_def add_timer_after_def exp_of_def)
  have "dseg ((objs s)(u \<mapsto> a\<lparr>succ := Some y\<rparr>)) None (head s) (us @ [u]) (Some u) (Some y)"
    using dseg_set_succ [OF l(1) _ a] d m by simp
  then have 1: "dseg ?h None (head s) (us @ [u]) (Some u) (Some y)"
    by (rule dseg_frame) (use d in auto)
  have "dseg (objs s) (Some x) (Some y) (y # vs) (tail s) None" using l(2) t by auto
  then have "dseg ((objs s)(u \<mapsto> a\<lparr>succ := Some y\<rparr>)) (Some x) (Some y) (y # vs) (tail s) None"
    by (rule dseg_frame) (use d in auto)
  from dseg_set_prev [OF this, of n "Some u"] d n ne
  have 2: "dseg ?h (Some u) (Some y) (y # vs) (tail s) None" by simp
  have "dseg ?h None (head s) ((us @ [u]) @ y # vs) (tail s) None"
    unfolding dseg_append [of _ _ _ "us @ [u]"] using 1 2 by blast
  then have "timers_inv (s\<lparr>objs := ?h\<rparr>) (us @ [u] @ y # vs)" using d by (simp add: timers_inv_def)
  moreover have "exp_of (s\<lparr>objs := ?h\<rparr>) = exp_of s" using a n by (auto simp: exp_of_def)
  ultimately show ?thesis using r by auto
qed

lemma ajust_timer_list:
  assumes i: "timers_inv s xs" and x: "x \<in> set xs"
  shows "\<exists>s'. ajust_timer (Some x) s = Inr s' \<and> timers_inv s' (tl_adjust (exp_of s) x xs) \<and>
    exp_of s' = exp_of s \<and> (\<forall>z. z \<notin> set xs \<longrightarrow> objs s' z = objs s z)"
proof -
  from x obtain us vs where xs: "xs = us @ x # vs" by (auto simp: in_set_conv_decomp)
  have d: "distinct (us @ x # vs)" using i xs by (simp add: timers_inv_def)
  note spec = tl_adjust_split [OF d, of "exp_of s"]
  from i xs obtain t b where t: "objs s x = Some t" "dseg (objs s) (Some x) (succ t) vs b None"
    by (auto simp: timers_inv_def dseg_append)
  show ?thesis
  proof (cases vs)
    case Nil
    with t have "ajust_timer (Some x) s = Inr s" by (simp add: ajust_timer_def)
    then show ?thesis using i spec Nil by (simp add: xs)
  next
    case (Cons y ws)
    with t obtain n where n: "succ t = Some y" "objs s y = Some n" by auto
    show ?thesis
    proof (cases "exp_of s x < exp_of s y")
      case True
      then have "ajust_timer (Some x) s = Inr s" using t n by (simp add: ajust_timer_def exp_of_def)
      then show ?thesis using i spec Cons True by (simp add: xs)
    next
      case False
      have e: "tl_adjust (exp_of s) x xs = us @ y # ws" using spec Cons False by (simp add: xs)
      show ?thesis
      proof (cases us rule: rev_cases)
        case Nil
        then show ?thesis using ajust_head [of s x y ws] i False Cons e by (simp add: xs)
      next
        case (snoc us' u)
        then show ?thesis using ajust_inner [of s us' u x y ws] i False Cons e by (simp add: xs)
      qed
    qed
  qed
qed

text \<open>The destructor frees the objects of the list, each once.\<close>

lemma destroy_loop_frees:
  assumes "dseg (objs s) b p xs l None" "distinct xs"
  shows "\<exists>s'. destroy_loop p s = Some (Inr s') \<and> (xs \<noteq> [] \<longrightarrow> head s' = None) \<and>
    objs s' = (\<lambda>x. if x \<in> set xs then None else objs s x)"
  using assms
proof (induction xs arbitrary: b p s)
  case Nil
  then show ?case by (subst destroy_loop.simps) simp
next
  case (Cons x xs)
  then obtain t where t: "p = Some x" "objs s x = Some t" "dseg (objs s) (Some x) (succ t) xs l None" by auto
  let ?s = "s\<lparr>head := succ t, objs := (objs s)(x := None)\<rparr>"
  have "dseg (objs ?s) (Some x) (succ t) xs l None"
    using dseg_frame [OF t(3), of "objs ?s"] Cons.prems(2) by auto
  from Cons.IH [OF this] Cons.prems(2) obtain s' where
    s': "destroy_loop (succ t) ?s = Some (Inr s')" "xs \<noteq> [] \<longrightarrow> head s' = None"
      "objs s' = (\<lambda>y. if y \<in> set xs then None else objs ?s y)" by auto
  have step: "destroy_loop p s = destroy_loop (succ t) ?s"
    using t by (subst destroy_loop.simps) (simp add: free_timer_def)
  have "head s' = None"
  proof (cases xs)
    case Nil
    with t(3) have "succ t = None" by simp
    with s'(1) show ?thesis by (subst (asm) destroy_loop.simps) auto
  qed (use s'(2) in simp)
  then show ?case using s'(1,3) step by (auto simp: fun_eq_iff)
qed

section \<open>Sessions\<close>

text \<open>What a client does: hand over a timer, or set the expiry of a timer of the list and adjust it.\<close>

datatype tl_op = Add nat | Adjust nat int

fun tl_step :: "tl_op \<Rightarrow> timers \<Rightarrow> timers res" where
  "tl_step (Add t) s = add_timer (Some t) s"
| "tl_step (Adjust x e) s =
     res_bind (deref s (Some x)) (\<lambda>t. ajust_timer (Some x) (s\<lparr>objs := (objs s)(x \<mapsto> t\<lparr>expire := e\<rparr>)\<rparr>))"

text \<open>The same on the list of timers and their expiries.\<close>

fun tl_spec :: "tl_op \<Rightarrow> (nat \<Rightarrow> int) \<times> nat list \<Rightarrow> (nat \<Rightarrow> int) \<times> nat list" where
  "tl_spec (Add t) (e, xs) = (e, tl_add e t xs)"
| "tl_spec (Adjust x v) (e, xs) = (e(x := v), tl_adjust (e(x := v)) x xs)"

text \<open>Each timer is added once, and only timers of the list are adjusted.\<close>

fun tl_valid :: "tl_op list \<Rightarrow> (nat \<Rightarrow> int) \<times> nat list \<Rightarrow> nat set \<Rightarrow> bool" where
  "tl_valid [] a new \<longleftrightarrow> True"
| "tl_valid (Add t # ops) a new \<longleftrightarrow> t \<in> new \<and> tl_valid ops (tl_spec (Add t) a) (new - {t})"
| "tl_valid (Adjust x v # ops) a new \<longleftrightarrow> x \<in> set (snd a) \<and> tl_valid ops (tl_spec (Adjust x v) a) new"

lemma set_tl_add: "set (tl_add e t xs) \<subseteq> insert t (set xs)"
  by (auto simp: tl_add_def)

lemma set_tl_adjust: "set (tl_adjust e x xs) \<subseteq> set xs"
  unfolding tl_adjust_def by (auto split: list.splits dest: notin_set_remove1 set_mp [OF set_remove1_subset])

lemma pristine_same: "pristine s x \<Longrightarrow> objs s' x = objs s x \<Longrightarrow> pristine s' x"
  by (simp add: pristine_def)

lemma set_expiry_inv:
  assumes i: "timers_inv s xs" and x: "objs s x = Some t"
  shows "timers_inv (s\<lparr>objs := (objs s)(x \<mapsto> t\<lparr>expire := e\<rparr>)\<rparr>) xs"
proof -
  have "dseg h b p xs l q \<Longrightarrow> h x = Some t \<Longrightarrow> dseg (h(x \<mapsto> t\<lparr>expire := e\<rparr>)) b p xs l q" for h b p l q
    by (induction xs arbitrary: b p) auto
  with i x show ?thesis by (simp add: timers_inv_def)
qed

lemma timers_session:
  assumes "timers_inv s xs" "\<forall>t \<in> new. pristine s t \<and> t \<notin> set xs" "tl_valid ops (exp_of s, xs) new"
  shows "\<exists>s'. res_fold tl_step ops s = Inr s' \<and> exp_of s' = fst (fold tl_spec ops (exp_of s, xs)) \<and>
    timers_inv s' (snd (fold tl_spec ops (exp_of s, xs)))"
  using assms
proof (induction ops arbitrary: s xs new)
  case (Cons op ops)
  show ?case
  proof (cases op)
    case (Add t)
    with Cons.prems(2,3) have t: "t \<in> new" "pristine s t" "t \<notin> set xs" by auto
    from add_timer_list [OF Cons.prems(1) t(2,3)] obtain s1 where
      s1: "add_timer (Some t) s = Inr s1" "timers_inv s1 (tl_add (exp_of s) t xs)" "exp_of s1 = exp_of s"
        "\<forall>x. x \<noteq> t \<longrightarrow> x \<notin> set xs \<longrightarrow> objs s1 x = objs s x" by blast
    have "pristine s1 u \<and> u \<notin> set (tl_add (exp_of s) t xs)" if "u \<in> new - {t}" for u
      using that Cons.prems(2) s1(4) pristine_same [of s u s1] set_tl_add [of "exp_of s" t xs] by auto
    from Cons.IH [OF s1(2), of "new - {t}"] this Cons.prems(3) Add s1(1,3) show ?thesis by simp
  next
    case (Adjust x v)
    with Cons.prems(3) have x: "x \<in> set xs" by simp
    obtain t where t: "objs s x = Some t"
      using dseg_alloc [of "objs s" None "head s" xs "tail s" None x] Cons.prems(1) x by (auto simp: timers_inv_def)
    let ?s = "s\<lparr>objs := (objs s)(x \<mapsto> t\<lparr>expire := v\<rparr>)\<rparr>"
    have e: "exp_of ?s = (exp_of s)(x := v)" by (auto simp: exp_of_def)
    from ajust_timer_list [OF set_expiry_inv [OF Cons.prems(1) t] x, of v] obtain s1 where
      s1: "ajust_timer (Some x) ?s = Inr s1" "timers_inv s1 (tl_adjust ((exp_of s)(x := v)) x xs)"
        "exp_of s1 = (exp_of s)(x := v)" "\<forall>z. z \<notin> set xs \<longrightarrow> objs s1 z = objs ?s z"
      unfolding e by blast
    let ?xs = "tl_adjust ((exp_of s)(x := v)) x xs"
    have "\<forall>u \<in> new. pristine s1 u \<and> u \<notin> set ?xs"
    proof
      fix u assume that: "u \<in> new"
      have u: "pristine s u" "u \<notin> set xs" using Cons.prems(2) that by auto
      then have "objs s1 u = objs s u" using s1(4) x by auto
      then show "pristine s1 u \<and> u \<notin> set ?xs" using u pristine_same set_tl_adjust by blast
    qed
    moreover have "tl_valid ops (exp_of s1, ?xs) new"
      using Cons.prems(3) unfolding Adjust s1(3) by (simp del: fun_upd_apply)
    ultimately have "\<exists>s'. res_fold tl_step ops s1 = Inr s' \<and>
        exp_of s' = fst (fold tl_spec ops (exp_of s1, ?xs)) \<and> timers_inv s' (snd (fold tl_spec ops (exp_of s1, ?xs)))"
      by (rule Cons.IH [OF s1(2)])
    moreover have "res_fold tl_step (op # ops) s = res_fold tl_step ops s1"
      using s1(1) t by (simp add: Adjust)
    moreover have "fold tl_spec (op # ops) (exp_of s, xs) = fold tl_spec ops (exp_of s1, ?xs)"
      unfolding Adjust s1(3) by simp
    ultimately show ?thesis by simp
  qed
qed simp

section \<open>Properties\<close>

text \<open>As long as each timer is added once and only timers still in the list are adjusted, no pointer is
  misused, the objects form a doubly linked list with correct head and tail, and its contents are those of
  \<open>tl_add\<close> and \<open>tl_adjust\<close>; the destructor then frees the timers of the list, each once, and nothing else.\<close>
theorem lst_timer_session:
  assumes "\<forall>t \<in> new. pristine (sort_timer_lst h) t"
    "tl_valid ops (exp_of (sort_timer_lst h), []) new"
  shows "\<exists>s s'. res_fold tl_step ops (sort_timer_lst h) = Inr s \<and>
    timers_inv s (snd (fold tl_spec ops (exp_of (sort_timer_lst h), []))) \<and> timers_destroy s = Inr s' \<and>
    objs s' = (\<lambda>x. if x \<in> set (snd (fold tl_spec ops (exp_of (sort_timer_lst h), []))) then None else objs s x)"
proof -
  let ?xs = "snd (fold tl_spec ops (exp_of (sort_timer_lst h), []))"
  have "timers_inv (sort_timer_lst h) []" by (simp add: timers_inv_def sort_timer_lst_def)
  from timers_session [OF this _ assms(2)] assms(1) obtain s where
    s: "res_fold tl_step ops (sort_timer_lst h) = Inr s" "timers_inv s ?xs" by auto
  from destroy_loop_frees [of s None "head s" ?xs "tail s"] s(2) show ?thesis
    using s by (auto simp: timers_inv_def timers_destroy_def)
qed

definition demo_heap :: "nat \<Rightarrow> util_timer option" where
  "demo_heap = (\<lambda>_. None)(4 \<mapsto> util_timer_new 10 None, 2 \<mapsto> util_timer_new 5 None, 3 \<mapsto> util_timer_new 7 None)"

lemma demo_expiries: "exp_of (sort_timer_lst demo_heap) 4 = 10" "exp_of (sort_timer_lst demo_heap) 2 = 5"
  "exp_of (sort_timer_lst demo_heap) 3 = 7"
  by (simp_all add: exp_of_def sort_timer_lst_def demo_heap_def util_timer_new_def)

lemma lst_timer_session_witness:
  "\<exists>s. res_fold tl_step [Add 4, Add 2, Add 3, Adjust 2 20] (sort_timer_lst demo_heap) = Inr s \<and> timers_inv s [4]"
proof -
  let ?e = "exp_of (sort_timer_lst demo_heap)"
  have "\<forall>t \<in> {4, 2, 3}. pristine (sort_timer_lst demo_heap) t"
    by (simp add: pristine_def sort_timer_lst_def demo_heap_def util_timer_new_def)
  moreover have "tl_valid [Add 4, Add 2, Add 3, Adjust 2 20] (?e, []) {4, 2, 3}"
    by (simp add: tl_add_def demo_expiries)
  ultimately obtain s where
    s: "res_fold tl_step [Add 4, Add 2, Add 3, Adjust 2 20] (sort_timer_lst demo_heap) = Inr s"
      "timers_inv s (snd (fold tl_spec [Add 4, Add 2, Add 3, Adjust 2 20] (?e, [])))"
    using lst_timer_session [of "{4, 2, 3}" demo_heap "[Add 4, Add 2, Add 3, Adjust 2 20]"] by blast
  have "snd (fold tl_spec [Add 4, Add 2, Add 3, Adjust 2 20] (?e, [])) = [4]"
    by (simp add: tl_add_def tl_adjust_def demo_expiries)
  with s show ?thesis by metis
qed

text \<open>C34: The timer list against what its name promises, insertion into a list sorted by expiry. A new timer
  is inserted where it belongs exactly when the list is empty or it expires before the head; any other is
  not inserted and the list stays as it is. A timer of the list whose expiry is put off and that is adjusted
  stays, and the list stays sorted, when it is the last one or still expires before the next; otherwise the
  list loses it. In every case the timers in the list remain doubly linked.\<close>
theorem lst_timer_insertion:
  assumes i: "timers_inv s xs" and sorted: "sorted (map (exp_of s) xs)"
  shows "(\<forall>t. pristine s t \<and> t \<notin> set xs \<longrightarrow> (\<exists>s'. add_timer (Some t) s = Inr s' \<and>
      (if xs = [] \<or> exp_of s t < exp_of s (hd xs) then timers_inv s' (insort_key (exp_of s) t xs)
       else s' = s))) \<and>
    (\<forall>us x vs v. xs = us @ x # vs \<and> exp_of s x \<le> v \<longrightarrow>
      (\<exists>s'. tl_step (Adjust x v) s = Inr s' \<and> exp_of s' = (exp_of s)(x := v) \<and>
        (if vs = [] \<or> v < exp_of s (hd vs) then timers_inv s' xs \<and> sorted (map (exp_of s') xs)
         else timers_inv s' (us @ vs))))"
proof (intro conjI allI impI)
  fix t assume t: "pristine s t \<and> t \<notin> set xs"
  show "\<exists>s'. add_timer (Some t) s = Inr s' \<and>
      (if xs = [] \<or> exp_of s t < exp_of s (hd xs) then timers_inv s' (insort_key (exp_of s) t xs) else s' = s)"
  proof (cases "xs = [] \<or> exp_of s t < exp_of s (hd xs)")
    case True
    then have "tl_add (exp_of s) t xs = insort_key (exp_of s) t xs" by (cases xs) (auto simp: tl_add_def)
    with True t add_timer_list [OF i, of t] show ?thesis by auto
  next
    case False
    then obtain x w where w: "head s = Some x" "objs s x = Some w" "xs \<noteq> []" "x = hd xs"
      using i by (cases xs) (auto simp: timers_inv_def)
    then have "add_timer (Some t) s = Inr s"
      using t False by (auto simp: pristine_def add_timer_def add_timer_after_def exp_of_def)
    with False show ?thesis by simp
  qed
next
  fix us x vs v assume xs: "xs = us @ x # vs \<and> exp_of s x \<le> v"
  then have x: "x \<in> set xs" and d: "distinct (us @ x # vs)" using i by (simp_all add: timers_inv_def)
  obtain t where t: "objs s x = Some t" using i x dseg_alloc by (fastforce simp: timers_inv_def)
  let ?e = "(exp_of s)(x := v)" and ?s = "s\<lparr>objs := (objs s)(x \<mapsto> t\<lparr>expire := v\<rparr>)\<rparr>"
  have e: "exp_of ?s = ?e" by (auto simp: exp_of_def)
  from ajust_timer_list [OF set_expiry_inv [OF i t] x, of v] obtain s' where
    s': "tl_step (Adjust x v) s = Inr s'" "timers_inv s' (tl_adjust ?e x xs)" "exp_of s' = ?e"
    unfolding e using t by auto
  have spec: "tl_adjust ?e x xs = (if vs = [] \<or> v < exp_of s (hd vs) then xs else us @ vs)"
    using tl_adjust_split [OF d, of ?e] xs d by (cases vs) auto
  have "map ?e us = map (exp_of s) us" "map ?e vs = map (exp_of s) vs" using d by auto
  then have m: "map ?e xs = map (exp_of s) us @ v # map (exp_of s) vs" using xs by simp
  have so: "sorted (map (exp_of s) us @ exp_of s x # map (exp_of s) vs)" using sorted xs by simp
  have "sorted (map ?e xs)" if h: "vs = [] \<or> v < exp_of s (hd vs)"
  proof -
    have "\<forall>z \<in> set vs. v \<le> exp_of s z" using so h by (cases vs) (auto simp: sorted_append)
    moreover have "\<forall>z \<in> set us. exp_of s z \<le> v" using so xs by (auto simp: sorted_append)
    ultimately show ?thesis using so unfolding m by (auto simp: sorted_append)
  qed
  then show "\<exists>s'. tl_step (Adjust x v) s = Inr s' \<and> exp_of s' = (exp_of s)(x := v) \<and>
      (if vs = [] \<or> v < exp_of s (hd vs) then timers_inv s' xs \<and> sorted (map (exp_of s') xs)
       else timers_inv s' (us @ vs))"
    using s' spec by (intro exI [of _ s']) (cases "vs = [] \<or> v < exp_of s (hd vs)"; simp only: if_True if_False simp_thms)
qed

text \<open>The dropped timer still points into the list, so that adjusting it once more, which a client has every
  reason to do, can break the list: in a list whose second timer is put off, then the first, then the
  second again, the head ends up with a predecessor.\<close>
theorem lst_timer_breaks:
  assumes i: "timers_inv s (a # x # y # ys)" and v: "exp_of s y \<le> u" "exp_of s y \<le> v" "exp_of s y \<le> w"
  shows "\<exists>s'. res_fold tl_step [Adjust x u, Adjust a v, Adjust x w] s = Inr s' \<and> head s' = Some y \<and>
    \<not> (\<exists>zs. timers_inv s' zs)"
proof -
  from i obtain ta tx ty where o: "head s = Some a" "objs s a = Some ta" "objs s x = Some tx" "objs s y = Some ty"
    "prev ta = None" "succ ta = Some x" "prev tx = Some a" "succ tx = Some y" "prev ty = Some x"
    by (auto simp: timers_inv_def)
  have d: "a \<noteq> x" "a \<noteq> y" "x \<noteq> y" "x \<noteq> a" "y \<noteq> a" "y \<noteq> x" using i by (auto simp: timers_inv_def)
  have e: "expire ty \<le> u" "expire ty \<le> v" "expire ty \<le> w" using v o by (simp_all add: exp_of_def)
  let ?h1 = "(objs s)(x \<mapsto> tx\<lparr>expire := u\<rparr>, a \<mapsto> ta\<lparr>succ := Some y\<rparr>, y \<mapsto> ty\<lparr>prev := Some a\<rparr>)"
  have 1: "tl_step (Adjust x u) s = Inr (s\<lparr>objs := ?h1\<rparr>)"
    using o d e by (simp add: ajust_timer_def set_succ_def set_prev_def add_timer_after_def)
  let ?h2 = "?h1(a \<mapsto> ta\<lparr>expire := v, succ := None\<rparr>, y \<mapsto> ty\<lparr>prev := None\<rparr>)"
  have 2: "tl_step (Adjust a v) (s\<lparr>objs := ?h1\<rparr>) = Inr (s\<lparr>head := Some y, objs := ?h2\<rparr>)"
    using o d e
    by (simp add: ajust_timer_def add_timer_def set_succ_def set_prev_def add_timer_after_def Let_def fun_upd_twist)
  let ?h3 = "?h2(x \<mapsto> tx\<lparr>expire := w\<rparr>, a \<mapsto> ta\<lparr>expire := v, succ := Some y\<rparr>, y \<mapsto> ty\<lparr>prev := Some a\<rparr>)"
  have 3: "tl_step (Adjust x w) (s\<lparr>head := Some y, objs := ?h2\<rparr>) = Inr (s\<lparr>head := Some y, objs := ?h3\<rparr>)"
    using o d e by (simp add: ajust_timer_def set_succ_def set_prev_def add_timer_after_def)
  have "\<not> timers_inv (s\<lparr>head := Some y, objs := ?h3\<rparr>) zs" for zs
    by (cases zs) (simp_all add: timers_inv_def)
  with 1 2 3 show ?thesis by (intro exI [of _ "s\<lparr>head := Some y, objs := ?h3\<rparr>"]) simp
qed

text \<open>A timer that does not expire before the head of a list is silently not added, and adjusting
  the head when it no longer precedes the next timer drops it from the list for good, because the overload
  that should insert the timer further down is empty.\<close>
theorem lst_timer_drops:
  "timers_inv s (x # y # ys) \<Longrightarrow> pristine s t \<Longrightarrow> exp_of s x \<le> exp_of s t \<Longrightarrow> exp_of s y \<le> exp_of s x \<Longrightarrow>
    add_timer (Some t) s = Inr s \<and> (\<exists>s'. ajust_timer (Some x) s = Inr s' \<and> timers_inv s' (y # ys))"
proof -
  assume a: "timers_inv s (x # y # ys)" "pristine s t" "exp_of s x \<le> exp_of s t" "exp_of s y \<le> exp_of s x"
  from a(1) obtain w where w: "head s = Some x" "objs s x = Some w" by (auto simp: timers_inv_def)
  then have "add_timer (Some t) s = Inr s"
    using a(2,3) by (auto simp: pristine_def add_timer_def add_timer_after_def exp_of_def)
  moreover have "\<exists>s'. ajust_timer (Some x) s = Inr s' \<and> timers_inv s' (y # ys)"
    using ajust_head [OF a(1)] a(4) by fastforce
  ultimately show ?thesis ..
qed

definition demo_list :: timers where
  "demo_list = \<lparr>objs = (\<lambda>_. None)(4 \<mapsto> \<lparr>expire = 7, data = None, prev = None, succ = Some 2\<rparr>,
     2 \<mapsto> \<lparr>expire = 5, data = None, prev = Some 4, succ = None\<rparr>, 3 \<mapsto> util_timer_new 9 None),
     head = Some 4, tail = Some 2\<rparr>"

lemma lst_timer_drops_witness:
  "add_timer (Some 3) demo_list = Inr demo_list \<and>
    (\<exists>s'. ajust_timer (Some 4) demo_list = Inr s' \<and> timers_inv s' [2])"
  by (rule lst_timer_drops)
    (simp_all add: demo_list_def timers_inv_def pristine_def exp_of_def util_timer_new_def)

text \<open>A sorted list of the timers 1, 2 and 3, which expire at 10, 20 and 30, and a new timer.\<close>

definition demo_sorted :: timers where
  "demo_sorted = \<lparr>objs = (\<lambda>_. None)(1 \<mapsto> \<lparr>expire = 10, data = None, prev = None, succ = Some 2\<rparr>,
     2 \<mapsto> \<lparr>expire = 20, data = None, prev = Some 1, succ = Some 3\<rparr>,
     3 \<mapsto> \<lparr>expire = 30, data = None, prev = Some 2, succ = None\<rparr>, 4 \<mapsto> util_timer_new 5 None),
     head = Some 1, tail = Some 3\<rparr>"

lemma demo_sorted_ok: "timers_inv demo_sorted [1, 2, 3]" "pristine demo_sorted 4"
  "exp_of demo_sorted 1 = 10" "exp_of demo_sorted 2 = 20" "exp_of demo_sorted 3 = 30" "exp_of demo_sorted 4 = 5"
  "exp_of demo_sorted (Suc 0) = 10"
  by (simp_all add: demo_sorted_def timers_inv_def pristine_def exp_of_def util_timer_new_def)

lemma lst_timer_insertion_witness:
  "(\<exists>s'. add_timer (Some 4) demo_sorted = Inr s' \<and> timers_inv s' [4, 1, 2, 3]) \<and>
   (\<exists>s'. tl_step (Adjust 2 40) demo_sorted = Inr s' \<and> timers_inv s' [1, 3])"
proof -
  have s: "sorted (map (exp_of demo_sorted) [1, 2, 3])" by (simp add: demo_sorted_ok)
  note f = lst_timer_insertion [OF demo_sorted_ok(1) s]
  have "\<exists>s'. add_timer (Some 4) demo_sorted = Inr s' \<and> timers_inv s' [4, 1, 2, 3]"
    using conjunct1 [OF f, THEN spec, of 4] by (simp add: demo_sorted_ok)
  moreover have "\<exists>s'. tl_step (Adjust 2 40) demo_sorted = Inr s' \<and> timers_inv s' [1, 3]"
    using conjunct2 [OF f, THEN spec, of "[1]", THEN spec, of 2, THEN spec, of "[3]", THEN spec, of 40]
    by (auto simp: demo_sorted_ok simp del: tl_step.simps)
  ultimately show ?thesis ..
qed

lemma lst_timer_breaks_witness:
  "\<exists>s'. res_fold tl_step [Adjust 2 40, Adjust 1 50, Adjust 2 60] demo_sorted = Inr s' \<and> \<not> (\<exists>zs. timers_inv s' zs)"
  using lst_timer_breaks [OF demo_sorted_ok(1), of 40 50 60] by (auto simp: demo_sorted_ok)

end
