(* ===== verification/Net.thy ===== *)
theory Net
  imports Prelude
begin

text \<open>
  Addresses, sockets and the event loop of netbridge (InetAddr, Socket, EventLoop). The kernel is a map from open
  descriptors to their status flags and a map of socket options; what its calls answer is an input. The host
  is little-endian, as in Prelude. \<open>inet_addr\<close> is a parameter.
\<close>

unbundle bit_operations_syntax

section \<open>Addresses\<close>

record sockaddr_in =
  sin_family :: "16 word"
  sin_port :: "16 word"
  s_addr :: "32 word"

definition AF_INET :: "16 word" where
  "AF_INET = 2"

text \<open>The value whose bytes in memory are those of the argument in network order.\<close>

definition htons :: "16 word \<Rightarrow> 16 word" where
  "htons p = of_nat (dec_le (rev (enc_le 2 (unat p))))"

definition InetAddr_of :: "(byte list \<Rightarrow> 32 word) \<Rightarrow> byte list \<Rightarrow> 16 word \<Rightarrow> sockaddr_in" where
  "InetAddr_of inet_addr ip port = \<lparr>sin_family = AF_INET, sin_port = htons port, s_addr = inet_addr ip\<rparr>"

definition InetAddr_copy :: "sockaddr_in \<Rightarrow> sockaddr_in" where
  "InetAddr_copy addr = addr"

section \<open>Sockets\<close>

definition O_NONBLOCK :: uint where
  "O_NONBLOCK = 2048"

text \<open>The flags that \<open>F_SETFL\<close> can change: append, nonblock, async, direct, noatime.\<close>

definition settable :: uint where
  "settable = 1024 OR 2048 OR 8192 OR 16384 OR 262144"

record kern =
  fl :: "int \<Rightarrow> uint option"
  sopt :: "int \<Rightarrow> nat \<Rightarrow> nat \<Rightarrow> uint option"

definition getfl :: "int \<Rightarrow> kern \<Rightarrow> uint" where
  "getfl fd k = (case fl k fd of None \<Rightarrow> -1 | Some f \<Rightarrow> f)"

definition setfl :: "int \<Rightarrow> uint \<Rightarrow> kern \<Rightarrow> kern" where
  "setfl fd arg k =
     (case fl k fd of None \<Rightarrow> k
      | Some f \<Rightarrow> k\<lparr>fl := (fl k)(fd \<mapsto> (f AND NOT settable) OR (arg AND settable))\<rparr>)"

definition setsockopt :: "int \<Rightarrow> nat \<Rightarrow> nat \<Rightarrow> uint \<Rightarrow> kern \<Rightarrow> kern" where
  "setsockopt fd level name v k =
     (if fl k fd = None then k
      else k\<lparr>sopt := (sopt k)(fd := (sopt k fd)(level := (sopt k fd level)(name \<mapsto> v)))\<rparr>)"

record Socket =
  sockfd :: int

definition Socket_of :: "int \<Rightarrow> Socket" where
  "Socket_of fd = \<lparr>sockfd = fd\<rparr>"

definition Socket_destroy :: "Socket \<Rightarrow> kern \<Rightarrow> kern" where
  "Socket_destroy s k = k\<lparr>fl := (fl k)(sockfd s := None)\<rparr>"

text \<open>\<open>Bind\<close>, \<open>Listen\<close> and \<open>Accept\<close> end the program when their call fails. What they do when it succeeds is up to
  the kernel: \<open>bind_ok\<close> and \<open>listen_ok\<close> say whether it does, and \<open>accept\<close> gives a new descriptor or none.\<close>

definition Bind :: "(int \<Rightarrow> sockaddr_in \<Rightarrow> bool) \<Rightarrow> sockaddr_in \<Rightarrow> Socket \<Rightarrow> kern \<Rightarrow> kern res" where
  "Bind bind_ok addr s k = check (bind_ok (sockfd s) addr) Terminated (Inr k)"

definition Bind_ip ::
  "(int \<Rightarrow> sockaddr_in \<Rightarrow> bool) \<Rightarrow> (byte list \<Rightarrow> 32 word) \<Rightarrow> byte list \<Rightarrow> 16 word \<Rightarrow> Socket \<Rightarrow> kern \<Rightarrow> kern res" where
  "Bind_ip bind_ok inet_addr ip port s k = Bind bind_ok (InetAddr_of inet_addr ip port) s k"

definition Listen :: "(int \<Rightarrow> nat \<Rightarrow> bool) \<Rightarrow> Socket \<Rightarrow> kern \<Rightarrow> kern res" where
  "Listen listen_ok s k = check (listen_ok (sockfd s) 64) Terminated (Inr k)"

text \<open>\<open>Accept\<close> stores the peer's address and drops the new descriptor.\<close>

definition Accept :: "(int \<times> sockaddr_in) option \<Rightarrow> Socket \<Rightarrow> kern \<Rightarrow> (sockaddr_in \<times> kern) res" where
  "Accept accept s k =
     (case accept of None \<Rightarrow> Inl Terminated
      | Some (fd, peer) \<Rightarrow> Inr (peer, k\<lparr>fl := (fl k)(fd \<mapsto> 2)\<rparr>))"

definition SetNonBlock :: "bool \<Rightarrow> Socket \<Rightarrow> kern \<Rightarrow> kern" where
  "SetNonBlock on s k =
     (let flag = getfl (sockfd s) k in
      if on then setfl (sockfd s) (flag OR O_NONBLOCK) k else setfl (sockfd s) (flag OR NOT O_NONBLOCK) k)"

text \<open>The options, with the levels and names of Linux.\<close>

definition opt_of :: "bool \<Rightarrow> uint" where
  "opt_of on = (if on then 1 else 0)"

definition SetNoDelay :: "bool \<Rightarrow> Socket \<Rightarrow> kern \<Rightarrow> kern" where
  "SetNoDelay on s k = setsockopt (sockfd s) 6 1 (opt_of on) k"

definition SetSndBuf :: "uint \<Rightarrow> Socket \<Rightarrow> kern \<Rightarrow> kern" where
  "SetSndBuf winsize s k = setsockopt (sockfd s) 1 7 winsize k"

definition SetRcvBuf :: "uint \<Rightarrow> Socket \<Rightarrow> kern \<Rightarrow> kern" where
  "SetRcvBuf winsize s k = setsockopt (sockfd s) 1 8 winsize k"

definition SetReuseAddr :: "bool \<Rightarrow> Socket \<Rightarrow> kern \<Rightarrow> kern" where
  "SetReuseAddr on s k = setsockopt (sockfd s) 1 2 (opt_of on) k"

definition SetReusePort :: "bool \<Rightarrow> Socket \<Rightarrow> kern \<Rightarrow> kern" where
  "SetReusePort on s k = setsockopt (sockfd s) 1 15 (opt_of on) k"

lemma char_of_low: "char_of (of_char b + 256 * x :: nat) = b"
proof -
  have "char_of ((of_char b + 256 * x :: nat) mod 256) = b" by simp
  then show ?thesis by (simp only: char_of_mod_256)
qed

lemma port_bytes: "enc_le 2 (unat (sin_port (InetAddr_of inet_addr ip port))) = rev (enc_le 2 (unat port))"
proof -
  obtain a b where ab: "enc_le 2 (unat port) = [a, b]" by (simp add: numeral_2_eq_2)
  have two: "x < 256 \<Longrightarrow> y < 256 \<Longrightarrow> x + 256 * (y + 256 * 0) < 65536" for x y :: nat by simp
  have "dec_le [b, a] < 65536" unfolding dec_le.simps by (rule two) simp_all
  moreover have "unat (of_nat n :: 16 word) = n" if "n < 65536" for n using that by (simp add: unat_of_nat)
  ultimately have "unat (htons port) = dec_le [b, a]" unfolding htons_def ab by (simp only: rev.simps append.simps)
  moreover have "enc_le 2 (dec_le [b, a]) = [b, a]" by (simp add: numeral_2_eq_2 char_of_low)
  ultimately show ?thesis unfolding ab by (simp add: InetAddr_of_def)
qed

text \<open>The flags after \<open>SetNonBlock\<close>.\<close>

lemma flags_on: "m AND nb = nb \<Longrightarrow> (f AND NOT m) OR ((f OR nb) AND m) = f OR (nb :: uint)"
proof -
  assume m: "m AND nb = nb"
  have "bit nb n \<longrightarrow> bit m n" for n using arg_cong [OF m, of "\<lambda>w. bit w n"] by (auto simp: bit_simps)
  then show ?thesis by (intro bit_word_eqI) (auto simp: bit_simps)
qed

lemma flags_off: "(f AND NOT m) OR ((f OR NOT nb) AND m) = f OR (m AND NOT (nb :: uint))"
  by (rule bit_word_eqI) (auto simp: bit_simps)

lemma settable_nonblock: "settable AND O_NONBLOCK = O_NONBLOCK"
  by (simp add: settable_def O_NONBLOCK_def)

text \<open>SetNonBlock(true) sets the non-blocking flag of an open socket and keeps its other flags.
  SetNonBlock(false) does not clear it, and turns every other changeable flag on, append and async among
  them: the mask is combined with or instead of and.\<close>
theorem socket_nonblock:
  assumes "fl k (sockfd s) = Some f"
  shows "fl (SetNonBlock True s k) (sockfd s) = Some (f OR O_NONBLOCK) \<and>
    fl (SetNonBlock False s k) (sockfd s) = Some (f OR (settable AND NOT O_NONBLOCK))"
  using assms flags_on [OF settable_nonblock] flags_off [of f settable O_NONBLOCK]
  by (simp add: SetNonBlock_def getfl_def setfl_def Let_def)

lemma socket_nonblock_witness:
  "fl (SetNonBlock False (Socket_of 5) \<lparr>fl = (\<lambda>_. None)(5 \<mapsto> 2050), sopt = (\<lambda>_ _ _. None)\<rparr>) 5 =
     Some (2050 OR (settable AND NOT O_NONBLOCK))"
  using socket_nonblock [of "\<lparr>fl = (\<lambda>_. None)(5 \<mapsto> 2050), sopt = (\<lambda>_ _ _. None)\<rparr>" "Socket_of 5"]
  by (simp add: Socket_of_def)

text \<open>\<open>Accept\<close> leaves a descriptor open that nothing refers to.\<close>

lemma Accept_leaks:
  assumes "Accept (Some (fd, peer)) s k = Inr (p, k')" "fd \<noteq> sockfd s"
  shows "fl (Socket_destroy s k') fd \<noteq> None"
  using assms by (auto simp: Accept_def Socket_destroy_def)

section \<open>The event loop\<close>

text \<open>What the operations write to the debug logger is left out.\<close>

record EventLoop =
  running :: bool
  thread_id :: nat

text \<open>The live loops, and for every thread its \<open>loop_in_thread_\<close>.\<close>

record loops =
  live :: "nat \<Rightarrow> EventLoop option"
  loop_in_thread :: "nat \<Rightarrow> nat option"

definition loops_start :: loops where
  "loops_start = \<lparr>live = (\<lambda>_. None), loop_in_thread = (\<lambda>_. None)\<rparr>"

text \<open>A \<open>throw\<close> without an exception to rethrow ends the program.\<close>

definition EventLoop_new :: "nat \<Rightarrow> nat \<Rightarrow> loops \<Rightarrow> loops res" where
  "EventLoop_new t l s =
     (if loop_in_thread s t \<noteq> None then Inl Terminated
      else Inr (s\<lparr>live := (live s)(l \<mapsto> \<lparr>running = False, thread_id = t\<rparr>),
        loop_in_thread := (loop_in_thread s)(t \<mapsto> l)\<rparr>))"

definition loop_at :: "nat \<Rightarrow> loops \<Rightarrow> EventLoop res" where
  "loop_at l s = (case live s l of None \<Rightarrow> Inl NullDeref | Some e \<Rightarrow> Inr e)"

definition EventLoop_destroy :: "nat \<Rightarrow> nat \<Rightarrow> loops \<Rightarrow> loops res" where
  "EventLoop_destroy t l s =
     res_bind (loop_at l s) (\<lambda>e. check (\<not> running e) AssertFail
       (Inr (s\<lparr>live := (live s)(l := None), loop_in_thread := (loop_in_thread s)(t := None)\<rparr>)))"

definition LoopOfThread :: "nat \<Rightarrow> loops \<Rightarrow> nat option" where
  "LoopOfThread t s = loop_in_thread s t"

definition InLoopThread :: "nat \<Rightarrow> EventLoop \<Rightarrow> bool" where
  "InLoopThread t e \<longleftrightarrow> t = thread_id e"

text \<open>\<open>Loop\<close> up to the call of \<open>poll\<close>, and after it.\<close>

definition Loop_enter :: "nat \<Rightarrow> nat \<Rightarrow> loops \<Rightarrow> loops res" where
  "Loop_enter t l s =
     res_bind (loop_at l s) (\<lambda>e. check (\<not> running e) AssertFail (check (InLoopThread t e) AssertFail
       (Inr (s\<lparr>live := (live s)(l \<mapsto> e\<lparr>running := True\<rparr>)\<rparr>))))"

definition Loop_leave :: "nat \<Rightarrow> loops \<Rightarrow> loops res" where
  "Loop_leave l s = res_bind (loop_at l s) (\<lambda>e. Inr (s\<lparr>live := (live s)(l \<mapsto> e\<lparr>running := False\<rparr>)\<rparr>))"

text \<open>What threads do with their own loops; a loop is destroyed by the thread that made it.\<close>

inductive loop_reach :: "loops \<Rightarrow> bool" where
  init: "loop_reach loops_start"
| new: "loop_reach s \<Longrightarrow> live s l = None \<Longrightarrow> EventLoop_new t l s = Inr s' \<Longrightarrow> loop_reach s'"
| enter: "loop_reach s \<Longrightarrow> Loop_enter t l s = Inr s' \<Longrightarrow> loop_reach s'"
| leave: "loop_reach s \<Longrightarrow> Loop_leave l s = Inr s' \<Longrightarrow> loop_reach s'"
| destroy: "loop_reach s \<Longrightarrow> live s l = Some e \<Longrightarrow> InLoopThread t e \<Longrightarrow> EventLoop_destroy t l s = Inr s' \<Longrightarrow>
    loop_reach s'"

lemma loop_reach_inv:
  "loop_reach s \<Longrightarrow> loop_in_thread s t = Some l \<longleftrightarrow> (\<exists>e. live s l = Some e \<and> thread_id e = t)"
proof (induction arbitrary: t l rule: loop_reach.induct)
  case init
  then show ?case by (simp add: loops_start_def)
next
  case (new s k u s')
  have none: "loop_in_thread s u = None" and s': "s' = s\<lparr>live := (live s)(k \<mapsto> \<lparr>running = False, thread_id = u\<rparr>),
      loop_in_thread := (loop_in_thread s)(u \<mapsto> k)\<rparr>"
    using new(3) by (auto simp: EventLoop_new_def split: if_splits)
  have "thread_id e \<noteq> u" if "live s l = Some e" for e using new.IH [of u l] none that by auto
  moreover have "loop_in_thread s t \<noteq> Some k" using new.IH [of t k] new(2) by auto
  ultimately show ?case using new.IH [of t l] s' by auto
next
  case (enter s u k s')
  then show ?case by (auto simp: Loop_enter_def res_simps loop_at_def split: option.splits if_splits)
next
  case (leave s k s')
  then show ?case by (auto simp: Loop_leave_def res_simps loop_at_def split: option.splits if_splits)
next
  case (destroy s k e u s')
  have s': "s' = s\<lparr>live := (live s)(k := None), loop_in_thread := (loop_in_thread s)(u := None)\<rparr>"
    using destroy(4) by (auto simp: EventLoop_destroy_def res_simps)
  have "loop_in_thread s u = Some k" using destroy.IH [of u k] destroy(2,3) by (auto simp: InLoopThread_def)
  then have "thread_id e' \<noteq> u" if "live s l = Some e'" "l \<noteq> k" for e' using destroy.IH [of u l] that by auto
  then show ?case using destroy.IH [of t l] destroy.IH [of t k] destroy(2,3) s'
    by (auto simp: InLoopThread_def)
qed

text \<open>C38: As long as loops are destroyed by the thread that made them, LoopOfThread is the one live loop of the
  calling thread: no thread has two, the pointer never dangles, and a second loop in a thread is refused.\<close>
theorem event_loop_per_thread:
  assumes "loop_reach s"
  shows "(LoopOfThread t s = Some l \<longleftrightarrow> (\<exists>e. live s l = Some e \<and> InLoopThread t e)) \<and>
    (EventLoop_new t k s = Inl Terminated \<longleftrightarrow> (\<exists>l e. live s l = Some e \<and> InLoopThread t e))"
  using loop_reach_inv [OF assms, of t] by (auto simp: LoopOfThread_def InLoopThread_def EventLoop_new_def)

definition demo_loop :: loops where
  "demo_loop = \<lparr>live = (\<lambda>_. None)(7 \<mapsto> \<lparr>running = False, thread_id = 2\<rparr>), loop_in_thread = (\<lambda>_. None)(2 \<mapsto> 7)\<rparr>"

lemma demo_loop_new: "EventLoop_new 2 7 loops_start = Inr demo_loop"
  by (simp add: EventLoop_new_def loops_start_def demo_loop_def)

lemma event_loop_per_thread_witness: "LoopOfThread 2 demo_loop = Some 7 \<and> EventLoop_new 2 8 demo_loop = Inl Terminated"
proof -
  have "loop_reach demo_loop"
    using loop_reach.new [OF loop_reach.init _ demo_loop_new] by (simp add: loops_start_def)
  from event_loop_per_thread [OF this, of 2 7 8] show ?thesis by (auto simp: demo_loop_def InLoopThread_def)
qed

text \<open>Destroyed by another thread, the loop stays in the pointer of the thread that made it.\<close>

lemma event_loop_dangles:
  "\<exists>s. EventLoop_destroy 3 7 demo_loop = Inr s \<and> LoopOfThread 2 s = Some 7 \<and> live s 7 = None"
  by (simp add: EventLoop_destroy_def loop_at_def demo_loop_def LoopOfThread_def)

end
