(* ===== verification/EventServer.thy ===== *)
theory EventServer
  imports Net
begin

text \<open>
  The server of chapter10/event.cc: one epoll loop that accepts connections and learns of signals through a
  pipe that the signal handler writes to. The kernel part is what the code relies on of edge-triggered
  epoll: a descriptor is reported once after something arrives on it. Signals and connections arrive between
  any two steps of the loop.
\<close>

section \<open>State\<close>

text \<open>
  The loop: in front of \<open>epoll_wait\<close>, in the loop over the reported descriptors, or past the end. \<open>edges\<close>
  are the descriptors that epoll will report next, \<open>pending\<close> counts the connections that wait to be
  accepted, \<open>chan\<close> is the pipe, which takes \<open>chan_cap\<close> bytes. Ghosts: the bytes the handlers have written,
  those the loop has read, and whether \<open>epoll_wait\<close> has failed with another error than \<open>EINTR\<close>.
\<close>

datatype evphase = EWait | EEvents "int list" | EEnd

record server =
  ken :: kern
  listenfd :: int
  epollfd :: int
  pipe0 :: int
  pipe1 :: int
  regs :: "int list"
  edges :: "int list"
  pending :: nat
  chan :: "byte list"
  chan_cap :: nat
  conns :: "int list"
  stop_server :: bool
  loopph :: evphase
  errno :: int
  written :: "byte list"
  got :: "byte list"
  waitfail :: bool

definition MAX_EVENT_NUMBER :: nat where
  "MAX_EVENT_NUMBER = 1024"

text \<open>Signal numbers of Linux.\<close>

definition SIGHUP :: nat where "SIGHUP = 1"
definition SIGINT :: nat where "SIGINT = 2"
definition SIGTERM :: nat where "SIGTERM = 15"
definition SIGCHLD :: nat where "SIGCHLD = 17"

section \<open>Operations\<close>

definition setnonblocking :: "int \<Rightarrow> kern \<Rightarrow> kern \<times> uint" where
  "setnonblocking fd k =
     (let old_option = getfl fd k; new_option = old_option OR O_NONBLOCK in (setfl fd new_option k, old_option))"

definition addfd :: "int \<Rightarrow> server \<Rightarrow> server" where
  "addfd fd s = s\<lparr>regs := regs s @ [fd], ken := fst (setnonblocking fd (ken s))\<rparr>"

text \<open>\<open>send\<close> on the non-blocking end of the pipe writes the low byte of the signal number or sets \<open>errno\<close>
  (to \<open>EAGAIN\<close>, 11); a byte that arrives is an edge for the other end.\<close>

definition send_byte :: "byte \<Rightarrow> server \<Rightarrow> server" where
  "send_byte b s =
     (if length (chan s) < chan_cap s
      then s\<lparr>chan := chan s @ [b], edges := (if pipe0 s \<in> set (edges s) then edges s else edges s @ [pipe0 s]),
        written := written s @ [b]\<rparr>
      else s\<lparr>errno := 11\<rparr>)"

definition sig_handler :: "nat \<Rightarrow> server \<Rightarrow> server" where
  "sig_handler sig s =
     (let save_errno = errno s; msg = enc_le 4 sig; s = send_byte (hd msg) s in s\<lparr>errno := save_errno\<rparr>)"

definition addsig :: "bool \<Rightarrow> 'a \<Rightarrow> 'a res" where
  "addsig sigaction_ok s = check sigaction_ok AssertFail (Inr s)"

text \<open>The message goes to the standard error output.\<close>

definition error_handling :: "byte list \<Rightarrow> 'a res" where
  "error_handling msg = Inl Terminated"

text \<open>\<open>main\<close> up to its loop. What the calls answer is given: \<open>socket\<close>, whether \<open>bind\<close> and \<open>listen\<close> succeed,
  \<open>epoll_create\<close>, \<open>socketpair\<close>, and \<open>sigaction\<close> for each signal.\<close>

record answers =
  a_socket :: int
  a_bind :: "sockaddr_in \<Rightarrow> bool"
  a_listen :: bool
  a_epoll :: int
  a_pair :: "(int \<times> int) option"
  a_sigaction :: "nat \<Rightarrow> bool"
  a_cap :: nat

definition open_fd :: "int \<Rightarrow> kern \<Rightarrow> kern" where
  "open_fd fd k = k\<lparr>fl := (fl k)(fd \<mapsto> 2)\<rparr>"

definition server_start :: "(byte list \<Rightarrow> int) \<Rightarrow> (byte list \<Rightarrow> 32 word) \<Rightarrow> answers \<Rightarrow> byte list list \<Rightarrow> server res" where
  "server_start atoi inet_addr a argv =
     check (2 < length argv) Terminated
       (let addr = \<lparr>sin_family = AF_INET, sin_port = htons (of_int (atoi (argv ! 2))), s_addr = inet_addr (argv ! 1)\<rparr>;
            k = \<lparr>fl = (\<lambda>_. None), sopt = (\<lambda>_ _ _. None)\<rparr>;
            lfd = a_socket a in
        if lfd < 0 then error_handling ''socket() error''
        else if \<not> a_bind a addr then error_handling ''bind() error''
        else if \<not> a_listen a then error_handling ''listen() error''
        else if a_epoll a < 0 then error_handling ''epoll_create() error''
        else
          let s = addfd lfd \<lparr>ken = open_fd (a_epoll a) (open_fd lfd k), listenfd = lfd, epollfd = a_epoll a, pipe0 = -1, pipe1 = -1, regs = [],
            edges = [], pending = 0, chan = [], chan_cap = a_cap a, conns = [], stop_server = False,
            loopph = EWait, errno = 0, written = [], got = [], waitfail = False\<rparr> in
          (case a_pair a of
             None \<Rightarrow> error_handling ''socketpair() error''
           | Some (p0, p1) \<Rightarrow>
               let s = s\<lparr>pipe0 := p0, pipe1 := p1, ken := open_fd p1 (open_fd p0 (ken s))\<rparr>;
                   s = s\<lparr>ken := fst (setnonblocking p1 (ken s))\<rparr>;
                   s = addfd p0 s in
               res_bind (addsig (a_sigaction a SIGHUP) s) (\<lambda>s.
               res_bind (addsig (a_sigaction a SIGINT) s) (\<lambda>s.
               res_bind (addsig (a_sigaction a SIGTERM) s) (addsig (a_sigaction a SIGCHLD))))))"

text \<open>\<open>epoll_wait\<close> with the number \<open>num\<close> of events it returns and \<open>errno\<close>; \<open>EINTR\<close> is 4.\<close>

definition server_wait :: "int \<Rightarrow> int \<Rightarrow> server \<Rightarrow> server" where
  "server_wait num err s =
     (if num < 0 \<and> err \<noteq> 4 then s\<lparr>loopph := EEnd, waitfail := True\<rparr>
      else s\<lparr>loopph := EEvents (take (nat num) (edges s)), edges := drop (nat num) (edges s)\<rparr>)"

text \<open>The listening socket is readable: one \<open>accept\<close>, which gives \<open>connfd\<close>.\<close>

definition on_listen :: "int \<Rightarrow> server \<Rightarrow> server" where
  "on_listen connfd s =
     (if connfd < 0 then s
      else addfd connfd (s\<lparr>pending := pending s - 1, ken := open_fd connfd (ken s), conns := conns s @ [connfd]\<rparr>))"

text \<open>The loop over the bytes read.\<close>

primrec scan_signals :: "byte list \<Rightarrow> bool \<Rightarrow> bool" where
  "scan_signals [] stop = stop"
| "scan_signals (c # cs) stop =
     (if c \<in> {char_of SIGCHLD, char_of SIGHUP} then scan_signals cs stop
      else if c \<in> {char_of SIGTERM, char_of SIGINT} then scan_signals cs True
      else scan_signals cs stop)"

definition recv_chan :: "nat \<Rightarrow> server \<Rightarrow> byte list \<times> server" where
  "recv_chan n s = (take n (chan s), s\<lparr>chan := drop n (chan s), got := got s @ take n (chan s)\<rparr>)"

definition on_pipe :: "server \<Rightarrow> server" where
  "on_pipe s =
     (let (signals, s) = recv_chan 1024 s in
      if signals = [] then s else s\<lparr>stop_server := scan_signals signals (stop_server s)\<rparr>)"

text \<open>One round of the loop over the events, for a report on \<open>fd\<close> with or without \<open>EPOLLIN\<close>, and its end.\<close>

definition on_event :: "int \<Rightarrow> bool \<Rightarrow> int \<Rightarrow> server \<Rightarrow> server" where
  "on_event fd epollin connfd s =
     (if fd = listenfd s then on_listen connfd s else if fd = pipe0 s \<and> epollin then on_pipe s else s)"

definition server_next :: "server \<Rightarrow> server" where
  "server_next s = s\<lparr>loopph := (if \<not> stop_server s then EWait else EEnd)\<rparr>"

text \<open>The end of \<open>main\<close> closes the listening socket and the pipe.\<close>

definition server_close :: "server \<Rightarrow> server" where
  "server_close s =
     s\<lparr>ken := (ken s)\<lparr>fl := (fl (ken s))(listenfd s := None, pipe0 s := None, pipe1 s := None)\<rparr>\<rparr>"

section \<open>Steps\<close>

text \<open>What the world does: a handled signal arrives, a connection arrives, a descriptor of a connection becomes
  readable.\<close>

definition new_edge :: "int \<Rightarrow> server \<Rightarrow> server" where
  "new_edge fd s = s\<lparr>edges := (if fd \<in> set (edges s) then edges s else edges s @ [fd])\<rparr>"

definition arrive :: "server \<Rightarrow> server" where
  "arrive s = new_edge (listenfd s) (s\<lparr>pending := Suc (pending s)\<rparr>)"

text \<open>The pipe stays open, so that every report on it has \<open>EPOLLIN\<close>. \<open>accept\<close> fails when nothing is pending, and may fail otherwise; a new descriptor is one that is not open.\<close>

definition accept_ok :: "server \<Rightarrow> int \<Rightarrow> bool" where
  "accept_ok s fd \<longleftrightarrow> (0 \<le> fd \<longrightarrow> 0 < pending s \<and> fl (ken s) fd = None)"

inductive server_step :: "server \<Rightarrow> server \<Rightarrow> bool" where
  signal: "sig \<in> {SIGHUP, SIGINT, SIGTERM, SIGCHLD} \<Longrightarrow> server_step s (sig_handler sig s)"
| connect: "server_step s (arrive s)"
| data: "fd \<in> set (conns s) \<Longrightarrow> server_step s (new_edge fd s)"
| wait: "loopph s = EWait \<Longrightarrow> num \<le> int (min MAX_EVENT_NUMBER (length (edges s))) \<Longrightarrow>
    0 < num \<or> num = -1 \<Longrightarrow> server_step s (server_wait num err s)"
| event: "loopph s = EEvents (fd # fds) \<Longrightarrow> accept_ok s connfd \<Longrightarrow> fd = pipe0 s \<longrightarrow> epollin \<Longrightarrow>
    server_step s ((on_event fd epollin connfd s)\<lparr>loopph := EEvents fds\<rparr>)"
| round: "loopph s = EEvents [] \<Longrightarrow> server_step s (server_next s)"

inductive server_reach :: "server \<Rightarrow> server \<Rightarrow> bool" for s0 where
  init: "server_reach s0 s0"
| step: "server_reach s0 s \<Longrightarrow> server_step s s' \<Longrightarrow> server_reach s0 s'"

section \<open>Invariants\<close>

definition stops :: "byte \<Rightarrow> bool" where
  "stops c \<longleftrightarrow> c \<in> {char_of SIGTERM, char_of SIGINT}"

lemma scan_signals_iff: "scan_signals cs stop \<longleftrightarrow> stop \<or> (\<exists>c \<in> set cs. stops c)"
  by (induction cs arbitrary: stop) (auto simp: stops_def SIGCHLD_def SIGHUP_def SIGTERM_def SIGINT_def)

text \<open>The descriptors that the loop has been or will be told of.\<close>

definition reported :: "server \<Rightarrow> int set" where
  "reported s = set (edges s) \<union> (case loopph s of EEvents fds \<Rightarrow> set fds | _ \<Rightarrow> {})"

definition chan_inv :: "server \<Rightarrow> bool" where
  "chan_inv s \<longleftrightarrow> written s = got s @ chan s \<and> (stop_server s \<longleftrightarrow> (\<exists>c \<in> set (got s). stops c)) \<and>
     length (chan s) \<le> chan_cap s \<and> listenfd s \<noteq> pipe0 s \<and>
     (chan s \<noteq> [] \<longrightarrow> loopph s = EEnd \<or> pipe0 s \<in> reported s \<or> 1024 < chan_cap s \<and> 1024 < length (written s))"

text \<open>The loop goes round while it has not been told to stop.\<close>

definition loop_inv :: "server \<Rightarrow> bool" where
  "loop_inv s \<longleftrightarrow> (loopph s = EWait \<longrightarrow> \<not> stop_server s) \<and> (loopph s = EEnd \<longrightarrow> stop_server s \<or> waitfail s) \<and>
     (waitfail s \<longrightarrow> loopph s = EEnd)"

definition nonblocking :: "kern \<Rightarrow> int \<Rightarrow> bool" where
  "nonblocking k fd \<longleftrightarrow> (\<exists>f. fl k fd = Some f \<and> f AND O_NONBLOCK = O_NONBLOCK)"

definition conns_inv :: "server \<Rightarrow> bool" where
  "conns_inv s \<longleftrightarrow> listenfd s \<noteq> pipe0 s \<and>
     (\<forall>fd \<in> insert (listenfd s) (insert (pipe0 s) (set (conns s))). fd \<in> set (regs s) \<and> nonblocking (ken s) fd)"

lemma setnonblocking_sets:
  assumes "fl k fd = Some f"
  shows "nonblocking (fst (setnonblocking fd k)) fd" "u \<noteq> fd \<Longrightarrow> fl (fst (setnonblocking fd k)) u = fl k u"
proof -
  have "(f OR O_NONBLOCK) AND O_NONBLOCK = O_NONBLOCK" by (rule bit_word_eqI) (auto simp: bit_simps)
  then show "nonblocking (fst (setnonblocking fd k)) fd"
    using assms flags_on [OF settable_nonblock, of f]
    by (simp add: nonblocking_def setnonblocking_def getfl_def setfl_def Let_def)
  show "u \<noteq> fd \<Longrightarrow> fl (fst (setnonblocking fd k)) u = fl k u"
    by (simp add: setnonblocking_def setfl_def Let_def split: option.splits)
qed

lemmas server_ops = sig_handler_def send_byte_def arrive_def new_edge_def server_wait_def server_next_def
  on_event_def on_listen_def on_pipe_def recv_chan_def addfd_def

lemma chan_step: "server_step s s' \<Longrightarrow> chan_inv s \<Longrightarrow> chan_inv s'"
proof (induction rule: server_step.induct)
  case (signal sig s)
  then show ?case by (cases "loopph s") (auto simp: chan_inv_def reported_def server_ops Let_def)
next
  case (connect s)
  then show ?case by (cases "loopph s") (auto simp: chan_inv_def reported_def server_ops)
next
  case (data fd s)
  then show ?case by (cases "loopph s") (auto simp: chan_inv_def reported_def server_ops)
next
  case (wait s num err)
  let ?s = "server_wait num err s"
  have "set (take n xs) \<union> set (drop n xs) = set xs" for n and xs :: "int list"
    by (metis append_take_drop_id set_append)
  then have r: "loopph ?s = EEnd \<or> reported ?s = reported s"
    using wait(1) by (simp add: reported_def server_wait_def Un_commute)
  have "written ?s = written s" "got ?s = got s" "chan ?s = chan s" "stop_server ?s = stop_server s"
    "chan_cap ?s = chan_cap s" "pipe0 ?s = pipe0 s" "listenfd ?s = listenfd s" by (simp_all add: server_wait_def)
  then show ?case using wait(1,4) r unfolding chan_inv_def by auto
next
  case (event s fd fds connfd epollin)
  then show ?case by (auto simp: chan_inv_def reported_def server_ops scan_signals_iff Let_def)
next
  case (round s)
  then show ?case by (auto simp: chan_inv_def reported_def server_ops)
qed

lemma loop_step: "server_step s s' \<Longrightarrow> loop_inv s \<Longrightarrow> loop_inv s'"
  by (induction rule: server_step.induct) (auto simp: loop_inv_def server_ops Let_def)

lemma conns_step: "server_step s s' \<Longrightarrow> conns_inv s \<Longrightarrow> conns_inv s'"
proof (induction rule: server_step.induct)
  case (event s fd fds connfd epollin)
  show ?case
  proof (cases "fd = listenfd s \<and> 0 \<le> connfd")
    case True
    then have new: "fl (ken s) connfd = None" using event(2) by (simp add: accept_ok_def)
    let ?k = "fst (setnonblocking connfd (open_fd connfd (ken s)))"
    have o: "fl (open_fd connfd (ken s)) connfd = Some 2" by (simp add: open_fd_def)
    have "nonblocking ?k u" if "nonblocking (ken s) u" for u
    proof -
      have "u \<noteq> connfd" using that new by (auto simp: nonblocking_def)
      then show ?thesis using that setnonblocking_sets(2) [OF o] by (simp add: nonblocking_def open_fd_def)
    qed
    then show ?thesis using event(4) True setnonblocking_sets(1) [OF o]
      by (auto simp: conns_inv_def on_event_def on_listen_def addfd_def)
  next
    case False
    then show ?thesis using event(4) by (auto simp: conns_inv_def server_ops Let_def)
  qed
qed (auto simp: conns_inv_def server_ops Let_def)

lemma server_reach_invs:
  "server_reach s0 s \<Longrightarrow>
   (chan_inv s0 \<longrightarrow> chan_inv s) \<and> (conns_inv s0 \<longrightarrow> conns_inv s) \<and> (loop_inv s0 \<longrightarrow> loop_inv s)"
  by (induction rule: server_reach.induct) (use chan_step conns_step loop_step in blast)+

text \<open>What \<open>main\<close> sets up, when the descriptors it is given are different from each other.\<close>

definition distinct_fds :: "answers \<Rightarrow> bool" where
  "distinct_fds a \<longleftrightarrow> (case a_pair a of None \<Rightarrow> True | Some (p0, p1) \<Rightarrow> distinct [a_socket a, p0, p1])"

lemma server_start_invs:
  assumes "server_start atoi inet_addr a argv = Inr s" "distinct_fds a"
  shows "chan_inv s" "conns_inv s" "loop_inv s" "chan_cap s = a_cap a"
proof -
  from assms(1) obtain p0 p1 where p: "a_pair a = Some (p0, p1)"
    by (auto simp: server_start_def error_handling_def Let_def check_Inr split: if_splits option.splits)
  let ?k0 = "\<lparr>fl = (\<lambda>_. None), sopt = (\<lambda>_ _ _. None)\<rparr>"
  let ?k1 = "fst (setnonblocking (a_socket a) (open_fd (a_epoll a) (open_fd (a_socket a) ?k0)))"
  let ?k2 = "fst (setnonblocking p1 (open_fd p1 (open_fd p0 ?k1)))"
  let ?k3 = "fst (setnonblocking p0 ?k2)"
  have s: "s = \<lparr>ken = ?k3, listenfd = a_socket a, epollfd = a_epoll a, pipe0 = p0, pipe1 = p1,
      regs = [a_socket a, p0], edges = [], pending = 0, chan = [], chan_cap = a_cap a, conns = [], stop_server = False,
      loopph = EWait, errno = 0, written = [], got = [], waitfail = False\<rparr>"
    using assms(1) p
    by (auto simp: server_start_def error_handling_def Let_def check_Inr addsig_def addfd_def res_simps split: if_splits)
  have d: "a_socket a \<noteq> p0" "a_socket a \<noteq> p1" "p0 \<noteq> p1" using assms(2) p by (auto simp: distinct_fds_def)
  have f1: "fl (open_fd (a_epoll a) (open_fd (a_socket a) ?k0)) (a_socket a) = Some 2" by (simp add: open_fd_def)
  have f2: "fl (open_fd p1 (open_fd p0 ?k1)) p1 = Some 2" by (simp add: open_fd_def)
  have f3: "fl ?k2 p0 = Some 2" using setnonblocking_sets(2) [OF f2 d(3)] d(3) by (simp add: open_fd_def)
  have "nonblocking ?k1 (a_socket a)" by (rule setnonblocking_sets(1) [OF f1])
  then have "nonblocking ?k3 (a_socket a)"
    using d setnonblocking_sets(2) [OF f3 d(1)] setnonblocking_sets(2) [OF f2 d(2)]
    by (simp add: nonblocking_def open_fd_def)
  moreover have "nonblocking ?k3 p0" by (rule setnonblocking_sets(1) [OF f3])
  ultimately show "conns_inv s" using d(1) by (simp add: s conns_inv_def)
  show "chan_inv s" using d(1) by (simp add: s chan_inv_def)
  show "loop_inv s" "chan_cap s = a_cap a" by (simp_all add: s loop_inv_def)
qed

section \<open>A small run\<close>

definition demo_answers :: answers where
  "demo_answers = \<lparr>a_socket = 3, a_bind = (\<lambda>_. True), a_listen = True, a_epoll = 4, a_pair = Some (5, 6),
     a_sigaction = (\<lambda>_. True), a_cap = 278\<rparr>"

definition demo_server :: "nat \<Rightarrow> int list \<Rightarrow> byte list \<Rightarrow> evphase \<Rightarrow> server" where
  "demo_server n es bs ph =
     \<lparr>ken = fst (setnonblocking 5 (fst (setnonblocking 6 (open_fd 6 (open_fd 5 (fst (setnonblocking 3 (open_fd 4 (open_fd 3
        \<lparr>fl = (\<lambda>_. None), sopt = (\<lambda>_ _ _. None)\<rparr>))))))))), listenfd = 3, epollfd = 4, pipe0 = 5, pipe1 = 6,
      regs = [3, 5], edges = es, pending = n, chan = bs, chan_cap = 278, conns = [], stop_server = False,
      loopph = ph, errno = 0, written = bs, got = [], waitfail = False\<rparr>"

lemma demo_server_start:
  "server_start (\<lambda>_. 80) (\<lambda>_. 0) demo_answers [''event'', ''ip'', ''port''] = Inr (demo_server 0 [] [] EWait)"
  by (simp add: server_start_def demo_answers_def demo_server_def addfd_def addsig_def Let_def)

lemma demo_distinct: "distinct_fds demo_answers"
  by (simp_all add: distinct_fds_def demo_answers_def)

section \<open>Properties\<close>



text \<open>Every connection accepted, the listening socket and the reading end of the pipe are registered with
  epoll and non-blocking.\<close>
theorem server_connections:
  assumes "server_start atoi inet_addr a argv = Inr s0" "distinct_fds a" "server_reach s0 s"
    "fd \<in> {listenfd s, pipe0 s} \<union> set (conns s)"
  shows "fd \<in> set (regs s) \<and> (\<exists>f. fl (ken s) fd = Some f \<and> f AND O_NONBLOCK = O_NONBLOCK)"
proof -
  have "conns_inv s" using server_reach_invs [OF assms(3)] server_start_invs(2) [OF assms(1,2)] by blast
  then show ?thesis using assms(4) by (auto simp: conns_inv_def nonblocking_def)
qed

lemma server_connections_witness: "3 \<in> set (regs (demo_server 0 [] [] EWait))"
proof -
  have "3 \<in> {listenfd (demo_server 0 [] [] EWait), pipe0 (demo_server 0 [] [] EWait)} \<union>
      set (conns (demo_server 0 [] [] EWait))" by (simp add: demo_server_def)
  from server_connections [OF demo_server_start demo_distinct server_reach.init this] show ?thesis by simp
qed

text \<open>The loop accepts one connection for each report. Two connections that arrive before it looks are
  reported once: the second stays pending while the loop waits and epoll has nothing to report.\<close>
theorem server_accepts_once:
  "\<exists>s. server_reach (demo_server 0 [] [] EWait) s \<and> loopph s = EWait \<and> edges s = [] \<and> 0 < pending s"
proof -
  let ?s = "demo_server"
  have a: "arrive (?s 0 [] [] EWait) = ?s 1 [3] [] EWait" "arrive (?s 1 [3] [] EWait) = ?s 2 [3] [] EWait"
    by (simp_all add: arrive_def new_edge_def demo_server_def)
  have "server_reach (?s 0 [] [] EWait) (?s 1 [3] [] EWait)"
    using server_reach.step [OF server_reach.init server_step.connect] a(1) by metis
  then have "server_reach (?s 0 [] [] EWait) (?s 2 [3] [] EWait)"
    using server_reach.step [OF _ server_step.connect] a(2) by metis
  moreover have "server_step (?s 2 [3] [] EWait) (server_wait 1 0 (?s 2 [3] [] EWait))"
    by (rule server_step.wait) (simp_all add: demo_server_def MAX_EVENT_NUMBER_def)
  moreover have "server_wait 1 0 (?s 2 [3] [] EWait) = ?s 2 [] [] (EEvents [3])"
    by (simp add: server_wait_def demo_server_def)
  ultimately have r: "server_reach (?s 0 [] [] EWait) (?s 2 [] [] (EEvents [3]))"
    using server_reach.step by metis
  let ?t = "(on_event 3 True 7 (?s 2 [] [] (EEvents [3])))\<lparr>loopph := EEvents []\<rparr>"
  have "accept_ok (?s 2 [] [] (EEvents [3])) 7"
    by (simp add: accept_ok_def demo_server_def setnonblocking_def setfl_def open_fd_def Let_def split: option.splits)
  then have "server_reach (?s 0 [] [] EWait) ?t"
    by (intro server_reach.step [OF r] server_step.event) (simp_all add: demo_server_def)
  moreover have "loopph ?t = EEvents []" by simp
  ultimately have "server_reach (?s 0 [] [] EWait) (server_next ?t)"
    by (intro server_reach.step [OF _ server_step.round])
  moreover have "loopph (server_next ?t) = EWait \<and> edges (server_next ?t) = [] \<and> 0 < pending (server_next ?t)"
    by (simp add: server_next_def on_event_def on_listen_def addfd_def demo_server_def)
  ultimately show ?thesis by blast
qed

text \<open>The handler gives \<open>errno\<close> back as it was.\<close>

lemma sig_handler_errno: "errno (sig_handler sig s) = errno s"
  by (simp add: sig_handler_def Let_def)

end
