(* ===== verification/Poller.thy ===== *)
theory Poller
  imports Prelude
begin

text \<open>
  \<open>Channel\<close> and \<open>EPoller\<close> of chapter9. A callback is a function on the state of the program, and \<open>None\<close> an
  empty \<open>std::function\<close>; callbacks do not touch the channel they belong to. The kernel's answer to
  \<open>epoll_wait\<close> is the list of the events it stores.
\<close>

unbundle bit_operations_syntax

section \<open>Channels\<close>

definition EPOLLIN :: uint where "EPOLLIN = 1"
definition EPOLLPRI :: uint where "EPOLLPRI = 2"
definition EPOLLOUT :: uint where "EPOLLOUT = 4"
definition EPOLLERR :: uint where "EPOLLERR = 8"
definition EPOLLHUP :: uint where "EPOLLHUP = 16"
definition EPOLLRDHUP :: uint where "EPOLLRDHUP = 8192"

record 'w Channel =
  revents :: uint
  read_callback :: "(int \<Rightarrow> 'w \<Rightarrow> 'w) option"
  write_callback :: "('w \<Rightarrow> 'w) option"
  error_callback :: "('w \<Rightarrow> 'w) option"
  close_callback :: "('w \<Rightarrow> 'w) option"

definition SetReadCallback :: "(int \<Rightarrow> 'w \<Rightarrow> 'w) \<Rightarrow> 'w Channel \<Rightarrow> 'w Channel" where
  "SetReadCallback cb c = c\<lparr>read_callback := Some cb\<rparr>"

definition SetWriteCallback :: "('w \<Rightarrow> 'w) \<Rightarrow> 'w Channel \<Rightarrow> 'w Channel" where
  "SetWriteCallback cb c = c\<lparr>write_callback := Some cb\<rparr>"

definition SetErrorCallback :: "('w \<Rightarrow> 'w) \<Rightarrow> 'w Channel \<Rightarrow> 'w Channel" where
  "SetErrorCallback cb c = c\<lparr>error_callback := Some cb\<rparr>"

definition SetCloseCallback :: "('w \<Rightarrow> 'w) \<Rightarrow> 'w Channel \<Rightarrow> 'w Channel" where
  "SetCloseCallback cb c = c\<lparr>close_callback := Some cb\<rparr>"

definition SetREvents :: "uint \<Rightarrow> 'w Channel \<Rightarrow> 'w Channel" where
  "SetREvents r c = c\<lparr>revents := r\<rparr>"

definition call_if :: "bool \<Rightarrow> ('w \<Rightarrow> 'w) option \<Rightarrow> 'w \<Rightarrow> 'w" where
  "call_if b cb w = (if b then (case cb of None \<Rightarrow> w | Some f \<Rightarrow> f w) else w)"

definition HandleEvent :: "'w Channel \<Rightarrow> 'w \<Rightarrow> 'w" where
  "HandleEvent c w =
     (let w = call_if (revents c AND EPOLLERR \<noteq> 0) (error_callback c) w;
          w = call_if (revents c AND (EPOLLIN OR EPOLLPRI OR EPOLLRDHUP) \<noteq> 0)
            (map_option (\<lambda>f. f 0) (read_callback c)) w
      in call_if (revents c AND EPOLLOUT \<noteq> 0) (write_callback c) w)"

text \<open>A channel whose callbacks write down their names calls error, read and write in this order, each when
  one of its events is set; the close callback is never called, not even for a hang-up.\<close>

definition tracing :: "uint \<Rightarrow> string list Channel" where
  "tracing r = SetREvents r (SetCloseCallback (\<lambda>w. w @ [''close'']) (SetErrorCallback (\<lambda>w. w @ [''error''])
     (SetWriteCallback (\<lambda>w. w @ [''write'']) (SetReadCallback (\<lambda>_ w. w @ [''read''])
       \<lparr>revents = 0, read_callback = None, write_callback = None, error_callback = None, close_callback = None\<rparr>))))"

lemma channel_dispatch:
  "HandleEvent (tracing r) w =
    w @ (if r AND EPOLLERR \<noteq> 0 then [''error''] else []) @
      (if r AND (EPOLLIN OR EPOLLPRI OR EPOLLRDHUP) \<noteq> 0 then [''read''] else []) @
      (if r AND EPOLLOUT \<noteq> 0 then [''write''] else [])"
  by (simp add: HandleEvent_def call_if_def tracing_def SetREvents_def SetCloseCallback_def SetErrorCallback_def
      SetWriteCallback_def SetReadCallback_def Let_def)

lemma channel_hangup: "HandleEvent (tracing EPOLLHUP) w = w"
  by (simp add: channel_dispatch EPOLLHUP_def EPOLLERR_def EPOLLIN_def EPOLLPRI_def EPOLLRDHUP_def EPOLLOUT_def)

section \<open>The epoll wrapper\<close>

record EPoller =
  epfd :: int
  nevents :: nat

definition kEventInitNum :: nat where
  "kEventInitNum = 16"

definition kTimeoutMs :: int where
  "kTimeoutMs = 1000"

text \<open>The constructor, with what \<open>epoll_create1\<close> returns.\<close>

definition EPoller_new :: "int \<Rightarrow> EPoller res" where
  "EPoller_new fd = check (0 \<le> fd) Terminated (Inr \<lparr>epfd = fd, nevents = kEventInitNum\<rparr>)"

text \<open>
  \<open>wait\<close>. \<open>epoll size timeout\<close> is what \<open>epoll_wait\<close> does: the number it returns, and the events and
  channels it stores. \<open>i\<close> is the loop variable, which the code declares without a value: \<open>None\<close>.
\<close>

function wait_loop ::
  "nat \<Rightarrow> nat \<Rightarrow> (uint \<times> 'w Channel) list \<Rightarrow> 'w Channel list \<Rightarrow> 'w Channel list res" where
  "wait_loop i num evs channels =
     (if i < num then
        (if i < length evs then wait_loop (Suc i) num evs (channels @ [SetREvents (fst (evs ! i)) (snd (evs ! i))])
         else Inl OutOfBounds)
      else Inr channels)"
  by pat_completeness auto
termination by (relation "measure (\<lambda>(i, num, _). num - i)") auto

declare wait_loop.simps [simp del]

definition wait_from ::
  "nat option \<Rightarrow> (nat \<Rightarrow> int \<Rightarrow> int \<times> (uint \<times> 'w Channel) list) \<Rightarrow> int \<Rightarrow> EPoller \<Rightarrow> 'w Channel list \<Rightarrow>
    (int \<times> EPoller \<times> 'w Channel list) res" where
  "wait_from i epoll timeout_ms p channels =
     (let (num, evs) = epoll (nevents p) kTimeoutMs in
      if 0 < num then
        (case i of None \<Rightarrow> Inl Uninit
         | Some i \<Rightarrow> res_bind (wait_loop i (nat num) evs channels) (\<lambda>channels.
             Inr (0, if 4 * nevents p div 5 \<le> nat num then p\<lparr>nevents := nevents p * 2\<rparr> else p, channels)))
      else Inr (0, p, channels))"

definition EPoller_wait ::
  "(nat \<Rightarrow> int \<Rightarrow> int \<times> (uint \<times> 'w Channel) list) \<Rightarrow> int \<Rightarrow> EPoller \<Rightarrow> 'w Channel list \<Rightarrow>
    (int \<times> EPoller \<times> 'w Channel list) res" where
  "EPoller_wait = wait_from None"

text \<open>What \<open>epoll_wait\<close> promises: at most as many events as there is room for, all of them stored.\<close>

definition epoll_ok :: "(nat \<Rightarrow> int \<Rightarrow> int \<times> (uint \<times> 'w Channel) list) \<Rightarrow> bool" where
  "epoll_ok epoll \<longleftrightarrow> (\<forall>n t. let (num, evs) = epoll n t in num \<le> int n \<and> (0 < num \<longrightarrow> length evs = nat num))"

text \<open>As written, \<open>wait\<close> reads an indeterminate value whenever there is an event.\<close>

lemma EPoller_wait_uninit: "0 < fst (epoll (nevents p) kTimeoutMs) \<Longrightarrow> EPoller_wait epoll t p channels = Inl Uninit"
  by (simp add: EPoller_wait_def wait_from_def split_beta)

text \<open>Started at 0, the loop hands over every reported channel with its events, in order, whatever the timeout
  that was passed.\<close>

lemma wait_loop_all:
  assumes "i \<le> length evs"
  shows "wait_loop i (length evs) evs channels = Inr (channels @ map (\<lambda>(r, c). SetREvents r c) (drop i evs))"
  using assms
proof (induction "length evs - i" arbitrary: i channels)
  case 0
  then show ?case by (subst wait_loop.simps) simp
next
  case (Suc n)
  then have i: "i < length evs" by simp
  have "wait_loop (Suc i) (length evs) evs (channels @ [SetREvents (fst (evs ! i)) (snd (evs ! i))]) =
      Inr ((channels @ [SetREvents (fst (evs ! i)) (snd (evs ! i))]) @ map (\<lambda>(r, c). SetREvents r c) (drop (Suc i) evs))"
    by (rule Suc.hyps(1)) (use Suc.hyps(2) i in auto)
  then show ?case using i by (subst wait_loop.simps) (simp add: Cons_nth_drop_Suc [symmetric] split_beta)
qed

lemma wait_from_zero:
  assumes "epoll_ok epoll" "epoll (nevents p) kTimeoutMs = (num, evs)" "0 < num"
  shows "\<exists>q. wait_from (Some 0) epoll t p channels = Inr (0, q, channels @ map (\<lambda>(r, c). SetREvents r c) evs) \<and>
    nevents p \<le> nevents q"
proof -
  have "let (num, evs) = epoll (nevents p) kTimeoutMs in num \<le> int (nevents p) \<and> (0 < num \<longrightarrow> length evs = nat num)"
    using assms(1) unfolding epoll_ok_def by blast
  then have "length evs = nat num" using assms(2,3) by simp
  then show ?thesis using wait_loop_all [of 0 evs channels] assms(2,3) by (simp add: wait_from_def)
qed

end
