(* ===== verification/Daemon.thy ===== *)
theory Daemon
  imports Prelude
begin

text \<open>
  The small programs of chapter5 and chapter7: \<open>byteorder\<close>, the union of little_endian.cc, and
  \<open>daemon2\<close> with \<open>print_10\<close> of daemon.cc. What the system calls answer is given.
\<close>

section \<open>Byte order\<close>

text \<open>The bytes of an integer in memory are those that \<open>layout\<close> gives.\<close>

definition byteorder :: "(nat \<Rightarrow> byte list) \<Rightarrow> byte list" where
  "byteorder layout =
     (let union_bytes = layout 258 in
      if of_char (union_bytes ! 0) = (1 :: nat) \<and> of_char (union_bytes ! 1) = (2 :: nat) then ''big endian'' @ [CHR 0x0A]
      else if of_char (union_bytes ! 0) = (2 :: nat) \<and> of_char (union_bytes ! 1) = (1 :: nat) then ''little endian'' @ [CHR 0x0A]
      else ''unknown type'' @ [CHR 0x0A])"

definition union_main :: "(nat \<Rightarrow> byte list) \<Rightarrow> byte list" where
  "union_main layout = (let t = layout 65 in fmt_int (int (dec_le t)) @ '' '' @ [t ! 0] @ [CHR 0x0A])"

lemma enc_le_bytes: "enc_le 2 n = [char_of n, char_of (n div 256)]"
  "enc_le 4 n = [char_of n, char_of (n div 256), char_of (n div 256 div 256), char_of (n div 256 div 256 div 256)]"
proof -
  have "(2 :: nat) = Suc (Suc 0)" "(4 :: nat) = Suc (Suc (Suc (Suc 0)))" by simp_all
  then show "enc_le 2 n = [char_of n, char_of (n div 256)]"
    "enc_le 4 n = [char_of n, char_of (n div 256), char_of (n div 256 div 256), char_of (n div 256 div 256 div 256)]"
    by (simp_all only: enc_le.simps)
qed

lemma byteorder_detects:
  "byteorder (enc_le 2) = ''little endian'' @ [CHR 0x0A]"
  "byteorder (\<lambda>n. rev (enc_le 2 n)) = ''big endian'' @ [CHR 0x0A]"
  by (simp_all add: byteorder_def enc_le_bytes)

lemma union_main_little: "union_main (enc_le 4) = ''65 A'' @ [CHR 0x0A]"
  by (simp add: union_main_def enc_le_bytes char_of_def bit_Suc_0_iff fmt_eval Let_def)

section \<open>Daemons\<close>

text \<open>A process: what its descriptors refer to, its working directory, whether it leads a session.\<close>

record process =
  fdtab :: "int \<Rightarrow> byte list option"
  cwd :: "byte list"
  session_leader :: bool

definition dup2 :: "int \<Rightarrow> int \<Rightarrow> process \<Rightarrow> process" where
  "dup2 old new p = (case fdtab p old of None \<Rightarrow> p | Some f \<Rightarrow> p\<lparr>fdtab := (fdtab p)(new \<mapsto> f)\<rparr>)"

definition close_fd :: "int \<Rightarrow> process \<Rightarrow> process" where
  "close_fd fd p = p\<lparr>fdtab := (fdtab p)(fd := None)\<rparr>"

definition dev_null :: "byte list" where
  "dev_null = ''/dev/null''"

text \<open>\<open>daemon2\<close>, with what \<open>chdir\<close>, \<open>open\<close>, \<open>fork\<close> and \<open>setsid\<close> return; the parent exits.\<close>

definition redirect :: "int \<Rightarrow> process \<Rightarrow> process" where
  "redirect fd p =
     (let p = p\<lparr>fdtab := (fdtab p)(fd \<mapsto> dev_null)\<rparr> in close_fd fd (dup2 fd 2 (dup2 fd 1 (dup2 fd 0 p))))"

definition daemon2 ::
  "bool \<Rightarrow> bool \<Rightarrow> int \<Rightarrow> int \<Rightarrow> int \<Rightarrow> int \<Rightarrow> process \<Rightarrow> (int \<times> process) res" where
  "daemon2 nochdir noclose chdir fd pid setsid p =
     (if \<not> nochdir \<and> chdir \<noteq> 0 then Inr (-1, p)
      else
        let p = (if nochdir then p else p\<lparr>cwd := ''/''\<rparr>) in
        if \<not> noclose \<and> fd < 0 then Inr (-1, p)
        else
          let p = (if noclose then p else redirect fd p) in
          if pid < 0 then Inr (-1, p)
          else if 0 < pid then Inl Terminated
          else if setsid < 0 then Inr (-1, p)
          else Inr (0, p\<lparr>session_leader := True\<rparr>))"

primrec print_lines :: "nat \<Rightarrow> byte list" where
  "print_lines 0 = []"
| "print_lines (Suc i) = print_lines i @ fmt_int (int i + 1) @ '' seconds'' @ [CHR 0x0A]"

definition print_10 :: "byte list" where
  "print_10 = print_lines 10"

text \<open>A daemon that was started with its three standard descriptors open has them on the null device, and the
  extra descriptor is closed.\<close>

lemma daemon2_redirects:
  assumes "daemon2 nochdir False chdir fd pid setsid p = Inr (0, q)" "2 < fd"
  shows "fdtab q 0 = Some dev_null" "fdtab q 1 = Some dev_null" "fdtab q 2 = Some dev_null" "fdtab q fd = None"
    "session_leader q"
  using assms by (auto simp: daemon2_def redirect_def dup2_def close_fd_def Let_def split: if_splits)

text \<open>Started without standard input, \<open>open\<close> gives descriptor 0, and the daemon closes it again.\<close>

lemma daemon2_closes_stdin:
  "daemon2 nochdir False chdir 0 pid setsid p = Inr (0, q) \<Longrightarrow> fdtab q 0 = None \<and> fdtab q 1 = Some dev_null"
  by (auto simp: daemon2_def redirect_def dup2_def close_fd_def Let_def split: if_splits)

text \<open>The program: \<open>main\<close> ignores what \<open>daemon2\<close> returns. Where its lines go is what descriptor 1 refers to then.\<close>

definition daemon_main :: "int \<Rightarrow> int \<Rightarrow> int \<Rightarrow> int \<Rightarrow> process \<Rightarrow> (process \<times> byte list option \<times> byte list) res" where
  "daemon_main chdir fd pid setsid p =
     res_bind (daemon2 False False chdir fd pid setsid p) (\<lambda>(_, p). Inr (p, fdtab p 1, print_10))"

text \<open>So the ten lines of a daemon are written to the null device, and those of a process that could not change
  its directory to where they went before.\<close>

lemma daemon_main_output:
  "chdir = 0 \<Longrightarrow> 2 < fd \<Longrightarrow> daemon_main chdir fd pid setsid p = Inr (q, out, lines) \<Longrightarrow> out = Some dev_null"
  "chdir \<noteq> 0 \<Longrightarrow> daemon_main chdir fd pid setsid p = Inr (p, fdtab p 1, print_10)"
  by (auto simp: daemon_main_def daemon2_def redirect_def dup2_def close_fd_def Let_def split: if_splits)

end
