(* ===== verification/Singleton.thy ===== *)
theory Singleton
  imports Runs
begin

text \<open>
  \<open>GetInstance\<close> of the macro \<open>DECLARE_SINGLETON\<close> (netbridge/Macros.h), called by any number of
  threads: the test of the static pointer, \<open>std::call_once\<close> with the allocation, and the return. Reads and
  writes of the pointer are taken one at a time; that the test outside of \<open>call_once\<close> reads it without
  synchronisation is a data race in C++, which the model does not show.
\<close>

section \<open>State\<close>

text \<open>The \<open>once_flag\<close>: not used, run by a thread, or done.\<close>

datatype once = OFresh | ORunning nat | OFinished

text \<open>
  A thread: outside; past the test, which saw null; in the lambda; the pointer stored, the lambda about to
  return; at the return statement.
\<close>

datatype gphase = GOut | GOnce | GNew | GStored | GReturn

text \<open>Ghosts: what the executions of the new expression gave, and what the calls returned. Null is 0.\<close>

record single =
  the_instance :: nat
  flag :: once
  at :: "nat \<Rightarrow> gphase"
  news :: "nat list"
  rets :: "nat list"

definition single_start :: single where
  "single_start = \<lparr>the_instance = 0, flag = OFresh, at = (\<lambda>_. GOut), news = [], rets = []\<rparr>"

section \<open>\<open>GetInstance\<close>\<close>

definition get_test :: "nat \<Rightarrow> single \<Rightarrow> single" where
  "get_test t s = s\<lparr>at := (at s)(t := (if the_instance s = 0 then GOnce else GReturn))\<rparr>"

text \<open>\<open>call_once\<close>: run the lambda, wait (none) for the thread that does, or skip it.\<close>

definition get_once :: "nat \<Rightarrow> single \<Rightarrow> single option" where
  "get_once t s =
     (case flag s of
        OFresh \<Rightarrow> Some (s\<lparr>flag := ORunning t, at := (at s)(t := GNew)\<rparr>)
      | ORunning _ \<Rightarrow> None
      | OFinished \<Rightarrow> Some (s\<lparr>at := (at s)(t := GReturn)\<rparr>))"

text \<open>The lambda; \<open>a\<close> is what \<open>new (std::nothrow)\<close> gives.\<close>

definition get_new :: "nat \<Rightarrow> nat \<Rightarrow> single \<Rightarrow> single" where
  "get_new a t s = s\<lparr>the_instance := a, at := (at s)(t := GStored), news := news s @ [a]\<rparr>"

definition once_end :: "nat \<Rightarrow> single \<Rightarrow> single" where
  "once_end t s = s\<lparr>flag := OFinished, at := (at s)(t := GReturn)\<rparr>"

definition get_return :: "nat \<Rightarrow> single \<Rightarrow> single" where
  "get_return t s = s\<lparr>at := (at s)(t := GOut), rets := rets s @ [the_instance s]\<rparr>"

text \<open>The label is the thread.\<close>

inductive single_step :: "single \<Rightarrow> nat \<Rightarrow> single \<Rightarrow> bool" where
  g_test: "at s t = GOut \<Longrightarrow> single_step s t (get_test t s)"
| g_once: "at s t = GOnce \<Longrightarrow> get_once t s = Some s' \<Longrightarrow> single_step s t s'"
| g_new: "at s t = GNew \<Longrightarrow> single_step s t (get_new a t s)"
| g_end: "at s t = GStored \<Longrightarrow> single_step s t (once_end t s)"
| g_return: "at s t = GReturn \<Longrightarrow> single_step s t (get_return t s)"

section \<open>Invariant\<close>

text \<open>What each phase of a thread implies, and how the pointer, the flag and the ghosts are related.\<close>

definition at_ok :: "single \<Rightarrow> nat \<Rightarrow> bool" where
  "at_ok s t \<longleftrightarrow> (case at s t of
       GNew \<Rightarrow> flag s = ORunning t \<and> news s = []
     | GStored \<Rightarrow> flag s = ORunning t \<and> news s \<noteq> []
     | GReturn \<Rightarrow> flag s = OFinished \<or> the_instance s \<noteq> 0
     | _ \<Rightarrow> True)"

definition single_ok :: "single \<Rightarrow> bool" where
  "single_ok s \<longleftrightarrow> (if news s = [] then the_instance s = 0 else news s = [the_instance s]) \<and>
     (flag s = OFresh \<longrightarrow> news s = []) \<and> (flag s = OFinished \<longrightarrow> news s \<noteq> []) \<and>
     (\<forall>u. flag s = ORunning u \<longrightarrow> at s u = GNew \<or> at s u = GStored) \<and> (\<forall>a \<in> set (rets s). news s = [a])"

definition single_inv :: "single \<Rightarrow> bool" where
  "single_inv s \<longleftrightarrow> single_ok s \<and> (\<forall>t. at_ok s t)"

lemma single_invD: "single_inv s \<Longrightarrow> single_ok s" "single_inv s \<Longrightarrow> at_ok s t"
  by (simp_all add: single_inv_def)

lemma single_inv_upd:
  assumes inv: "single_inv s" and ok: "single_ok s'" "at_ok s' t"
    and other: "\<And>u. u \<noteq> t \<Longrightarrow> at_ok s u \<Longrightarrow> at_ok s' u"
  shows "single_inv s'"
  using assms unfolding single_inv_def by metis

lemma at_ok_frame:
  "at_ok s u \<Longrightarrow> at s' u = at s u \<Longrightarrow> news s' = news s \<Longrightarrow> the_instance s' = the_instance s \<Longrightarrow>
   flag s' = flag s \<or> flag s = OFresh \<Longrightarrow> at_ok s' u"
  by (auto simp: at_ok_def split: gphase.splits)

lemma test_inv:
  assumes inv: "single_inv s" and ph: "at s t = GOut"
  shows "single_inv (get_test t s)"
proof (rule single_inv_upd [OF inv])
  have "flag s \<noteq> ORunning t" using single_invD(1) [OF inv] ph by (auto simp: single_ok_def)
  with single_invD(1) [OF inv] show "single_ok (get_test t s)" by (simp add: get_test_def single_ok_def)
  show "at_ok (get_test t s) t" by (simp add: get_test_def at_ok_def)
qed (auto simp: get_test_def elim: at_ok_frame)

lemma once_inv:
  assumes inv: "single_inv s" and ph: "at s t = GOnce" and st: "get_once t s = Some s'"
  shows "single_inv s'"
proof (rule single_inv_upd [OF inv])
  note ok = single_invD(1) [OF inv]
  show "single_ok s'" using ok st by (auto simp: get_once_def single_ok_def split: once.splits)
  show "at_ok s' t" using ok st by (auto simp: get_once_def single_ok_def at_ok_def split: once.splits)
  show "at_ok s' u" if "u \<noteq> t" "at_ok s u" for u
    using that st by (auto simp: get_once_def split: once.splits elim: at_ok_frame)
qed

lemma new_inv:
  assumes inv: "single_inv s" and ph: "at s t = GNew"
  shows "single_inv (get_new a t s)"
proof (rule single_inv_upd [OF inv])
  have f: "flag s = ORunning t" "news s = []" using single_invD(2) [OF inv, of t] ph by (simp_all add: at_ok_def)
  with single_invD(1) [OF inv] show "single_ok (get_new a t s)" by (auto simp: get_new_def single_ok_def)
  show "at_ok (get_new a t s) t" using f by (simp add: get_new_def at_ok_def)
  show "at_ok (get_new a t s) u" if "u \<noteq> t" "at_ok s u" for u
    using that f single_invD(1) [OF inv]
    by (auto simp: get_new_def at_ok_def single_ok_def split: gphase.splits)
qed

lemma end_inv:
  assumes inv: "single_inv s" and ph: "at s t = GStored"
  shows "single_inv (once_end t s)"
proof (rule single_inv_upd [OF inv])
  have f: "flag s = ORunning t" "news s \<noteq> []" using single_invD(2) [OF inv, of t] ph by (simp_all add: at_ok_def)
  with single_invD(1) [OF inv] show "single_ok (once_end t s)" by (auto simp: once_end_def single_ok_def)
  show "at_ok (once_end t s) t" by (simp add: once_end_def at_ok_def)
  show "at_ok (once_end t s) u" if "u \<noteq> t" "at_ok s u" for u
    using that f by (auto simp: once_end_def at_ok_def split: gphase.splits)
qed

lemma return_inv:
  assumes inv: "single_inv s" and ph: "at s t = GReturn"
  shows "single_inv (get_return t s)"
proof (rule single_inv_upd [OF inv])
  have "news s \<noteq> []"
    using single_invD(2) [OF inv, of t] single_invD(1) [OF inv] ph by (auto simp: at_ok_def single_ok_def)
  with single_invD(1) [OF inv] ph show "single_ok (get_return t s)"
    by (auto simp: get_return_def single_ok_def)
  show "at_ok (get_return t s) t" by (simp add: get_return_def at_ok_def)
  show "at_ok (get_return t s) u" if "u \<noteq> t" "at_ok s u" for u
    using that by (auto simp: get_return_def elim: at_ok_frame)
qed

interpretation sg: system single_step single_inv
  by unfold_locales (auto elim!: single_step.cases intro: test_inv once_inv new_inv end_inv return_inv)

lemma single_start_inv: "single_inv single_start"
  by (simp add: single_inv_def single_start_def single_ok_def at_ok_def)

lemma single_run_inv: "run_of single_step single_start ts s \<Longrightarrow> single_inv s"
  by (rule sg.run_inv [OF _ single_start_inv])

section \<open>Properties\<close>

text \<open>Thread 1 makes the object at address 5; thread 2 sees it before the first call has returned.\<close>

definition demo_two :: single where
  "demo_two = \<lparr>the_instance = 5, flag = ORunning 1, at = (\<lambda>_. GOut)(1 := GStored), news = [5], rets = [5]\<rparr>"

lemma demo_two_run: "run_of single_step single_start [1, 1, 1, 2, 2] demo_two"
proof -
  let ?a = "get_test 1 single_start"
  let ?b = "?a\<lparr>flag := ORunning 1, at := (at ?a)(1 := GNew)\<rparr>"
  let ?c = "get_new 5 1 ?b" and ?d = "get_test 2 (get_new 5 1 ?b)"
  have 1: "single_step single_start 1 ?a" by (rule g_test) (simp add: single_start_def)
  have 2: "single_step ?a 1 ?b" by (rule g_once) (simp_all add: single_start_def get_test_def get_once_def)
  have 3: "single_step ?b 1 ?c" by (rule g_new) simp
  have 4: "single_step ?c 2 ?d" by (rule g_test) (simp add: single_start_def get_test_def get_new_def)
  have 5: "single_step ?d 2 (get_return 2 ?d)"
    by (rule g_return) (simp add: single_start_def get_test_def get_new_def)
  have "run_of single_step single_start [1, 1, 1, 2, 2] (get_return 2 ?d)"
    by (rule run_Cons, rule 1, rule run_Cons, rule 2, rule run_Cons, rule 3, rule run_Cons, rule 4,
        rule run_Cons, rule 5, rule run_of.nil)
  moreover have "get_return 2 ?d = demo_two"
    by (simp add: demo_two_def single_start_def get_test_def get_new_def get_return_def fun_eq_iff)
  ultimately show ?thesis by simp
qed

text \<open>C39: GetInstance constructs the object at most once, and every call of every thread returns the same
  pointer, the result of that one allocation; if it failed, all calls return null, for ever.\<close>
theorem singleton_once:
  assumes "run_of single_step single_start ts s"
  shows "length (news s) \<le> 1 \<and> (\<forall>a \<in> set (rets s). news s = [a])"
  using single_invD(1) [OF single_run_inv [OF assms]] by (auto simp: single_ok_def split: if_splits)

lemma singleton_once_witness: "length (news demo_two) \<le> 1 \<and> news demo_two = [5]"
  using singleton_once [OF demo_two_run] by (simp add: demo_two_def)

text \<open>Nobody waits for ever: while a call is under way, some thread can go on.\<close>
theorem singleton_goes_on:
  assumes "run_of single_step single_start ts s" "at s t \<noteq> GOut"
  shows "\<exists>u s'. at s u \<noteq> GOut \<and> single_step s u s'"
proof (cases "\<exists>u. flag s = ORunning u")
  case True
  then obtain u where "at s u = GNew \<or> at s u = GStored"
    using single_invD(1) [OF single_run_inv [OF assms(1)]] by (auto simp: single_ok_def)
  then show ?thesis using g_new [of s u 0] g_end [of s u] by (metis gphase.distinct(3,5))
next
  case False
  then have "\<exists>s'. get_once t s = Some s'" by (auto simp: get_once_def split: once.splits)
  then show ?thesis using assms(2) g_once g_new g_end g_return by (cases "at s t") metis+
qed

end
